(* ===== verification/Prelude.thy ===== *)
theory Prelude
  imports Main "HOL-Library.Word"
begin

text \<open>
  Shared vocabulary of the development.

  \<^item> Machine types: a \<open>u8\<close> is an \<open>8 word\<close>, a \<open>&[u8]\<close> or \<open>Vec<u8>\<close> a list of them;
    \<open>usize\<close> values (buffer lengths and offsets) are \<open>nat\<close>; \<open>Instant\<close> and \<open>Duration\<close> are
    \<open>nat\<close> (nanoseconds), so \<open>saturating_duration_since\<close> is subtraction on \<open>nat\<close>.
  \<^item> \<open>Result<T, E>\<close> is the sum type \<open>'e + 'a\<close> with \<open>Err\<close> on the left; the \<open>?\<close> operator
    is \<open>and_then\<close>.
  \<^item> \<open>to_be_bytes\<close> / \<open>from_be_bytes\<close> at every width are instances of \<open>be_bytes\<close> and
    \<open>of_be\<close>.
\<close>

section \<open>Collections of simplification rules\<close>

named_theorems result_simps \<open>rules for the result type\<close>
named_theorems be_simps \<open>rules for big-endian integers\<close>

section \<open>Machine types\<close>

type_synonym byte = "8 word"
type_synonym bytes = "8 word list"
type_synonym u16 = "16 word"
type_synonym u32 = "32 word"
type_synonym u64 = "64 word"
type_synonym u128 = "128 word"
type_synonym time = nat

text \<open>A byte-string literal.\<close>

definition ascii :: "string \<Rightarrow> bytes" where
  "ascii s = map (\<lambda>c. of_nat (of_char c)) s"

section \<open>Results\<close>

abbreviation Ok :: "'a \<Rightarrow> 'e + 'a"
  where "Ok \<equiv> Inr"

abbreviation Err :: "'e \<Rightarrow> 'e + 'a"
  where "Err \<equiv> Inl"

fun and_then :: "'e + 'a \<Rightarrow> ('a \<Rightarrow> 'e + 'b) \<Rightarrow> 'e + 'b" where
  "and_then (Inl e) f = Inl e"
| "and_then (Inr x) f = f x"

fun map_err :: "('e \<Rightarrow> 'f) \<Rightarrow> 'e + 'a \<Rightarrow> 'f + 'a" where
  "map_err g (Inl e) = Inl (g e)"
| "map_err g (Inr x) = Inr x"

fun ok_or :: "'e \<Rightarrow> 'a option \<Rightarrow> 'e + 'a" where
  "ok_or e None = Inl e"
| "ok_or e (Some x) = Inr x"

fun is_ok :: "'e + 'a \<Rightarrow> bool" where
  "is_ok (Inl e) = False"
| "is_ok (Inr x) = True"

definition guard :: "bool \<Rightarrow> 'e \<Rightarrow> 'e + unit" where
  "guard b e = (if b then Inr () else Inl e)"

lemma and_then_Ok_iff [result_simps]:
  "and_then r f = Inr y \<longleftrightarrow> (\<exists>x. r = Inr x \<and> f x = Inr y)"
  by (cases r) auto

lemma and_then_Err_iff [result_simps]:
  "and_then r f = Inl e \<longleftrightarrow> r = Inl e \<or> (\<exists>x. r = Inr x \<and> f x = Inl e)"
  by (cases r) auto

lemma map_err_Ok_iff [result_simps]: "map_err g r = Inr y \<longleftrightarrow> r = Inr y"
  by (cases r) auto

lemma map_err_Err_iff [result_simps]:
  "map_err g r = Inl e \<longleftrightarrow> (\<exists>e'. r = Inl e' \<and> e = g e')"
  by (cases r) auto

lemma ok_or_Ok_iff [result_simps]: "ok_or e v = Inr y \<longleftrightarrow> v = Some y"
  by (cases v) auto

lemma ok_or_Err_iff [result_simps]: "ok_or e v = Inl e' \<longleftrightarrow> v = None \<and> e' = e"
  by (cases v) auto

lemma guard_simps [simp]:
  "guard True e = Inr ()" "guard False e = Inl e"
  by (simp_all add: guard_def)

lemma guard_Ok_iff [result_simps]: "guard b e = Inr u \<longleftrightarrow> b"
  by (simp add: guard_def)

lemma guard_Err_iff [result_simps]: "guard b e = Inl e' \<longleftrightarrow> \<not> b \<and> e' = e"
  by (auto simp: guard_def)

lemma and_then_assoc: "and_then (and_then r f) g = and_then r (\<lambda>x. and_then (f x) g)"
  by (cases r) auto

lemma and_then_cong [fundef_cong]:
  assumes "r = r'" and "\<And>x. r' = Inr x \<Longrightarrow> f x = f' x"
  shows "and_then r f = and_then r' f'"
  using assms by (cases r') auto

section \<open>Big-endian integers\<close>

primrec be_bytes :: "nat \<Rightarrow> nat \<Rightarrow> bytes" where
  "be_bytes 0 n = []"
| "be_bytes (Suc k) n = be_bytes k (n div 256) @ [of_nat n]"

definition of_be :: "bytes \<Rightarrow> nat" where
  "of_be bs = foldl (\<lambda>acc b. acc * 256 + unat b) 0 bs"

lemma of_be_Nil [simp]: "of_be [] = 0"
  by (simp add: of_be_def)

lemma of_be_snoc [simp]: "of_be (bs @ [b]) = of_be bs * 256 + unat b"
  by (simp add: of_be_def)

lemma length_be_bytes [simp]: "length (be_bytes k n) = k"
  by (induction k arbitrary: n) auto

lemma unat_bound: "unat (x :: 'a::len word) < 2 ^ LENGTH('a)"
  by (rule unsigned_less)

lemma unat_of_nat_small: "n < 2 ^ LENGTH('a) \<Longrightarrow> unat (of_nat n :: 'a::len word) = n"
  by (simp add: unat_of_nat)

lemma of_nat_word_eq_iff:
  "a < 2 ^ LENGTH('a) \<Longrightarrow> b < 2 ^ LENGTH('a) \<Longrightarrow> (of_nat a :: 'a::len word) = of_nat b \<longleftrightarrow> a = b"
  by (metis unat_of_nat_small)

lemma unat_byte_less [simp]: "unat (b :: byte) < 256"
  using unat_bound [of b] by simp

lemma of_be_less: "of_be bs < 256 ^ length bs"
proof (induction bs rule: rev_induct)
  case (snoc b bs)
  have "of_be bs * 256 + unat b < (of_be bs + 1) * 256"
    by simp
  also have "\<dots> \<le> 256 ^ length bs * 256"
    using snoc.IH by (intro mult_le_mono1) simp
  finally show ?case
    by (simp add: mult.commute)
qed simp

lemma of_be_be_bytes [be_simps]: "n < 256 ^ k \<Longrightarrow> of_be (be_bytes k n) = n"
proof (induction k arbitrary: n)
  case (Suc k)
  have "n div 256 < 256 ^ k"
    using Suc.prems by (intro less_mult_imp_div_less) (simp add: mult.commute)
  moreover have "unat (of_nat n :: byte) = n mod 256"
    by (simp add: unat_of_nat)
  ultimately show ?case
    by (simp add: Suc.IH)
qed simp

lemma byte_256: "(256 :: byte) = 0"
  by simp

lemma be_bytes_of_be [be_simps]: "length bs = k \<Longrightarrow> be_bytes k (of_be bs) = bs"
proof (induction k arbitrary: bs)
  case (Suc k)
  then obtain as b where bs: "bs = as @ [b]" "length as = k"
    by (metis append_butlast_last_id diff_Suc_1 length_butlast length_0_conv nat.distinct(1))
  have "(of_nat (of_be as * 256 + unat b) :: byte) = of_nat (unat b)"
    unfolding of_nat_add of_nat_mult of_nat_numeral byte_256 by simp
  then show ?case
    using bs Suc.IH by simp
qed simp

lemma be_bytes_inj: "be_bytes k m = be_bytes k n \<Longrightarrow> m < 256 ^ k \<Longrightarrow> n < 256 ^ k \<Longrightarrow> m = n"
  by (metis of_be_be_bytes)

text \<open>\<open>to_be_bytes\<close> and \<open>from_be_bytes\<close> at the widths the wire formats use.\<close>

definition u16_be :: "u16 \<Rightarrow> bytes" where "u16_be x = be_bytes 2 (unat x)"
definition u32_be :: "u32 \<Rightarrow> bytes" where "u32_be x = be_bytes 4 (unat x)"
definition u64_be :: "u64 \<Rightarrow> bytes" where "u64_be x = be_bytes 8 (unat x)"
definition u128_be :: "u128 \<Rightarrow> bytes" where "u128_be x = be_bytes 16 (unat x)"
definition be_u16 :: "bytes \<Rightarrow> u16" where "be_u16 bs = of_nat (of_be bs)"
definition be_u32 :: "bytes \<Rightarrow> u32" where "be_u32 bs = of_nat (of_be bs)"
definition be_u64 :: "bytes \<Rightarrow> u64" where "be_u64 bs = of_nat (of_be bs)"
definition be_u128 :: "bytes \<Rightarrow> u128" where "be_u128 bs = of_nat (of_be bs)"

lemma length_be_fixed [simp]:
  "length (u16_be a) = 2" "length (u32_be b) = 4" "length (u64_be c) = 8"
  "length (u128_be d) = 16"
  by (simp_all add: u16_be_def u32_be_def u64_be_def u128_be_def)

lemma be_u16_u16_be [simp, be_simps]: "be_u16 (u16_be x) = x"
  using unat_bound [of x] by (simp add: be_u16_def u16_be_def of_be_be_bytes)

lemma be_u32_u32_be [simp, be_simps]: "be_u32 (u32_be x) = x"
  using unat_bound [of x] by (simp add: be_u32_def u32_be_def of_be_be_bytes)

lemma be_u64_u64_be [simp, be_simps]: "be_u64 (u64_be x) = x"
  using unat_bound [of x] by (simp add: be_u64_def u64_be_def of_be_be_bytes)

lemma be_u128_u128_be [simp, be_simps]: "be_u128 (u128_be x) = x"
  using unat_bound [of x] by (simp add: be_u128_def u128_be_def of_be_be_bytes)

lemma u16_be_be_u16 [be_simps]: "length bs = 2 \<Longrightarrow> u16_be (be_u16 bs) = bs"
  using of_be_less [of bs] be_bytes_of_be [of bs 2]
  by (simp add: be_u16_def u16_be_def unat_of_nat)

lemma u32_be_be_u32 [be_simps]: "length bs = 4 \<Longrightarrow> u32_be (be_u32 bs) = bs"
  using of_be_less [of bs] be_bytes_of_be [of bs 4]
  by (simp add: be_u32_def u32_be_def unat_of_nat)

lemma u64_be_be_u64 [be_simps]: "length bs = 8 \<Longrightarrow> u64_be (be_u64 bs) = bs"
  using of_be_less [of bs] be_bytes_of_be [of bs 8]
  by (simp add: be_u64_def u64_be_def unat_of_nat)

lemma u128_be_be_u128 [be_simps]: "length bs = 16 \<Longrightarrow> u128_be (be_u128 bs) = bs"
  using of_be_less [of bs] be_bytes_of_be [of bs 16]
  by (simp add: be_u128_def u128_be_def unat_of_nat)

lemma be_fixed_inject [simp]:
  "u16_be a = u16_be a' \<longleftrightarrow> a = a'" "u32_be b = u32_be b' \<longleftrightarrow> b = b'"
  "u64_be c = u64_be c' \<longleftrightarrow> c = c'" "u128_be d = u128_be d' \<longleftrightarrow> d = d'"
  by (metis be_u16_u16_be, metis be_u32_u32_be, metis be_u64_u64_be, metis be_u128_u128_be)

section \<open>Saturating counters\<close>

text \<open>\<open>u64::saturating_add\<close> on the byte and datagram counters.\<close>

definition sat_add :: "nat \<Rightarrow> nat \<Rightarrow> nat" where
  "sat_add a b = min (2 ^ 64 - 1) (a + b)"

lemma sat_add_assoc: "sat_add (sat_add a b) c = sat_add a (b + c)" "sat_add a (sat_add b c) = sat_add a (b + c)"
  by (simp_all add: sat_add_def min_def)

section \<open>Lists\<close>

lemma take_append_exact [simp]: "length xs = n \<Longrightarrow> take n (xs @ ys) = xs"
  by simp

lemma drop_append_exact [simp]: "length xs = n \<Longrightarrow> drop n (xs @ ys) = ys"
  by simp

end
