(* ===== verification/Session_Vision.thy ===== *)
theory Session_Vision
  imports Prelude
begin

text \<open>
  The Vision direction lifecycle of \<open>crates/rr-session/src/vision.rs\<close> and the bounded
  rendezvous of \<open>crates/rr-session/src/rendezvous.rs\<close>.

  Each direction of a session is in one \<open>direction_state\<close>; \<open>permits\<close> is the transition
  table, \<open>plan\<close> the choice between the bilateral and the directional raw relay.  The locale
  \<open>lifecycle\<close> collects what follows from a transition table with a strictly increasing
  rank; it is interpreted on \<open>permits\<close>.
\<close>

section \<open>Directions and their states\<close>

datatype direction = Uplink | Downlink

datatype direction_state =
  Framed | DirectPending | RawReady | Outer | Closed | Failed | PairPending | Relaying

text \<open>The explicit discriminants of the \<open>repr(u8)\<close> enum.\<close>

fun direction_state_repr :: "direction_state \<Rightarrow> byte" where
  "direction_state_repr Framed = 0"
| "direction_state_repr DirectPending = 1"
| "direction_state_repr RawReady = 2"
| "direction_state_repr Outer = 3"
| "direction_state_repr Closed = 4"
| "direction_state_repr Failed = 5"
| "direction_state_repr PairPending = 6"
| "direction_state_repr Relaying = 7"

definition from_repr :: "byte \<Rightarrow> direction_state" where
  "from_repr v =
    (if v = 1 then DirectPending
     else if v = 2 then RawReady
     else if v = 3 then Outer
     else if v = 4 then Closed
     else if v = 5 then Failed
     else if v = 6 then PairPending
     else if v = 7 then Relaying
     else Framed)"

fun permits :: "direction_state \<Rightarrow> direction_state \<Rightarrow> bool" where
  "permits Framed DirectPending = True"
| "permits Framed Outer = True"
| "permits Framed Closed = True"
| "permits Framed Failed = True"
| "permits DirectPending RawReady = True"
| "permits DirectPending Closed = True"
| "permits DirectPending Failed = True"
| "permits RawReady PairPending = True"
| "permits RawReady Relaying = True"
| "permits RawReady Closed = True"
| "permits RawReady Failed = True"
| "permits PairPending Closed = True"
| "permits PairPending Failed = True"
| "permits Relaying Closed = True"
| "permits Relaying Failed = True"
| "permits Outer Closed = True"
| "permits Outer Failed = True"
| "permits _ _ = False"

record invalid_transition =
  it_direction :: direction
  it_from :: direction_state
  it_to :: direction_state

section \<open>The raw-relay decision\<close>

datatype raw_decision = Pair | Directional

record raw_relay_grant =
  g_direction :: direction
  g_decision :: raw_decision

record raw_relay_transition =
  t_grant :: raw_relay_grant
  t_next_state :: direction_state

definition plan ::
  "direction \<Rightarrow> direction_state \<Rightarrow> direction_state \<Rightarrow> invalid_transition + raw_relay_transition"
where
  "plan direction current peer =
    (let (decision, next_state) =
       (case peer of
          RawReady \<Rightarrow> (Pair, PairPending)
        | PairPending \<Rightarrow> (Pair, PairPending)
        | _ \<Rightarrow> (Directional, Relaying))
     in if \<not> permits current next_state
        then Err \<lparr>it_direction = direction, it_from = current, it_to = next_state\<rparr>
        else Ok \<lparr>t_grant = \<lparr>g_direction = direction, g_decision = decision\<rparr>,
                 t_next_state = next_state\<rparr>)"

definition next_state :: "raw_relay_transition \<Rightarrow> direction_state" where
  "next_state t = t_next_state t"

definition into_grant :: "raw_relay_transition \<Rightarrow> raw_relay_grant" where
  "into_grant t = t_grant t"

definition grant_direction :: "raw_relay_grant \<Rightarrow> direction" where
  "grant_direction g = g_direction g"

definition into_decision :: "raw_relay_grant \<Rightarrow> raw_decision" where
  "into_decision g = g_decision g"

section \<open>The pair rendezvous\<close>

datatype rendezvous_step = Yield | Commit

record pair_rendezvous =
  yields_remaining :: byte
  committed :: bool

definition YIELD_BUDGET :: byte where "YIELD_BUDGET = 2"

definition rendezvous_new :: pair_rendezvous where
  "rendezvous_new = \<lparr>yields_remaining = YIELD_BUDGET, committed = False\<rparr>"

definition step :: "pair_rendezvous \<Rightarrow> bool \<Rightarrow> pair_rendezvous \<times> rendezvous_step" where
  "step r peer_can_pair =
    (if committed r \<or> peer_can_pair \<or> yields_remaining r = 0
     then (r\<lparr>committed := True\<rparr>, Commit)
     else (r\<lparr>yields_remaining := yields_remaining r - 1\<rparr>, Yield))"

definition yields_spent :: "pair_rendezvous \<Rightarrow> byte" where
  "yields_spent r = YIELD_BUDGET - yields_remaining r"

text \<open>
  The loop of \<open>decide_raw_relay\<close>: \<open>obs n\<close> is the peer observation made after \<open>n\<close> yields.
  The result is the number of yields spent when the loop leaves.
\<close>

function rendezvous_loop :: "(nat \<Rightarrow> bool) \<Rightarrow> nat \<Rightarrow> pair_rendezvous \<Rightarrow> nat \<times> pair_rendezvous" where
  "rendezvous_loop obs n r =
    (case step r (obs n) of
       (r', Commit) \<Rightarrow> (n, r')
     | (r', Yield) \<Rightarrow> rendezvous_loop obs (Suc n) r')"
  by pat_completeness auto

lemma step_yield_decreases:
  "step r p = (r', Yield) \<Longrightarrow> unat (yields_remaining r') < unat (yields_remaining r)"
  by (auto simp: step_def unat_minus_one unat_gt_0 split: if_splits)

termination rendezvous_loop
  by (relation "measure (\<lambda>(obs, n, r). unat (yields_remaining r))")
     (auto dest: step_yield_decreases [OF sym])

declare rendezvous_loop.simps [simp del]

section \<open>Lifecycles with a rank\<close>

text \<open>
  A transition table whose every edge raises a rank bounded by \<open>top\<close>: no run comes back to
  a state it has left, and no run is longer than \<open>top\<close>.
\<close>

locale lifecycle =
  fixes edge :: "'s \<Rightarrow> 's \<Rightarrow> bool"
    and rank :: "'s \<Rightarrow> nat"
    and top :: nat
  assumes edge_rank: "edge s t \<Longrightarrow> rank s < rank t"
    and rank_top: "rank s \<le> top"
begin

inductive run :: "'s \<Rightarrow> 's list \<Rightarrow> bool" where
  run_Nil: "run s []"
| run_Cons: "edge s t \<Longrightarrow> run t ts \<Longrightarrow> run s (t # ts)"

inductive_cases run_ConsE: "run s (t # ts)"

lemma run_rank: "run s ts \<Longrightarrow> t \<in> set ts \<Longrightarrow> rank s < rank t"
proof (induction rule: run.induct)
  case (run_Cons s u ts)
  then show ?case
    using edge_rank [of s u] by (cases "t = u") (auto dest: less_trans)
qed simp

lemma run_distinct: "run s ts \<Longrightarrow> distinct (s # ts)"
proof (induction rule: run.induct)
  case (run_Cons s u ts)
  then have "run s (u # ts)"
    by (auto intro: run.intros)
  then show ?case
    using run_Cons.IH run_rank by fastforce
qed simp

lemma run_length: "run s ts \<Longrightarrow> rank s + length ts \<le> top"
proof (induction rule: run.induct)
  case (run_Cons s u ts)
  then show ?case
    using edge_rank [of s u] by simp
qed (simp add: rank_top)

end

text \<open>The rank of a Vision direction: how many edges it has behind it at most.\<close>

fun lifecycle_rank :: "direction_state \<Rightarrow> nat" where
  "lifecycle_rank Framed = 0"
| "lifecycle_rank DirectPending = 1"
| "lifecycle_rank RawReady = 2"
| "lifecycle_rank Outer = 1"
| "lifecycle_rank PairPending = 3"
| "lifecycle_rank Relaying = 3"
| "lifecycle_rank Closed = 4"
| "lifecycle_rank Failed = 4"

interpretation vision: lifecycle permits lifecycle_rank 4
proof unfold_locales
  show "lifecycle_rank s < lifecycle_rank t" if "permits s t" for s t
    using that by (cases s; cases t) auto
  show "lifecycle_rank s \<le> 4" for s
    by (cases s) auto
qed

section \<open>Properties\<close>

lemma rendezvous_loop_unfold:
  "rendezvous_loop obs n r =
    (if committed r \<or> obs n \<or> yields_remaining r = 0 then (n, r\<lparr>committed := True\<rparr>)
     else rendezvous_loop obs (Suc n) (r\<lparr>yields_remaining := yields_remaining r - 1\<rparr>))"
  by (subst rendezvous_loop.simps) (simp add: step_def)

lemma permits_terminal: "s = Closed \<or> s = Failed \<Longrightarrow> \<not> permits s t"
  by (cases t) auto

text \<open>
   A direction's lifecycle only moves forward: along any sequence of permitted
  transitions no state is visited twice, the sequence has at most four transitions, and
  nothing follows \<open>Closed\<close> or \<open>Failed\<close>.
\<close>

theorem lifecycle_forward:
  assumes "vision.run s ts"
  shows "distinct (s # ts) \<and> length ts \<le> 4 \<and> (s = Closed \<or> s = Failed \<longrightarrow> ts = [])"
proof (intro conjI impI)
  show "distinct (s # ts)"
    using assms by (rule vision.run_distinct)
  show "length ts \<le> 4"
    using vision.run_length [OF assms] by simp
  show "ts = []" if "s = Closed \<or> s = Failed"
    using assms that permits_terminal by (cases rule: vision.run.cases) auto
qed

theorem lifecycle_forward_witness:
  "vision.run Framed [DirectPending, RawReady, PairPending, Closed]
   \<and> length [DirectPending, RawReady, PairPending, Closed] \<le> 4"
proof
  show "vision.run Framed [DirectPending, RawReady, PairPending, Closed]"
    by (intro vision.run.intros) simp_all
  then show "length [DirectPending, RawReady, PairPending, Closed] \<le> 4"
    using lifecycle_forward by blast
qed

text \<open>
   The rendezvous before a decision always ends, after at most two yields: it commits at
  the first observation of a pairable peer and otherwise when the budget is spent, and the
  spent yields it reports are the ones it asked for.
\<close>

theorem rendezvous_bounded:
  "\<exists>r. rendezvous_loop obs 0 rendezvous_new = (if obs 0 then 0 else if obs 1 then 1 else 2, r)
     \<and> committed r
     \<and> unat (yields_spent r) = (if obs 0 then 0 else if obs 1 then 1 else 2)"
proof -
  let ?r = "\<lambda>k c. \<lparr>yields_remaining = k, committed = c\<rparr>"
  have 2: "rendezvous_loop obs 2 (?r 0 False) = (2, ?r 0 True)"
    by (simp add: rendezvous_loop_unfold)
  have 1: "rendezvous_loop obs 1 (?r 1 False) = (if obs 1 then (1, ?r 1 True) else (2, ?r 0 True))"
    using 2 by (subst rendezvous_loop_unfold) (simp add: numeral_2_eq_2)
  have "rendezvous_loop obs 0 (?r 2 False) =
      (if obs 0 then (0, ?r 2 True) else if obs 1 then (1, ?r 1 True) else (2, ?r 0 True))"
    using 1 by (subst rendezvous_loop_unfold) simp
  then show ?thesis
    by (simp add: rendezvous_new_def YIELD_BUDGET_def yields_spent_def)
qed

end
