(* ===== verification/Direct_Handoff.thy ===== *)
theory Direct_Handoff
  imports Session_Vision
begin

text \<open>
  The two-direction Direct handoff of \<open>src/server/direct.rs\<close> and the tasks that drive it:
  \<open>finish_uplink_direct\<close> and \<open>finish_downlink_direct\<close> (\<open>src/server/vision/relay_uplink.rs\<close>,
  \<open>relay_downlink.rs\<close>), \<open>decide_raw_relay\<close>, \<open>run_handoff\<close>, \<open>run_directional\<close> and \<open>settle\<close>
  (\<open>src/server/vision/relay.rs\<close>).

  The coordinator is a record of the two atomic state bytes and the four socket-half slots.
  A session is the coordinator and one program point per direction task; \<open>session_step\<close>
  interleaves the two tasks at the granularity of the code's atomic actions (one atomic
  load, one compare-exchange, one critical section), and lets a task be dropped at any
  point.  Socket halves and \<open>reunite\<close> belong to the async runtime library and are
  parameters.
\<close>

section \<open>The coordinator\<close>

record ('r, 'w) handoff_slots =
  client_reader :: "'r option"
  client_writer :: "'w option"
  destination_reader :: "'r option"
  destination_writer :: "'w option"

definition slots_default :: "('r, 'w) handoff_slots" where
  "slots_default = \<lparr>client_reader = None, client_writer = None,
                    destination_reader = None, destination_writer = None\<rparr>"

definition complete :: "('r, 'w) handoff_slots \<Rightarrow> bool" where
  "complete sl \<longleftrightarrow> client_reader sl \<noteq> None \<and> client_writer sl \<noteq> None
     \<and> destination_reader sl \<noteq> None \<and> destination_writer sl \<noteq> None"

record ('r, 'w) direct_handoff =
  uplink :: byte
  downlink :: byte
  slots :: "('r, 'w) handoff_slots"

definition handoff_new :: "('r, 'w) direct_handoff" where
  "handoff_new = \<lparr>uplink = direction_state_repr Framed, downlink = direction_state_repr Framed,
                  slots = slots_default\<rparr>"

fun cell :: "('r, 'w) direct_handoff \<Rightarrow> direction \<Rightarrow> byte" where
  "cell h Uplink = uplink h"
| "cell h Downlink = downlink h"

fun set_cell :: "('r, 'w) direct_handoff \<Rightarrow> direction \<Rightarrow> byte \<Rightarrow> ('r, 'w) direct_handoff" where
  "set_cell h Uplink v = h\<lparr>uplink := v\<rparr>"
| "set_cell h Downlink v = h\<lparr>downlink := v\<rparr>"

definition state :: "('r, 'w) direct_handoff \<Rightarrow> direction \<Rightarrow> direction_state" where
  "state h d = from_repr (cell h d)"

text \<open>
  \<open>advance\<close> retries its compare-exchange until the cell still holds the value the check was
  made on, so its effect is one atomic check-and-set.
\<close>

definition advance ::
  "('r, 'w) direct_handoff \<Rightarrow> direction \<Rightarrow> direction_state
   \<Rightarrow> invalid_transition + ('r, 'w) direct_handoff"
where
  "advance h d nxt =
    (let from = from_repr (cell h d)
     in if \<not> permits from nxt
        then Err \<lparr>it_direction = d, it_from = from, it_to = nxt\<rparr>
        else Ok (set_cell h d (direction_state_repr nxt)))"

fun peer :: "direction \<Rightarrow> direction" where
  "peer Uplink = Downlink"
| "peer Downlink = Uplink"

definition peer_can_pair :: "('r, 'w) direct_handoff \<Rightarrow> direction \<Rightarrow> bool" where
  "peer_can_pair h d = (case state h (peer d) of RawReady \<Rightarrow> True | PairPending \<Rightarrow> True | _ \<Rightarrow> False)"

definition decide ::
  "('r, 'w) direct_handoff \<Rightarrow> direction
   \<Rightarrow> invalid_transition + (raw_relay_grant \<times> ('r, 'w) direct_handoff)"
where
  "decide h d =
    and_then (plan d (state h d) (state h (peer d))) (\<lambda>transition.
    and_then (advance h d (next_state transition)) (\<lambda>h'.
      Ok (into_grant transition, h')))"

record 's recovered_sockets =
  rs_client :: 's
  rs_destination :: 's

datatype reunite_error = ClientHalvesMismatch | DestinationHalvesMismatch

text \<open>
  \<open>reunite\<close> empties the four slots before it joins the halves; \<open>join\<close> is the library's
  \<open>OwnedReadHalf::reunite\<close>.
\<close>

definition reunite ::
  "('r \<Rightarrow> 'w \<Rightarrow> 's option) \<Rightarrow> ('r, 'w) handoff_slots
   \<Rightarrow> (reunite_error + 's recovered_sockets option) \<times> ('r, 'w) handoff_slots"
where
  "reunite join sl =
    (case (client_reader sl, client_writer sl, destination_reader sl, destination_writer sl) of
       (Some cr, Some cw, Some dr, Some dw) \<Rightarrow>
         (case join cr cw of
            None \<Rightarrow> (Err ClientHalvesMismatch, slots_default)
          | Some c \<Rightarrow>
             (case join dr dw of
                None \<Rightarrow> (Err DestinationHalvesMismatch, slots_default)
              | Some d \<Rightarrow> (Ok (Some \<lparr>rs_client = c, rs_destination = d\<rparr>), slots_default)))
     | _ \<Rightarrow> (Ok None, sl))"

definition deposit_uplink ::
  "('r \<Rightarrow> 'w \<Rightarrow> 's option) \<Rightarrow> ('r, 'w) direct_handoff \<Rightarrow> 'r \<Rightarrow> 'w
   \<Rightarrow> (reunite_error + 's recovered_sockets option) \<times> ('r, 'w) direct_handoff"
where
  "deposit_uplink join h r w =
    (let (res, sl) = reunite join ((slots h)\<lparr>client_reader := Some r, destination_writer := Some w\<rparr>)
     in (res, h\<lparr>slots := sl\<rparr>))"

definition deposit_downlink ::
  "('r \<Rightarrow> 'w \<Rightarrow> 's option) \<Rightarrow> ('r, 'w) direct_handoff \<Rightarrow> 'r \<Rightarrow> 'w
   \<Rightarrow> (reunite_error + 's recovered_sockets option) \<times> ('r, 'w) direct_handoff"
where
  "deposit_downlink join h r w =
    (let (res, sl) = reunite join ((slots h)\<lparr>destination_reader := Some r, client_writer := Some w\<rparr>)
     in (res, h\<lparr>slots := sl\<rparr>))"

text \<open>\<open>settle\<close> records a terminal state and ignores a rejected transition.\<close>

definition settle ::
  "('r, 'w) direct_handoff \<Rightarrow> direction \<Rightarrow> direction_state \<Rightarrow> ('r, 'w) direct_handoff"
where
  "settle h d s = (case advance h d s of Inl _ \<Rightarrow> h | Inr h' \<Rightarrow> h')"

section \<open>The two direction tasks\<close>

text \<open>
  Program points of one direction task.  \<open>Parked\<close> is a first depositor, whose \<open>run_handoff\<close>
  returned at once; \<open>Dropped\<close> remembers the decision of a task that was cancelled, failed,
  or finished inside the framed protocol.
\<close>

datatype 's task =
    Framing
  | OuterRelaying
  | Draining
  | Observing pair_rendezvous
  | Deciding
  | Granted raw_decision
  | Parked
  | PairRunning "'s recovered_sockets"
  | PairEnded
  | DepositFailed
  | DirRunning
  | DirEnded
  | Dropped "raw_decision option"

record ('r, 'w, 's) session =
  coord :: "('r, 'w) direct_handoff"
  up_task :: "'s task"
  down_task :: "'s task"

fun task_at :: "('r, 'w, 's) session \<Rightarrow> direction \<Rightarrow> 's task" where
  "task_at s Uplink = up_task s"
| "task_at s Downlink = down_task s"

fun set_task :: "direction \<Rightarrow> 's task \<Rightarrow> ('r, 'w) direct_handoff \<Rightarrow> ('r, 'w, 's) session
    \<Rightarrow> ('r, 'w, 's) session" where
  "set_task Uplink t h s = s\<lparr>coord := h, up_task := t\<rparr>"
| "set_task Downlink t h s = s\<lparr>coord := h, down_task := t\<rparr>"

text \<open>
  The uplink deposits the client's read half and the destination's write half, the downlink
  the other two.  \<open>c\<close> and \<open>d\<close> are the two sockets, split into halves.
\<close>

fun deposit ::
  "('r \<Rightarrow> 'w \<Rightarrow> 's option) \<Rightarrow> 'r \<times> 'w \<Rightarrow> 'r \<times> 'w \<Rightarrow> direction \<Rightarrow> ('r, 'w) direct_handoff
   \<Rightarrow> (reunite_error + 's recovered_sockets option) \<times> ('r, 'w) direct_handoff"
where
  "deposit join c d Uplink h = deposit_uplink join h (fst c) (snd d)"
| "deposit join c d Downlink h = deposit_downlink join h (fst d) (snd c)"

fun decision_of :: "'s task \<Rightarrow> raw_decision option" where
  "decision_of (Granted x) = Some x"
| "decision_of Parked = Some Pair"
| "decision_of (PairRunning _) = Some Pair"
| "decision_of PairEnded = Some Pair"
| "decision_of DepositFailed = Some Pair"
| "decision_of DirRunning = Some Directional"
| "decision_of DirEnded = Some Directional"
| "decision_of (Dropped x) = x"
| "decision_of _ = None"

definition session_init :: "('r, 'w, 's) session" where
  "session_init = \<lparr>coord = handoff_new, up_task = Framing, down_task = Framing\<rparr>"

inductive session_step ::
  "('r \<Rightarrow> 'w \<Rightarrow> 's option) \<Rightarrow> 'r \<times> 'w \<Rightarrow> 'r \<times> 'w
   \<Rightarrow> ('r, 'w, 's) session \<Rightarrow> ('r, 'w, 's) session \<Rightarrow> bool"
  for join c d
where
  framed_end: "\<lbrakk>task_at s x = Framing; final = Closed \<or> final = Failed\<rbrakk>
    \<Longrightarrow> session_step join c d s (set_task x (Dropped None) (settle (coord s) x final) s)"
| framed_outer: "\<lbrakk>task_at s Downlink = Framing\<rbrakk>
    \<Longrightarrow> session_step join c d s
          (set_task Downlink OuterRelaying (settle (coord s) Downlink Outer) s)"
| outer_end: "\<lbrakk>task_at s x = OuterRelaying\<rbrakk>
    \<Longrightarrow> session_step join c d s (set_task x (Dropped None) (settle (coord s) x Closed) s)"
| boundary: "\<lbrakk>task_at s x = Framing; advance (coord s) x DirectPending = Ok h\<rbrakk>
    \<Longrightarrow> session_step join c d s (set_task x Draining h s)"
| drained: "\<lbrakk>task_at s x = Draining; advance (coord s) x RawReady = Ok h\<rbrakk>
    \<Longrightarrow> session_step join c d s (set_task x (Observing rendezvous_new) h s)"
| observe: "\<lbrakk>task_at s x = Observing r; step r (peer_can_pair (coord s) x) = (r', Yield)\<rbrakk>
    \<Longrightarrow> session_step join c d s (set_task x (Observing r') (coord s) s)"
| commit: "\<lbrakk>task_at s x = Observing r; step r (peer_can_pair (coord s) x) = (r', Commit)\<rbrakk>
    \<Longrightarrow> session_step join c d s (set_task x Deciding (coord s) s)"
| decided: "\<lbrakk>task_at s x = Deciding; decide (coord s) x = Ok (g, h)\<rbrakk>
    \<Longrightarrow> session_step join c d s (set_task x (Granted (into_decision g)) h s)"
| refused: "\<lbrakk>task_at s x = Deciding; decide (coord s) x = Err e\<rbrakk>
    \<Longrightarrow> session_step join c d s (set_task x (Dropped None) (coord s) s)"
| park: "\<lbrakk>task_at s x = Granted Pair; deposit join c d x (coord s) = (Ok None, h)\<rbrakk>
    \<Longrightarrow> session_step join c d s (set_task x Parked h s)"
| run_pair: "\<lbrakk>task_at s x = Granted Pair; deposit join c d x (coord s) = (Ok (Some rs), h)\<rbrakk>
    \<Longrightarrow> session_step join c d s (set_task x (PairRunning rs) h s)"
| reunite_failed: "\<lbrakk>task_at s x = Granted Pair; deposit join c d x (coord s) = (Err e, h)\<rbrakk>
    \<Longrightarrow> session_step join c d s (set_task x DepositFailed h s)"
| pair_end: "\<lbrakk>task_at s x = PairRunning rs; final = Closed \<or> final = Failed\<rbrakk>
    \<Longrightarrow> session_step join c d s (set_task x PairEnded (settle (coord s) x final) s)"
| run_dir: "\<lbrakk>task_at s x = Granted Directional\<rbrakk>
    \<Longrightarrow> session_step join c d s (set_task x DirRunning (coord s) s)"
| dir_end: "\<lbrakk>task_at s x = DirRunning; final = Closed \<or> final = Failed\<rbrakk>
    \<Longrightarrow> session_step join c d s (set_task x DirEnded (settle (coord s) x final) s)"
| drop_early: "\<lbrakk>task_at s x \<in> {Framing, OuterRelaying, Draining, Deciding} \<or> (\<exists>r. task_at s x = Observing r)\<rbrakk>
    \<Longrightarrow> session_step join c d s (set_task x (Dropped None) (coord s) s)"
| drop_granted: "\<lbrakk>task_at s x = Granted y\<rbrakk>
    \<Longrightarrow> session_step join c d s (set_task x (Dropped (Some y)) (coord s) s)"
| drop_pair: "\<lbrakk>task_at s x = PairRunning rs\<rbrakk>
    \<Longrightarrow> session_step join c d s (set_task x PairEnded (coord s) s)"
| drop_dir: "\<lbrakk>task_at s x = DirRunning\<rbrakk>
    \<Longrightarrow> session_step join c d s (set_task x DirEnded (coord s) s)"

inductive session_reach ::
  "('r \<Rightarrow> 'w \<Rightarrow> 's option) \<Rightarrow> 'r \<times> 'w \<Rightarrow> 'r \<times> 'w \<Rightarrow> ('r, 'w, 's) session \<Rightarrow> bool"
  for join c d
where
  reach_init: "session_reach join c d session_init"
| reach_step: "session_reach join c d s \<Longrightarrow> session_step join c d s s' \<Longrightarrow> session_reach join c d s'"

text \<open>
  The next action of a direction task that is neither dropped nor ends inside the framed
  protocol: the straight-line code of \<open>finish_uplink_direct\<close> / \<open>finish_downlink_direct\<close>,
  one atomic action at a time.  \<open>schedule\<close> runs it for a given interleaving.
\<close>

definition next_task ::
  "('r \<Rightarrow> 'w \<Rightarrow> 's option) \<Rightarrow> 'r \<times> 'w \<Rightarrow> 'r \<times> 'w \<Rightarrow> ('r, 'w, 's) session \<Rightarrow> direction
   \<Rightarrow> ('r, 'w, 's) session"
where
  "next_task join c d s x =
    (case task_at s x of
       Framing \<Rightarrow> (case advance (coord s) x DirectPending of
                      Inl _ \<Rightarrow> s | Inr h \<Rightarrow> set_task x Draining h s)
     | Draining \<Rightarrow> (case advance (coord s) x RawReady of
                      Inl _ \<Rightarrow> s | Inr h \<Rightarrow> set_task x (Observing rendezvous_new) h s)
     | Observing r \<Rightarrow> (case step r (peer_can_pair (coord s) x) of
                      (r', Yield) \<Rightarrow> set_task x (Observing r') (coord s) s
                    | (r', Commit) \<Rightarrow> set_task x Deciding (coord s) s)
     | Deciding \<Rightarrow> (case decide (coord s) x of
                      Inl _ \<Rightarrow> set_task x (Dropped None) (coord s) s
                    | Inr (g, h) \<Rightarrow> set_task x (Granted (into_decision g)) h s)
     | Granted Pair \<Rightarrow> (case deposit join c d x (coord s) of
                      (Inl _, h) \<Rightarrow> set_task x DepositFailed h s
                    | (Inr None, h) \<Rightarrow> set_task x Parked h s
                    | (Inr (Some rs), h) \<Rightarrow> set_task x (PairRunning rs) h s)
     | Granted Directional \<Rightarrow> set_task x DirRunning (coord s) s
     | OuterRelaying \<Rightarrow> set_task x (Dropped None) (settle (coord s) x Closed) s
     | PairRunning _ \<Rightarrow> set_task x PairEnded (settle (coord s) x Closed) s
     | DirRunning \<Rightarrow> set_task x DirEnded (settle (coord s) x Closed) s
     | _ \<Rightarrow> s)"

primrec schedule ::
  "('r \<Rightarrow> 'w \<Rightarrow> 's option) \<Rightarrow> 'r \<times> 'w \<Rightarrow> 'r \<times> 'w \<Rightarrow> direction list \<Rightarrow> ('r, 'w, 's) session
   \<Rightarrow> ('r, 'w, 's) session"
where
  "schedule join c d [] s = s"
| "schedule join c d (x # xs) s = schedule join c d xs (next_task join c d s x)"

section \<open>The session invariant\<close>

text \<open>Which lifecycle states a program point can be paired with.\<close>

fun task_state :: "'s task \<Rightarrow> direction_state \<Rightarrow> bool" where
  "task_state Framing st = (st = Framed)"
| "task_state OuterRelaying st = (st = Outer)"
| "task_state Draining st = (st = DirectPending)"
| "task_state (Observing _) st = (st = RawReady)"
| "task_state Deciding st = (st = RawReady)"
| "task_state (Granted Pair) st = (st = PairPending)"
| "task_state (Granted Directional) st = (st = Relaying)"
| "task_state Parked st = (st = PairPending)"
| "task_state (PairRunning _) st = (st = PairPending)"
| "task_state DepositFailed st = (st = PairPending)"
| "task_state PairEnded st = (st = PairPending \<or> st = Closed \<or> st = Failed)"
| "task_state DirRunning st = (st = Relaying)"
| "task_state DirEnded st = (st = Relaying \<or> st = Closed \<or> st = Failed)"
| "task_state (Dropped None) st = (st \<noteq> PairPending \<and> st \<noteq> Relaying)"
| "task_state (Dropped (Some Pair)) st = (st = PairPending)"
| "task_state (Dropped (Some Directional)) st = (st = Relaying)"

text \<open>A task that took the four slots.\<close>

fun took :: "'s task \<Rightarrow> bool" where
  "took (PairRunning _) = True"
| "took PairEnded = True"
| "took DepositFailed = True"
| "took _ = False"

fun can_pair :: "direction_state \<Rightarrow> bool" where
  "can_pair RawReady = True"
| "can_pair PairPending = True"
| "can_pair _ = False"

text \<open>What one direction's program point says about the other one.\<close>

definition agree :: "'s task \<Rightarrow> direction_state \<Rightarrow> 's task \<Rightarrow> direction_state \<Rightarrow> bool" where
  "agree t st t' st' \<longleftrightarrow>
     (decision_of t = Some Pair \<longrightarrow> decision_of t' \<noteq> Some Directional)
   \<and> (decision_of t = Some Pair \<and> decision_of t' = None \<longrightarrow> st = PairPending \<and> st' = RawReady)
   \<and> (took t \<longrightarrow> t' = Parked)
   \<and> (t = Parked \<longrightarrow> t' \<noteq> Parked)"

text \<open>The halves of a parked direction stay in the slots until the peer takes them.\<close>

definition slot_of :: "'s task \<Rightarrow> 's task \<Rightarrow> 'a \<Rightarrow> 'a option" where
  "slot_of t t' v = (if t = Parked \<and> \<not> took t' then Some v else None)"

definition session_inv :: "'r \<times> 'w \<Rightarrow> 'r \<times> 'w \<Rightarrow> ('r, 'w, 's) session \<Rightarrow> bool" where
  "session_inv c d s \<longleftrightarrow>
     task_state (up_task s) (state (coord s) Uplink)
   \<and> task_state (down_task s) (state (coord s) Downlink)
   \<and> agree (up_task s) (state (coord s) Uplink) (down_task s) (state (coord s) Downlink)
   \<and> agree (down_task s) (state (coord s) Downlink) (up_task s) (state (coord s) Uplink)
   \<and> slots (coord s) =
       \<lparr>client_reader = slot_of (up_task s) (down_task s) (fst c),
        client_writer = slot_of (down_task s) (up_task s) (snd c),
        destination_reader = slot_of (down_task s) (up_task s) (fst d),
        destination_writer = slot_of (up_task s) (down_task s) (snd d)\<rparr>"

section \<open>Coordinator operations\<close>

lemma from_repr_repr [simp]: "from_repr (direction_state_repr s) = s"
  by (cases s) (simp_all add: from_repr_def)

lemma cell_set_cell [simp]:
  "cell (set_cell h x v) y = (if x = y then v else cell h y)"
  by (cases x; cases y) auto

lemma slots_set_cell [simp]: "slots (set_cell h x v) = slots h"
  by (cases x) auto

lemma state_set_cell [simp]:
  "state (set_cell h x (direction_state_repr st)) y = (if x = y then st else state h y)"
  by (simp add: state_def)

lemma state_slots_update [simp]: "state (h\<lparr>slots := sl\<rparr>) x = state h x"
  by (cases x) (simp_all add: state_def)

declare direction_state_repr.simps [simp del] set_cell.simps [simp del]

lemma advance_Ok_iff [result_simps]:
  "advance h x nxt = Inr h' \<longleftrightarrow>
     permits (state h x) nxt \<and> h' = set_cell h x (direction_state_repr nxt)"
  by (auto simp: advance_def state_def Let_def)

lemma advance_Err_iff [result_simps]:
  "advance h x nxt = Inl e \<longleftrightarrow>
     \<not> permits (state h x) nxt \<and> e = \<lparr>it_direction = x, it_from = state h x, it_to = nxt\<rparr>"
  by (auto simp: advance_def state_def Let_def)

lemma settle_eq:
  "settle h x st = (if permits (state h x) st then set_cell h x (direction_state_repr st) else h)"
  by (auto simp: settle_def advance_def state_def Let_def)

lemma plan_Ok_iff [result_simps]:
  "plan x st st' = Inr t \<longleftrightarrow> st = RawReady \<and>
     t = (if can_pair st'
          then \<lparr>t_grant = \<lparr>g_direction = x, g_decision = Pair\<rparr>, t_next_state = PairPending\<rparr>
          else \<lparr>t_grant = \<lparr>g_direction = x, g_decision = Directional\<rparr>, t_next_state = Relaying\<rparr>)"
  by (cases st; cases st') (auto simp: plan_def)

lemma decide_Ok_iff [result_simps]:
  "decide h x = Inr (g, h') \<longleftrightarrow> state h x = RawReady
     \<and> g = \<lparr>g_direction = x, g_decision = if can_pair (state h (peer x)) then Pair else Directional\<rparr>
     \<and> h' = set_cell h x (direction_state_repr
               (if can_pair (state h (peer x)) then PairPending else Relaying))"
  by (auto simp: decide_def result_simps next_state_def into_grant_def)

lemma peer_peer [simp]: "peer (peer x) = x"
  by (cases x) auto

lemmas session_inv_simps =
  session_inv_def agree_def slot_of_def settle_eq result_simps peer_can_pair_def into_decision_def

lemma session_inv_init: "session_inv c d session_init"
  by (simp add: session_inv_simps session_init_def handoff_new_def state_def slots_default_def)

lemma can_pair_iff: "can_pair st \<longleftrightarrow> st = RawReady \<or> st = PairPending"
  by (cases st) auto

lemma task_state_decision:
  assumes "task_state t st"
  shows "decision_of t = Some Directional \<Longrightarrow> \<not> can_pair st"
    and "decision_of t = None \<Longrightarrow> can_pair st \<Longrightarrow> st = RawReady"
    and "decision_of t = Some Pair \<Longrightarrow> st = PairPending \<or> took t"
  using assms by (induction t st rule: task_state.induct) (auto simp: can_pair_iff)

lemma reunite_slots_cases:
  "reunite join \<lparr>client_reader = a, client_writer = b, destination_reader = e, destination_writer = f\<rparr>
    = (case (a, b, e, f) of
        (Some cr, Some cw, Some dr, Some dw) \<Rightarrow>
          ((case (join cr cw, join dr dw) of
              (Some x, Some y) \<Rightarrow> Ok (Some \<lparr>rs_client = x, rs_destination = y\<rparr>)
            | (None, _) \<Rightarrow> Err ClientHalvesMismatch
            | _ \<Rightarrow> Err DestinationHalvesMismatch), slots_default)
      | _ \<Rightarrow> (Ok None, \<lparr>client_reader = a, client_writer = b, destination_reader = e,
                          destination_writer = f\<rparr>))"
  by (auto simp: reunite_def split: option.splits)

definition own_slots :: "'r \<times> 'w \<Rightarrow> 'r \<times> 'w \<Rightarrow> direction \<Rightarrow> ('r, 'w) handoff_slots" where
  "own_slots c d x =
    (case x of
       Uplink \<Rightarrow> slots_default\<lparr>client_reader := Some (fst c), destination_writer := Some (snd d)\<rparr>
     | Downlink \<Rightarrow> slots_default\<lparr>destination_reader := Some (fst d), client_writer := Some (snd c)\<rparr>)"

lemma deposit_state:
  "deposit join c d x h = (res, h') \<Longrightarrow> state h' y = state h y"
  by (cases x) (auto simp: deposit_uplink_def deposit_downlink_def Let_def split: prod.splits)

lemma session_inv_slots_granted:
  assumes "session_inv c d s" and "task_at s x = Granted Pair"
  shows "slots (coord s) = (if task_at s (peer x) = Parked then own_slots c d (peer x) else slots_default)"
  using assms
  by (cases x) (simp_all add: session_inv_def slot_of_def own_slots_def slots_default_def)

lemma session_inv_deposit:
  assumes inv: "session_inv c d s" and t: "task_at s x = Granted Pair"
    and dep: "deposit join c d x (coord s) = (res, h)"
  shows "slots h = (if task_at s (peer x) = Parked then slots_default else own_slots c d x)"
    and "res = Ok None \<longleftrightarrow> task_at s (peer x) \<noteq> Parked"
  using dep session_inv_slots_granted [OF inv t]
  by (cases x; force simp: deposit_uplink_def deposit_downlink_def own_slots_def
        reunite_slots_cases slots_default_def split: if_splits option.splits)+

text \<open>A step of \<open>x\<close> that neither decides nor touches the slots.\<close>

lemma session_inv_move:
  assumes inv: "session_inv c d s"
    and dec: "decision_of t = decision_of (task_at s x)"
    and took: "took t = took (task_at s x)"
    and parked: "t \<noteq> Parked" "task_at s x \<noteq> Parked"
    and sl: "slots h = slots (coord s)"
    and other: "state h (peer x) = state (coord s) (peer x)"
    and own: "task_state (task_at s x) (state (coord s) x) \<Longrightarrow> task_state t (state h x)"
    and open1: "task_state (task_at s x) (state (coord s) x) \<Longrightarrow> decision_of t = None \<Longrightarrow> state (coord s) x = RawReady \<Longrightarrow> state h x = RawReady"
    and open2: "task_state (task_at s x) (state (coord s) x) \<Longrightarrow> decision_of t = Some Pair \<Longrightarrow> state (coord s) x = PairPending
                \<Longrightarrow> \<not> took t \<Longrightarrow> state h x = PairPending"
  shows "session_inv c d (set_task x t h s)"
  using assms by (cases x) (auto simp: session_inv_def agree_def slot_of_def)

lemma session_inv_task_state:
  "session_inv c d s \<Longrightarrow> task_state (task_at s x) (state (coord s) x)"
  by (cases x) (auto simp: session_inv_def)

lemma peer_neq [simp]: "x \<noteq> peer x" "peer x \<noteq> x"
  by (cases x; simp)+

lemma session_inv_peer_state:
  assumes inv: "session_inv c d s" and none: "decision_of (task_at s x) = None"
    and dec: "decision_of (task_at s (peer x)) = Some Pair"
  shows "state (coord s) (peer x) = PairPending"
  using assms by (cases x) (auto simp: session_inv_def agree_def)

lemma session_inv_decide:
  assumes inv: "session_inv c d s" and t: "task_at s x = Deciding"
    and dec: "decide (coord s) x = Ok (g, h)"
  shows "session_inv c d (set_task x (Granted (into_decision g)) h s)"
proof -
  let ?t = "task_at s (peer x)" and ?st = "state (coord s) (peer x)"
  note peer = task_state_decision [OF session_inv_task_state [OF inv, of "peer x"]]
  have h: "state (coord s) x = RawReady"
      "into_decision g = (if can_pair ?st then Pair else Directional)"
      "h = set_cell (coord s) x (direction_state_repr (if can_pair ?st then PairPending else Relaying))"
    using dec by (simp_all add: result_simps into_decision_def)
  have "can_pair ?st \<Longrightarrow> decision_of ?t \<noteq> Some Directional"
      "can_pair ?st \<Longrightarrow> decision_of ?t = None \<Longrightarrow> ?st = RawReady"
    using peer by auto
  moreover have "\<not> can_pair ?st \<Longrightarrow> decision_of ?t \<noteq> Some Pair"
    using session_inv_peer_state [OF inv, of x] t by auto
  ultimately show ?thesis
    using inv t h(1) unfolding h(2,3)
    by (cases x) (auto simp: session_inv_def agree_def slot_of_def)
qed

lemma session_inv_after_deposit:
  assumes inv: "session_inv c d s" and t: "task_at s x = Granted Pair"
    and dep: "deposit join c d x (coord s) = (res, h)"
    and new: "if res = Ok None then t' = Parked else t' = DepositFailed \<or> (\<exists>rs. t' = PairRunning rs)"
  shows "session_inv c d (set_task x t' h s)"
  using inv t new session_inv_deposit [OF inv t dep] deposit_state [OF dep]
  by (cases x) (auto simp: session_inv_def agree_def slot_of_def slots_default_def own_slots_def
      split: if_splits)

lemma session_inv_step:
  assumes "session_step join c d s s'" and "session_inv c d s"
  shows "session_inv c d s'"
  using assms
proof (induction rule: session_step.induct)
  case (decided s x g h)
  then show ?case by (intro session_inv_decide)
next
  case (park s x h)
  then show ?case by (auto intro: session_inv_after_deposit)
next
  case (run_pair s x rs h)
  then show ?case by (auto intro: session_inv_after_deposit)
next
  case (reunite_failed s x e h)
  then show ?case by (auto intro: session_inv_after_deposit)
next
  case (drop_granted s x y)
  then show ?case by (cases y; intro session_inv_move) auto
qed (rule session_inv_move; auto simp: settle_eq result_simps)+

lemma session_reach_inv: "session_reach join c d s \<Longrightarrow> session_inv c d s"
  by (induction rule: session_reach.induct) (auto intro: session_inv_init session_inv_step)

lemma next_task_step:
  "next_task join c d s x = s \<or> session_step join c d s (next_task join c d s x)"
proof (cases "task_at s x")
  case (Granted y)
  then show ?thesis
    by (cases y) (auto simp: next_task_def simp del: set_task.simps
        intro: session_step.intros split: sum.split prod.split option.split)
qed (auto simp: next_task_def simp del: set_task.simps
      intro: session_step.intros split: sum.split prod.split rendezvous_step.split)

lemma schedule_reach:
  "session_reach join c d s \<Longrightarrow> session_reach join c d (schedule join c d xs s)"
proof (induction xs arbitrary: s)
  case (Cons x xs)
  then show ?case
    using next_task_step [of join c d s x] by (auto intro: reach_step)
qed simp

lemma schedule_init_reach: "session_reach join c d (schedule join c d xs session_init)"
  by (rule schedule_reach [OF reach_init])

section \<open>Recovered sockets\<close>

text \<open>The library promise: the two halves of one socket always reunite to that socket.\<close>

definition splits :: "('r \<Rightarrow> 'w \<Rightarrow> 's option) \<Rightarrow> 'r \<times> 'w \<Rightarrow> 's \<Rightarrow> bool" where
  "splits join halves sock \<longleftrightarrow> join (fst halves) (snd halves) = Some sock"

definition sockets_ok :: "'s \<Rightarrow> 's \<Rightarrow> 's task \<Rightarrow> bool" where
  "sockets_ok cs ds t \<longleftrightarrow> t \<noteq> DepositFailed
     \<and> (\<forall>rs. t = PairRunning rs \<longrightarrow> rs = \<lparr>rs_client = cs, rs_destination = ds\<rparr>)"

lemma deposit_result:
  assumes "splits join c cs" and "splits join d ds"
    and inv: "session_inv c d s" and t: "task_at s x = Granted Pair"
    and dep: "deposit join c d x (coord s) = (res, h)"
  shows "res = (if task_at s (peer x) = Parked
                then Ok (Some \<lparr>rs_client = cs, rs_destination = ds\<rparr>) else Ok None)"
  using assms session_inv_slots_granted [OF inv t]
  by (cases x) (auto simp: deposit_uplink_def deposit_downlink_def own_slots_def splits_def
        reunite_slots_cases slots_default_def split: if_splits option.splits)

lemma task_at_set_task [simp]:
  "task_at (set_task x t h s) y = (if x = y then t else task_at s y)"
  by (cases x; cases y) auto

lemma session_step_sockets:
  assumes "session_step join c d s s'" and "splits join c cs" and "splits join d ds"
    and "session_inv c d s" and "sockets_ok cs ds (task_at s y)"
  shows "sockets_ok cs ds (task_at s' y)"
  using assms
proof (induction rule: session_step.induct)
  case (run_pair s x rs h)
  then show ?case
    using deposit_result [OF run_pair.prems(1-3) run_pair.hyps]
    by (auto simp: sockets_ok_def split: if_splits)
next
  case (reunite_failed s x e h)
  then show ?case
    using deposit_result [OF reunite_failed.prems(1-3) reunite_failed.hyps]
    by (auto simp: sockets_ok_def split: if_splits)
qed (auto simp: sockets_ok_def simp del: set_task.simps split: if_splits)

lemma session_reach_sockets:
  assumes "session_reach join c d s" and "splits join c cs" and "splits join d ds"
  shows "sockets_ok cs ds (task_at s y)"
  using assms
proof (induction rule: session_reach.induct)
  case reach_init
  then show ?case by (cases y) (auto simp: sockets_ok_def session_init_def)
qed (auto intro: session_step_sockets session_reach_inv)

section \<open>Progress of one direction\<close>

text \<open>From the raw boundary to the relay, and how many own actions that takes at most.\<close>

fun raw_boundary :: "'s task \<Rightarrow> bool" where
  "raw_boundary Draining = True"
| "raw_boundary (Observing _) = True"
| "raw_boundary Deciding = True"
| "raw_boundary (Granted _) = True"
| "raw_boundary _ = False"

fun settled :: "'s task \<Rightarrow> bool" where
  "settled Parked = True"
| "settled (PairRunning _) = True"
| "settled DirRunning = True"
| "settled _ = False"

fun task_steps :: "'s task \<Rightarrow> nat" where
  "task_steps Draining = 4 + unat YIELD_BUDGET"
| "task_steps (Observing r) = 3 + unat (yields_remaining r)"
| "task_steps Deciding = 2"
| "task_steps (Granted _) = 1"
| "task_steps _ = 0"

lemma next_task_progress:
  assumes inv: "session_inv c d s" and sockets: "splits join c cs" "splits join d ds"
    and t: "raw_boundary (task_at s x)"
  shows "(settled (task_at (next_task join c d s x) x)
      \<or> raw_boundary (task_at (next_task join c d s x) x)
        \<and> task_steps (task_at (next_task join c d s x) x) < task_steps (task_at s x))
    \<and> task_at (next_task join c d s x) (peer x) = task_at s (peer x)"
proof -
  note st = session_inv_task_state [OF inv, of x]
  consider (drain) "task_at s x = Draining" | (observe) r where "task_at s x = Observing r"
    | (decide) "task_at s x = Deciding" | (pair) "task_at s x = Granted Pair" | (dir) "task_at s x = Granted Directional"
    using t by (cases "task_at s x" rule: raw_boundary.cases) (auto intro: raw_decision.exhaust)
  then show ?thesis
  proof cases
    case drain
    then obtain h where "advance (coord s) x RawReady = Ok h"
      using st by (auto simp: result_simps)
    then show ?thesis
      using drain by (simp add: next_task_def rendezvous_new_def del: set_task.simps)
  next
    case observe
    then show ?thesis
      by (auto simp: next_task_def dest: step_yield_decreases simp del: set_task.simps
          split: prod.split rendezvous_step.split)
  next
    case decide
    then obtain g h where "Direct_Handoff.decide (coord s) x = Ok (g, h)"
      using st by (auto simp: result_simps)
    then show ?thesis
      using decide by (simp add: next_task_def del: set_task.simps)
  next
    case pair
    obtain res h where "deposit join c d x (coord s) = (res, h)"
      by fastforce
    then show ?thesis
      using pair deposit_result [OF sockets inv pair] by (auto simp: next_task_def simp del: set_task.simps)
  next
    case dir
    then show ?thesis
      by (simp add: next_task_def del: set_task.simps)
  qed
qed

lemma schedule_settles:
  assumes "session_reach join c d s" and "splits join c cs" and "splits join d ds" and "raw_boundary (task_at s x)"
  shows "\<exists>n \<le> task_steps (task_at s x). settled (task_at (schedule join c d (replicate n x) s) x)
    \<and> task_at (schedule join c d (replicate n x) s) (peer x) = task_at s (peer x)"
  using assms(1,4)
proof (induction "task_steps (task_at s x)" arbitrary: s rule: less_induct)
  case less
  let ?s = "next_task join c d s x"
  note progress = next_task_progress [OF session_reach_inv [OF less.prems(1)] assms(2,3) less.prems(2)]
  have reach: "session_reach join c d ?s"
    using schedule_reach [OF less.prems(1), of "[x]"] by simp
  show ?case
  proof (cases "settled (task_at ?s x)")
    case True
    moreover have "1 \<le> task_steps (task_at s x)"
      using less.prems(2) by (cases "task_at s x" rule: raw_boundary.cases) auto
    ultimately show ?thesis
      using progress by (intro exI [of _ 1]) simp
  next
    case False
    then have "raw_boundary (task_at ?s x)" "task_steps (task_at ?s x) < task_steps (task_at s x)"
      using progress by auto
    with less.hyps [OF this(2) reach] obtain n where "n \<le> task_steps (task_at ?s x)"
      "settled (task_at (schedule join c d (replicate n x) ?s) x)"
      "task_at (schedule join c d (replicate n x) ?s) (peer x) = task_at ?s (peer x)"
      by blast
    then show ?thesis
      using progress \<open>task_steps (task_at ?s x) < task_steps (task_at s x)\<close> by (intro exI [of _ "Suc n"]) auto
  qed
qed

lemma session_step_budget:
  assumes "session_step join c d s s'" and "task_steps (task_at s y) \<le> 4 + unat YIELD_BUDGET"
  shows "task_steps (task_at s' y) \<le> 4 + unat YIELD_BUDGET"
  using assms
  by (induction rule: session_step.induct)
     (auto simp: rendezvous_new_def YIELD_BUDGET_def simp del: set_task.simps dest!: step_yield_decreases)

lemma session_reach_budget: "session_reach join c d s \<Longrightarrow> task_steps (task_at s x) \<le> 4 + unat YIELD_BUDGET"
proof (induction rule: session_reach.induct)
  case reach_init
  then show ?case by (cases x) (auto simp: session_init_def)
qed (rule session_step_budget)

section \<open>Properties\<close>

text \<open>
  C1.  The two directions of a session never disagree about the form of the raw relay: in
  every state an interleaving of the two tasks can reach, cancellations included, no
  direction has decided for the pair while the other one has decided for a directional
  relay.
\<close>

theorem handoff_never_splits:
  assumes "session_reach join c d s"
  shows "decision_of (task_at s x) = Some Pair \<longrightarrow> decision_of (task_at s (peer x)) \<noteq> Some Directional"
  using session_reach_inv [OF assms] by (cases x) (auto simp: session_inv_def agree_def)

definition same_socket :: "nat \<Rightarrow> nat \<Rightarrow> nat option" where
  "same_socket r w = (if r = w then Some r else None)"

text \<open>Both tasks run to the end of the pair: the uplink parks, the downlink drives.\<close>

definition paired_run :: "(nat, nat, nat) session" where
  "paired_run = schedule same_socket (1, 1) (2, 2)
     [Uplink, Downlink, Uplink, Downlink, Uplink, Downlink, Uplink, Downlink, Uplink, Downlink]
     session_init"

lemma paired_run_tasks:
  "up_task paired_run = Parked"
  "down_task paired_run = PairRunning \<lparr>rs_client = 1, rs_destination = 2\<rparr>"
  by code_simp+

lemma paired_run_reach: "session_reach same_socket (1, 1) (2, 2) paired_run"
  unfolding paired_run_def by (rule schedule_init_reach)

theorem handoff_never_splits_witness:
  "decision_of (task_at paired_run Uplink) = Some Pair
   \<and> decision_of (task_at paired_run (peer Uplink)) \<noteq> Some Directional"
proof
  show "decision_of (task_at paired_run Uplink) = Some Pair"
    by (simp add: paired_run_tasks)
  then show "decision_of (task_at paired_run (peer Uplink)) \<noteq> Some Directional"
    by (rule handoff_never_splits [OF paired_run_reach, THEN mp])
qed

text \<open>A direction that has put its halves into the slots, whether or not it took all four back.\<close>

definition deposited :: "'s task \<Rightarrow> bool" where
  "deposited t \<longleftrightarrow> t = Parked \<or> took t"

text \<open>
  C2.  At most one direction drives the bilateral relay, and exactly one does once both have
  deposited: then one of them took the slots, the other is parked, and the slots are empty.
  The one that took them holds precisely the client's and the destination's own sockets.
  Before that, a lone deposit stays in the slots, both halves of it, for the peer to take (so
  it is still there when the peer is dropped before depositing).  No deposit fails when the
  library reunites the halves of one socket.
\<close>

theorem handoff_single_runner:
  assumes "session_reach join c d s" and "splits join c cs" and "splits join d ds"
  shows "(took (task_at s x) \<longrightarrow> task_at s (peer x) = Parked)
    \<and> (deposited (task_at s x) \<and> deposited (task_at s (peer x)) \<longrightarrow>
        (took (task_at s x) \<longleftrightarrow> \<not> took (task_at s (peer x))) \<and> slots (coord s) = slots_default)
    \<and> (deposited (task_at s x) \<and> \<not> deposited (task_at s (peer x)) \<longrightarrow>
        task_at s x = Parked \<and> slots (coord s) = own_slots c d x)
    \<and> (task_at s x = PairRunning rs \<longrightarrow> rs = \<lparr>rs_client = cs, rs_destination = ds\<rparr>)
    \<and> task_at s x \<noteq> DepositFailed"
  using session_reach_inv [OF assms(1)] session_reach_sockets [OF assms, of x]
  by (cases x) (auto simp: session_inv_def agree_def sockets_ok_def deposited_def slot_of_def slots_default_def own_slots_def)

theorem handoff_single_runner_witness:
  "took (task_at paired_run Downlink) \<and> task_at paired_run (peer Downlink) = Parked
   \<and> \<not> took (task_at paired_run (peer Downlink)) \<and> slots (coord paired_run) = slots_default"
proof -
  have t: "took (task_at paired_run Downlink)" "deposited (task_at paired_run Downlink)"
    "deposited (task_at paired_run (peer Downlink))"
    by (simp_all add: paired_run_tasks deposited_def)
  have "splits same_socket (1, 1) 1" "splits same_socket (2, 2) 2"
    by (simp_all add: splits_def same_socket_def)
  then show ?thesis
    using handoff_single_runner [OF paired_run_reach, of 1 2 Downlink] t by blast
qed

text \<open>
  C3.  A direction at its raw boundary is never refused and never waits: in every reachable
  state a deciding direction's \<open>decide\<close> succeeds, and it grants the pair precisely when the
  peer is at its raw boundary or already committed to the pair.
\<close>

theorem decide_never_refused:
  assumes "session_reach join c d s" and "task_at s x = Deciding"
  shows "\<exists>h. decide (coord s) x =
    Ok (\<lparr>g_direction = x,
         g_decision = if peer_can_pair (coord s) x then Pair else Directional\<rparr>, h)"
proof -
  have "state (coord s) x = RawReady"
    using session_inv_task_state [OF session_reach_inv [OF assms(1)], of x] assms(2) by simp
  moreover have "peer_can_pair (coord s) x = can_pair (state (coord s) (peer x))"
    by (cases "state (coord s) (peer x)") (auto simp: peer_can_pair_def)
  ultimately show ?thesis
    by (simp add: result_simps)
qed

text \<open>The uplink alone, up to its decision: its peer is still framed.\<close>

definition lone_run :: "(nat, nat, nat) session" where
  "lone_run = schedule same_socket (1, 1) (2, 2) [Uplink, Uplink, Uplink, Uplink, Uplink] session_init"

lemma lone_run_tasks: "up_task lone_run = Deciding" "state (coord lone_run) Downlink = Framed"
  by code_simp+

theorem decide_never_refused_witness:
  "\<exists>h. decide (coord lone_run) Uplink = Ok (\<lparr>g_direction = Uplink, g_decision = Directional\<rparr>, h)"
proof -
  have "session_reach same_socket (1, 1) (2, 2) lone_run"
    unfolding lone_run_def by (rule schedule_init_reach)
  moreover have "task_at lone_run Uplink = Deciding"
    by (simp add: lone_run_tasks)
  ultimately show ?thesis
    using decide_never_refused [of same_socket "(1, 1)" "(2, 2)" lone_run Uplink]
    by (simp add: peer_can_pair_def lone_run_tasks)
qed

text \<open>
  C4.  No direction waits for its peer: from every reachable state in which a direction has come
  to its raw boundary, at most six of its own actions -- the boundary's drain, the two yields of
  the rendezvous, its commit, the decision and the deposit -- bring it to its relay or park it,
  while the peer takes no step at all.  In particular its transitions, its decision and its
  deposit are never refused.
\<close>

theorem handoff_wait_free:
  assumes "session_reach join c d s" and "splits join c cs" and "splits join d ds"
    and "raw_boundary (task_at s x)"
  shows "\<exists>n \<le> 6. settled (task_at (schedule join c d (replicate n x) s) x)
    \<and> task_at (schedule join c d (replicate n x) s) (peer x) = task_at s (peer x)"
proof -
  have "task_steps (task_at s x) \<le> 6"
    using session_reach_budget [OF assms(1), of x] by (simp add: YIELD_BUDGET_def)
  then show ?thesis
    using schedule_settles [OF assms] order_trans by blast
qed

theorem handoff_wait_free_witness:
  "\<exists>n \<le> 6. settled (task_at (schedule same_socket (1, 1) (2, 2) (replicate n Uplink) lone_run) Uplink)"
proof -
  have "session_reach same_socket (1, 1) (2, 2) lone_run"
    unfolding lone_run_def by (rule schedule_init_reach)
  moreover have "splits same_socket (1, 1) 1" "splits same_socket (2, 2) 2"
    by (simp_all add: splits_def same_socket_def)
  moreover have "raw_boundary (task_at lone_run Uplink)"
    by (simp add: lone_run_tasks)
  ultimately show ?thesis
    using handoff_wait_free [of same_socket "(1, 1)" "(2, 2)" lone_run 1 2 Uplink] by blast
qed

end
