(* ===== verification/Session_Transfer.thy ===== *)
theory Session_Transfer
  imports Prelude
begin

text \<open>
  The ownership rules of \<open>crates/rr-session\<close>: write progress of one authenticated message
  (\<open>transfer.rs\<close>) and the two-candidate client race (\<open>client_race.rs\<close>).  The race is
  driven by a sequence of adapter events; \<open>race_run\<close> collects the answers the engine gives.
\<close>

section \<open>Write progress\<close>

datatype write_progress = NoBytesWritten | PartialWrite nat | CompleteWrite

datatype retryable_progress = RetryNoBytesWritten | RetryPartialWrite nat

datatype committed_write = CommittedWrite

definition from_written :: "nat \<Rightarrow> nat \<Rightarrow> write_progress" where
  "from_written bytes_written message_len =
    (if bytes_written \<ge> message_len then CompleteWrite
     else if bytes_written = 0 then NoBytesWritten
     else PartialWrite bytes_written)"

fun permits_fresh_attempt :: "write_progress \<Rightarrow> bool" where
  "permits_fresh_attempt CompleteWrite = False"
| "permits_fresh_attempt _ = True"

fun split :: "write_progress \<Rightarrow> retryable_progress + committed_write" where
  "split NoBytesWritten = Err RetryNoBytesWritten"
| "split (PartialWrite n) = Err (RetryPartialWrite n)"
| "split CompleteWrite = Ok CommittedWrite"

fun progress :: "retryable_progress \<Rightarrow> write_progress" where
  "progress RetryNoBytesWritten = NoBytesWritten"
| "progress (RetryPartialWrite n) = PartialWrite n"

fun bytes_discarded :: "retryable_progress \<Rightarrow> nat" where
  "bytes_discarded RetryNoBytesWritten = 0"
| "bytes_discarded (RetryPartialWrite n) = n"

datatype attempt_transport = Warm | Cold

fun permits_alternate_attempt :: "attempt_transport \<Rightarrow> bool" where
  "permits_alternate_attempt Warm = True"
| "permits_alternate_attempt Cold = False"

fun alternate_attempt :: "attempt_transport \<Rightarrow> attempt_transport option" where
  "alternate_attempt Warm = Some Cold"
| "alternate_attempt Cold = None"

section \<open>The client race\<close>

datatype client_candidate = Primary | Alternate

fun slot :: "client_candidate \<Rightarrow> nat" where
  "slot Primary = 0"
| "slot Alternate = 1"

datatype candidate_state = Unstarted | Pending | CFailed | Retired

record client_cancellations =
  cc_primary :: bool
  cc_alternate :: bool

fun contains :: "client_cancellations \<Rightarrow> client_candidate \<Rightarrow> bool" where
  "contains c Primary = cc_primary c"
| "contains c Alternate = cc_alternate c"

record client_adoption =
  ca_candidate :: client_candidate
  ca_cancel :: client_cancellations

record client_race =
  states :: "candidate_state list"
  terminal :: bool

definition race_new :: client_race where
  "race_new = \<lparr>states = [Pending, Unstarted], terminal = False\<rparr>"

definition start_alternate :: "client_race \<Rightarrow> client_race \<times> bool" where
  "start_alternate r =
    (if terminal r \<or> states r ! 1 \<noteq> Unstarted then (r, False)
     else (r\<lparr>states := (states r)[1 := Pending]\<rparr>, True))"

definition fail :: "client_race \<Rightarrow> client_candidate \<Rightarrow> client_race \<times> bool" where
  "fail r c =
    (if terminal r \<or> states r ! slot c \<noteq> Pending then (r, False)
     else (let r' = r\<lparr>states := (states r)[slot c := CFailed]\<rparr>
           in (r'\<lparr>terminal := (states r' = [CFailed, CFailed])\<rparr>, True)))"

definition cancel :: "client_race \<Rightarrow> client_race \<times> client_cancellations" where
  "cancel r =
    (let cc = \<lparr>cc_primary = (states r ! 0 = Pending), cc_alternate = (states r ! 1 = Pending)\<rparr>
     in (r\<lparr>states := [Retired, Retired], terminal := True\<rparr>, cc))"

definition adopt :: "client_race \<Rightarrow> client_candidate \<Rightarrow> client_race \<times> client_adoption option" where
  "adopt r c =
    (if terminal r \<or> states r ! slot c \<noteq> Pending then (r, None)
     else (let (r', cc) = cancel (r\<lparr>states := (states r)[slot c := Retired]\<rparr>)
           in (r', Some \<lparr>ca_candidate = c, ca_cancel = cc\<rparr>)))"

definition is_terminal :: "client_race \<Rightarrow> bool" where
  "is_terminal r = terminal r"

text \<open>What the owning task may do to the engine, and what the engine answers.\<close>

datatype race_event = StartAlternate | FailEvent client_candidate | AdoptEvent client_candidate | CancelEvent

datatype race_answer =
    Started bool
  | FailTaken client_candidate bool
  | Adopted "client_adoption option"
  | Cancelled client_cancellations

fun race_apply :: "client_race \<Rightarrow> race_event \<Rightarrow> client_race \<times> race_answer" where
  "race_apply r StartAlternate = (let (r', b) = start_alternate r in (r', Started b))"
| "race_apply r (FailEvent c) = (let (r', b) = fail r c in (r', FailTaken c b))"
| "race_apply r (AdoptEvent c) = (let (r', a) = adopt r c in (r', Adopted a))"
| "race_apply r CancelEvent = (let (r', cc) = cancel r in (r', Cancelled cc))"

fun race_run :: "client_race \<Rightarrow> race_event list \<Rightarrow> client_race \<times> race_answer list" where
  "race_run r [] = (r, [])"
| "race_run r (e # es) =
    (let (r', a) = race_apply r e; (r'', as) = race_run r' es in (r'', a # as))"

section \<open>The ledger of a race\<close>

text \<open>An answer that starts, adopts, or ends the pending attempt of a candidate.\<close>

fun starts :: "client_candidate \<Rightarrow> race_answer \<Rightarrow> nat" where
  "starts Alternate (Started True) = 1"
| "starts _ _ = 0"

fun adopts :: "race_answer \<Rightarrow> nat" where
  "adopts (Adopted (Some _)) = 1"
| "adopts _ = 0"

fun settles :: "client_candidate \<Rightarrow> race_answer \<Rightarrow> nat" where
  "settles c (FailTaken c' b) = (if c = c' \<and> b then 1 else 0)"
| "settles c (Adopted (Some a)) =
    (if ca_candidate a = c then 1 else 0) + (if contains (ca_cancel a) c then 1 else 0)"
| "settles c (Cancelled cc) = (if contains cc c then 1 else 0)"
| "settles c _ = 0"

definition pending :: "client_race \<Rightarrow> client_candidate \<Rightarrow> nat" where
  "pending r c = (if states r ! slot c = Pending then 1 else 0)"

definition unstarted :: "client_race \<Rightarrow> nat" where
  "unstarted r = (if states r ! 1 = Unstarted then 1 else 0)"

definition race_inv :: "client_race \<Rightarrow> bool" where
  "race_inv r \<longleftrightarrow> length (states r) = 2 \<and> states r ! 0 \<noteq> Unstarted
     \<and> (terminal r \<longrightarrow> Pending \<notin> set (states r) \<and> states r ! 1 \<noteq> Unstarted)"

lemma race_inv_cases:
  assumes "race_inv r"
  obtains a b t where "r = \<lparr>states = [a, b], terminal = t\<rparr>" "a \<noteq> Unstarted"
    "t \<longrightarrow> a \<noteq> Pending \<and> b \<noteq> Pending \<and> b \<noteq> Unstarted"
proof -
  from assms obtain a b where "states r = [a, b]"
    by (auto simp: race_inv_def numeral_2_eq_2 length_Suc_conv)
  then have "r = \<lparr>states = [a, b], terminal = terminal r\<rparr>"
    by (cases r) simp
  then show thesis
    using assms \<open>states r = [a, b]\<close> by (intro that [of a b "terminal r"]) (auto simp: race_inv_def)
qed

lemmas race_op_defs = start_alternate_def fail_def adopt_def cancel_def Let_def

lemma race_apply_ledger:
  assumes inv: "race_inv r" and ap: "race_apply r e = (r', ans)"
  shows "race_inv r'"
    and "pending r c + starts c ans = pending r' c + settles c ans"
    and "adopts ans + (if terminal r then 1 else 0) \<le> (if terminal r' then 1 else 0)"
    and "starts Alternate ans + unstarted r' \<le> unstarted r"
proof -
  from inv obtain a b t where r: "r = \<lparr>states = [a, b], terminal = t\<rparr>" and a: "a \<noteq> Unstarted"
    and t: "t \<longrightarrow> a \<noteq> Pending \<and> b \<noteq> Pending \<and> b \<noteq> Unstarted"
    by (rule race_inv_cases)
  have all: "race_inv r' \<and> pending r c + starts c ans = pending r' c + settles c ans
    \<and> adopts ans + (if terminal r then 1 else 0) \<le> (if terminal r' then 1 else (0::nat))
    \<and> starts Alternate ans + unstarted r' \<le> unstarted r"
  proof (cases e)
    case StartAlternate
    then show ?thesis
      using ap [symmetric] a t unfolding r
      by (cases t; cases a; cases b; cases c)
         (simp_all add: race_op_defs race_inv_def pending_def unstarted_def)
  next
    case (FailEvent x)
    then show ?thesis
      using ap [symmetric] a t unfolding r
      by (cases t; cases a; cases b; cases c; cases x)
         (simp_all add: race_op_defs race_inv_def pending_def unstarted_def)
  next
    case (AdoptEvent x)
    then show ?thesis
      using ap [symmetric] a t unfolding r
      by (cases t; cases a; cases b; cases c; cases x)
         (simp_all add: race_op_defs race_inv_def pending_def unstarted_def)
  next
    case CancelEvent
    then show ?thesis
      using ap [symmetric] a t unfolding r
      by (cases t; cases a; cases b; cases c)
         (simp_all add: race_op_defs race_inv_def pending_def unstarted_def)
  qed
  show "race_inv r'" "pending r c + starts c ans = pending r' c + settles c ans"
    "adopts ans + (if terminal r then 1 else 0) \<le> (if terminal r' then 1 else 0)"
    "starts Alternate ans + unstarted r' \<le> unstarted r"
    using all by blast+
qed

lemma race_run_ledger:
  assumes "race_inv r" and "race_run r es = (r', as)"
  shows "race_inv r' \<and> pending r c + sum_list (map (starts c) as) = pending r' c + sum_list (map (settles c) as)
    \<and> sum_list (map adopts as) + (if terminal r then 1 else 0) \<le> (if terminal r' then 1 else (0::nat))
    \<and> sum_list (map (starts Alternate) as) + unstarted r' \<le> unstarted r"
  using assms
proof (induction es arbitrary: r as)
  case (Cons e es)
  obtain r1 a where ap: "race_apply r e = (r1, a)"
    by fastforce
  with Cons.prems obtain as' where as: "as = a # as'" "race_run r1 es = (r', as')"
    by (auto simp: Let_def split: prod.splits)
  note step = race_apply_ledger [OF Cons.prems(1) ap]
  from step(2) [of c] step(3,4) Cons.IH [OF step(1) as(2)] show ?case
    by (simp add: as(1))
qed simp

lemma starts_Primary: "sum_list (map (starts Primary) as) = 0"
  by (induction as) simp_all

section \<open>Properties\<close>

text \<open>
  C7.  One establishment adopts at most one transport, whatever events the owning task feeds
  the race; a candidate's pending attempt is settled (failed, adopted, or handed back for
  cancellation) at most once, and exactly once for the primary when the race is terminal, so
  no attempt is leaked and no result is counted twice.
\<close>

theorem client_race_once:
  assumes "race_run race_new es = (r, as)"
  shows "sum_list (map adopts as) \<le> 1
    \<and> sum_list (map (settles c) as) \<le> 1
    \<and> (terminal r \<longrightarrow> sum_list (map (settles Primary) as) = 1
         \<and> sum_list (map (settles Alternate) as) = sum_list (map (starts Alternate) as))"
proof -
  have inv: "race_inv race_new"
    by (simp add: race_inv_def race_new_def)
  have new: "pending race_new Primary = 1" "pending race_new Alternate = 0" "unstarted race_new = 1"
    "\<not> terminal race_new"
    by (simp_all add: pending_def unstarted_def race_new_def)
  note p = race_run_ledger [OF inv assms, of Primary] and a = race_run_ledger [OF inv assms, of Alternate]
  have le: "sum_list (map (settles c) as) \<le> 1"
    using p a new by (cases c) (auto simp: starts_Primary)
  have "terminal r \<Longrightarrow> pending r x = 0" for x
    using p by (cases x) (auto simp: race_inv_def pending_def in_set_conv_nth)
  moreover have "sum_list (map adopts as) \<le> 1"
    using p new(4) by (cases "terminal r") (simp_all del: sum_list_eq_0_iff)
  ultimately show ?thesis
    using p a new le by (auto simp: starts_Primary)
qed

theorem client_race_once_witness:
  "\<exists>r as. race_run race_new [StartAlternate, AdoptEvent Alternate, AdoptEvent Primary] = (r, as)
     \<and> sum_list (map adopts as) = 1 \<and> sum_list (map (settles Primary) as) = 1"
proof -
  let ?out = "race_run race_new [StartAlternate, AdoptEvent Alternate, AdoptEvent Primary]"
  have out: "?out = (fst ?out, snd ?out)" and t: "terminal (fst ?out)"
    and n: "sum_list (map adopts (snd ?out)) = 1"
    by code_simp+
  then show ?thesis
    using client_race_once [OF out] by metis
qed

text \<open>
  Write progress and its ownership split agree: a fresh attempt is permitted precisely
  when the split yields the retryable remainder, which happens precisely when some byte of
  the message is missing; the remainder widens back to the progress it came from and counts
  precisely the written bytes; and only a warm attempt leaves an alternate.
\<close>

theorem write_progress_split:
  "(permits_fresh_attempt (from_written w n) \<longleftrightarrow> w < n)
   \<and> (split (from_written w n) = Ok CommittedWrite \<longleftrightarrow> n \<le> w)
   \<and> (w < n \<longleftrightarrow> (\<exists>p. split (from_written w n) = Err p \<and> progress p = from_written w n
                       \<and> bytes_discarded p = w))
   \<and> (permits_alternate_attempt t \<longleftrightarrow> alternate_attempt t \<noteq> None)"
proof -
  have "permits_alternate_attempt t \<longleftrightarrow> alternate_attempt t \<noteq> None"
    by (cases t) simp_all
  moreover have "w < n \<longleftrightarrow> (\<exists>p. split (from_written w n) = Err p
      \<and> progress p = from_written w n \<and> bytes_discarded p = w)"
    by (auto simp: from_written_def)
  ultimately show ?thesis
    by (auto simp: from_written_def)
qed

end
