(* ===== verification/Replay_Filter.thy ===== *)
theory Replay_Filter
  imports Prelude
begin

text \<open>
  The contract of a replay filter: a structure that is asked whether a counter may still be
  accepted (\<open>check\<close>) and told once it was authenticated (\<open>commit\<close>).  \<open>rel s A\<close> says that \<open>s\<close>
  stands for the set \<open>A\<close> of counters accepted so far.  The sliding window of the native UDP
  channel and the strict sequence check of the NXR UDP stream are both instances; the
  channel's receive path uses only the laws below.
\<close>

locale replay_filter =
  fixes empty :: 's
    and check :: "'s \<Rightarrow> 'c \<Rightarrow> bool"
    and commit :: "'s \<Rightarrow> 'c \<Rightarrow> 's \<times> bool"
    and rel :: "'s \<Rightarrow> 'c set \<Rightarrow> bool"
  assumes rel_empty: "rel empty {}"
    and rel_fresh: "rel s A \<Longrightarrow> check s c \<Longrightarrow> c \<notin> A"
    and rel_commit: "rel s A \<Longrightarrow> check s c \<Longrightarrow> rel (fst (commit s c)) (insert c A)"
    and commit_answer: "snd (commit s c) = check s c"
    and commit_refused: "\<not> check s c \<Longrightarrow> fst (commit s c) = s"
begin

text \<open>The counters a sequence of commits accepts, in order, and the state it leaves.\<close>

fun commits :: "'s \<Rightarrow> 'c list \<Rightarrow> 's \<times> 'c list" where
  "commits s [] = (s, [])"
| "commits s (c # cs) =
    (let (s', ok) = commit s c; (s'', as) = commits s' cs
     in (s'', if ok then c # as else as))"

lemma commits_rel:
  "rel s A \<Longrightarrow> rel (fst (commits s cs)) (A \<union> set (snd (commits s cs)))
     \<and> distinct (snd (commits s cs)) \<and> A \<inter> set (snd (commits s cs)) = {}"
proof (induction cs arbitrary: s A)
  case (Cons c cs)
  show ?case
  proof (cases "check s c")
    case True
    have ih: "rel (fst (commits (fst (commit s c)) cs))
          (insert c A \<union> set (snd (commits (fst (commit s c)) cs)))
        \<and> distinct (snd (commits (fst (commit s c)) cs))
        \<and> insert c A \<inter> set (snd (commits (fst (commit s c)) cs)) = {}"
      by (rule Cons.IH [OF rel_commit [OF Cons.prems True]])
    then show ?thesis
      using True rel_fresh [OF Cons.prems True] commit_answer [of s c]
      by (auto simp: Let_def case_prod_beta)
  next
    case False
    then show ?thesis
      using Cons commit_answer [of s c] commit_refused [of s c]
      by (auto simp: Let_def case_prod_beta)
  qed
qed simp

lemma commits_distinct: "distinct (snd (commits empty cs))"
  using commits_rel [OF rel_empty] by blast

lemma commit_twice: "rel s A \<Longrightarrow> check s c \<Longrightarrow> \<not> check (fst (commit s c)) c"
  using rel_commit rel_fresh by blast

end

end
