(* ===== verification/Udp_Window.thy ===== *)
theory Udp_Window
  imports Replay_Filter
begin

text \<open>
  The sliding anti-replay window of \<open>src/protocol/handoff/udp/window.rs\<close>: the highest
  authenticated counter and a ring bitmap of 1024 bits in sixteen 64-bit words.
\<close>

unbundle bit_operations_syntax

section \<open>The window\<close>

definition REPLAY_WINDOW_BITS :: u64 where "REPLAY_WINDOW_BITS = 1024"

definition WORDS :: nat where "WORDS = 16"

record replay_window =
  highest :: u64
  bitmap :: "u64 list"

definition window_new :: replay_window where
  "window_new = \<lparr>highest = 0, bitmap = replicate WORDS 0\<rparr>"

definition window_slot :: "u64 \<Rightarrow> nat \<times> nat" where
  "window_slot counter =
    (let index = counter mod REPLAY_WINDOW_BITS in (unat (index div 64), unat (index mod 64)))"

definition check :: "replay_window \<Rightarrow> u64 \<Rightarrow> bool" where
  "check w counter =
    (if counter = 0 then False
     else if counter > highest w then True
     else let age = highest w - counter
          in if age \<ge> REPLAY_WINDOW_BITS then False
             else let (word, b) = window_slot counter
                  in (bitmap w ! word) AND (push_bit b 1) = 0)"

text \<open>The loop that clears every slot strictly between the old and the new highest.\<close>

function clear_between :: "u64 list \<Rightarrow> u64 \<Rightarrow> u64 \<Rightarrow> u64 list" where
  "clear_between bm cleared counter =
    (if cleared < counter
     then let (word, b) = window_slot cleared
          in clear_between (bm[word := (bm ! word) AND NOT (push_bit b 1)]) (cleared + 1) counter
     else bm)"
  by pat_completeness auto

lemma word_succ_measure:
  fixes a b :: u64
  assumes "a < b"
  shows "unat (a + 1) = Suc (unat a)" "unat (a + 1) \<le> unat b"
proof -
  have "unat a + 1 < 2 ^ 64"
    using assms unat_bound [of b] by (simp add: word_less_nat_alt)
  then show "unat (a + 1) = Suc (unat a)"
    by (simp add: unat_word_ariths)
  then show "unat (a + 1) \<le> unat b"
    using assms by (simp add: word_less_nat_alt)
qed

termination clear_between
  by (relation "measure (\<lambda>(bm, cleared, counter). unat counter - unat cleared)")
     (auto simp: word_succ_measure word_less_nat_alt)

declare clear_between.simps [simp del]

definition commit :: "replay_window \<Rightarrow> u64 \<Rightarrow> replay_window \<times> bool" where
  "commit w counter =
    (if \<not> check w counter then (w, False)
     else let w' =
            (if counter > highest w
             then let advance = counter - highest w;
                      bm = (if advance \<ge> REPLAY_WINDOW_BITS then replicate WORDS 0
                            else clear_between (bitmap w) (highest w + 1) counter)
                  in \<lparr>highest = counter, bitmap = bm\<rparr>
             else w);
          (word, b) = window_slot counter
        in (w'\<lparr>bitmap := (bitmap w')[word := (bitmap w' ! word) OR push_bit b 1]\<rparr>, True))"

section \<open>Bits of the ring\<close>

text \<open>The ring bit of the counter with number \<open>n\<close>.\<close>

definition ring_bit :: "u64 list \<Rightarrow> nat \<Rightarrow> bool" where
  "ring_bit bm n = bit (bm ! (n mod 1024 div 64)) (n mod 64)"

lemma window_slot_eq: "window_slot c = (unat c mod 1024 div 64, unat c mod 64)"
proof -
  have "unat c mod 1024 mod 64 = unat c mod 64"
    by (rule mod_mod_cancel) simp
  then show ?thesis
    by (simp add: window_slot_def REPLAY_WINDOW_BITS_def Let_def unat_div unat_mod)
qed

lemma slot_word_less: "n mod 1024 div 64 < 16" for n :: nat
  by (simp add: less_mult_imp_div_less)

lemma slot_eq_iff:
  "m mod 1024 div 64 = n mod 1024 div 64 \<and> m mod 64 = n mod 64 \<longleftrightarrow> m mod 1024 = n mod 1024"
  for m n :: nat
proof -
  have "k mod 1024 = (k mod 1024 div 64) * 64 + k mod 64" for k :: nat
    using mod_mod_cancel [of 64 1024 k] div_mult_mod_eq [of "k mod 1024" 64] by simp
  moreover have "k mod 64 = k mod 1024 mod 64" for k :: nat
    by (simp add: mod_mod_cancel)
  ultimately show ?thesis
    by metis
qed

lemma ring_bit_test:
  "(bm ! (n mod 1024 div 64)) AND 2 ^ (n mod 64) = 0 \<longleftrightarrow> \<not> ring_bit bm n"
  by (simp add: ring_bit_def and_exp_eq_0_iff_not_bit)

definition set_ring :: "u64 list \<Rightarrow> nat \<Rightarrow> u64 list" where
  "set_ring bm n = bm[n mod 1024 div 64 := (bm ! (n mod 1024 div 64)) OR push_bit (n mod 64) 1]"

lemma length_set_ring [simp]: "length (set_ring bm n) = length bm"
  by (simp add: set_ring_def)

lemma ring_bit_set:
  assumes "length bm = 16"
  shows "ring_bit (set_ring bm n) m
         \<longleftrightarrow> m mod 1024 = n mod 1024 \<or> ring_bit bm m"
  using assms slot_word_less [of n] slot_word_less [of m] slot_eq_iff [of m n]
  by (auto simp: ring_bit_def set_ring_def nth_list_update bit_simps)

lemma ring_bit_clear:
  assumes "length bm = 16"
  shows "ring_bit (bm[n mod 1024 div 64 := (bm ! (n mod 1024 div 64)) AND NOT (push_bit (n mod 64) 1)]) m
         \<longleftrightarrow> m mod 1024 \<noteq> n mod 1024 \<and> ring_bit bm m"
  using assms slot_word_less [of n] slot_word_less [of m] slot_eq_iff [of m n]
  by (auto simp: ring_bit_def nth_list_update bit_simps)

lemma ring_alias: "a < b \<Longrightarrow> b - a < 1024 \<Longrightarrow> a mod 1024 \<noteq> b mod 1024" for a b :: nat
  using mod_eq_dvd_iff_nat [of a b 1024] dvd_imp_le [of 1024 "b - a"] by auto

lemma length_clear_between [simp]: "length (clear_between bm a c) = length bm"
  by (induction bm a c rule: clear_between.induct)
     (subst clear_between.simps, auto simp: Let_def split: prod.splits)

lemma ring_bit_clear_between:
  "length bm = 16 \<Longrightarrow> ring_bit (clear_between bm a c) m \<longleftrightarrow>
     ring_bit bm m \<and> (\<forall>k. unat a \<le> k \<and> k < unat c \<longrightarrow> k mod 1024 \<noteq> m mod 1024)"
proof (induction bm a c rule: clear_between.induct)
  case (1 bm a c)
  show ?case
  proof (cases "a < c")
    case True
    let ?bm = "bm[unat a mod 1024 div 64 := (bm ! (unat a mod 1024 div 64)) AND NOT (push_bit (unat a mod 64) 1)]"
    have range: "unat a \<le> k \<and> k < unat c \<longleftrightarrow> k = unat a \<or> Suc (unat a) \<le> k \<and> k < unat c" for k
      using True by (auto simp: word_less_nat_alt)
    have "ring_bit (clear_between bm a c) m = ring_bit (clear_between ?bm (a + 1) c) m"
      using True by (subst clear_between.simps) (simp add: window_slot_eq)
    also have "\<dots> \<longleftrightarrow> ring_bit ?bm m \<and> (\<forall>k. unat (a + 1) \<le> k \<and> k < unat c \<longrightarrow> k mod 1024 \<noteq> m mod 1024)"
      using 1 True by (simp add: window_slot_eq)
    also have "\<dots> \<longleftrightarrow> ring_bit bm m \<and> (\<forall>k. unat a \<le> k \<and> k < unat c \<longrightarrow> k mod 1024 \<noteq> m mod 1024)"
      unfolding ring_bit_clear [OF 1(2)] word_succ_measure(1) [OF True] range by auto
    finally show ?thesis .
  next
    case False
    then show ?thesis
      by (subst clear_between.simps) (auto simp: word_less_nat_alt)
  qed
qed

lemma ring_bit_zero [simp]: "ring_bit (replicate 16 0) m = False"
  using slot_word_less [of m] by (simp add: ring_bit_def)

section \<open>The window stands for the set of accepted counters\<close>

definition in_window :: "u64 \<Rightarrow> u64 \<Rightarrow> bool" where
  "in_window h c \<longleftrightarrow> c \<le> h \<and> unat h - unat c < 1024"

definition window_rel :: "replay_window \<Rightarrow> u64 set \<Rightarrow> bool" where
  "window_rel w A \<longleftrightarrow> length (bitmap w) = 16 \<and> 0 \<notin> A \<and> (\<forall>a \<in> A. a \<le> highest w)
     \<and> (A = {} \<longrightarrow> highest w = 0) \<and> (A \<noteq> {} \<longrightarrow> highest w \<in> A)
     \<and> (\<forall>c. c \<noteq> 0 \<and> in_window (highest w) c \<longrightarrow> (ring_bit (bitmap w) (unat c) \<longleftrightarrow> c \<in> A))"

lemma check_eq:
  "check w c \<longleftrightarrow> c \<noteq> 0 \<and> (highest w < c \<or> in_window (highest w) c \<and> \<not> ring_bit (bitmap w) (unat c))"
proof (cases "highest w < c")
  case False
  then have "unat (highest w - c) = unat (highest w) - unat c"
    by (intro unat_sub) simp
  then have "highest w - c < 1024 \<longleftrightarrow> unat (highest w) - unat c < 1024"
    by (simp add: word_less_nat_alt)
  then show ?thesis
    using False by (auto simp: check_def in_window_def REPLAY_WINDOW_BITS_def Let_def
        window_slot_eq ring_bit_test not_le not_less)
qed (auto simp: check_def)

lemma commit_bitmap:
  assumes "check w c"
  shows "fst (commit w c) =
    (let h = max (highest w) c;
         bm = (if highest w < c
               then if 1024 \<le> unat c - unat (highest w) then replicate 16 0
                    else clear_between (bitmap w) (highest w + 1) c
               else bitmap w)
     in \<lparr>highest = h, bitmap = set_ring bm (unat c)\<rparr>)"
proof -
  have "1024 \<le> c - highest w \<longleftrightarrow> 1024 \<le> unat c - unat (highest w)" if "highest w < c"
    using unat_sub [of "highest w" c] that by (simp add: word_le_nat_alt [of 1024] less_imp_le)
  then show ?thesis
    using assms by (auto simp: commit_def REPLAY_WINDOW_BITS_def WORDS_def window_slot_eq
        set_ring_def Let_def max_def)
qed

lemma cleared_range:
  fixes c c' h :: nat
  assumes "c' < c" and "h < c" and "c - c' < 1024"
  shows "(\<forall>k. Suc h \<le> k \<and> k < c \<longrightarrow> k mod 1024 \<noteq> c' mod 1024) \<longleftrightarrow> c' \<le> h"
proof
  assume all: "\<forall>k. Suc h \<le> k \<and> k < c \<longrightarrow> k mod 1024 \<noteq> c' mod 1024"
  show "c' \<le> h"
  proof (rule ccontr)
    assume "\<not> c' \<le> h"
    then show False
      using spec [OF all, of c'] assms(1) by simp
  qed
next
  assume le: "c' \<le> h"
  show "\<forall>k. Suc h \<le> k \<and> k < c \<longrightarrow> k mod 1024 \<noteq> c' mod 1024"
  proof (intro allI impI)
    fix k
    assume k: "Suc h \<le> k \<and> k < c"
    have "c' mod 1024 \<noteq> k mod 1024"
      using k le assms(3) by (intro ring_alias) linarith+
    then show "k mod 1024 \<noteq> c' mod 1024"
      by (rule not_sym)
  qed
qed

lemma window_commit_bits:
  assumes rel: "window_rel w A" and ok: "check w c" and c': "c' \<noteq> 0"
    and win: "in_window (max (highest w) c) c'"
  shows "ring_bit (bitmap (fst (commit w c))) (unat c') \<longleftrightarrow> c' \<in> insert c A"
proof -
  let ?h = "highest w" and ?bm = "bitmap w"
  have len: "length ?bm = 16" and top: "\<forall>a \<in> A. a \<le> ?h"
    and bits: "c \<noteq> 0 \<Longrightarrow> in_window ?h c \<Longrightarrow> ring_bit ?bm (unat c) \<longleftrightarrow> c \<in> A" for c
    using rel by (auto simp: window_rel_def)
  show ?thesis
  proof (cases "?h < c")
    case high: True
    have win': "c' \<le> c" "unat c - unat c' < 1024"
      using win less_imp_le [OF high] by (auto simp: in_window_def max_def)
    have al: "unat c' mod 1024 = unat c mod 1024 \<longleftrightarrow> c' = c"
      using win' ring_alias [of "unat c'" "unat c"]
      by (auto simp: word_le_nat_alt le_less word_unat_eq_iff)
    have A: "c' \<in> A \<longleftrightarrow> in_window ?h c' \<and> ring_bit ?bm (unat c')"
      using bits [OF c'] top win' high by (auto simp: in_window_def word_le_nat_alt word_less_nat_alt)
    have far: "\<not> in_window ?h c'" if "1024 \<le> unat c - unat ?h"
      using that win' high by (auto simp: in_window_def word_le_nat_alt word_less_nat_alt)
    have near: "(\<forall>k. unat (?h + 1) \<le> k \<and> k < unat c \<longrightarrow> k mod 1024 \<noteq> unat c' mod 1024)
        \<longleftrightarrow> in_window ?h c'" if "c' \<noteq> c" and "unat c - unat ?h < 1024"
    proof -
      have "unat c' < unat c" "unat ?h < unat c"
        using win' that high by (auto simp: word_le_nat_alt word_less_nat_alt word_unat_eq_iff)
      moreover from this(2) win'(2) have "unat ?h - unat c' < 1024"
        by linarith
      ultimately show ?thesis
        unfolding word_succ_measure(1) [OF high] in_window_def word_le_nat_alt
        by (simp only: cleared_range [OF _ _ win'(2)] simp_thms)
    qed
    show ?thesis
    proof (cases "c' = c")
      case True
      then show ?thesis
        using high len by (simp add: commit_bitmap [OF ok] Let_def ring_bit_set)
    next
      case False
      then show ?thesis
        using high A al len far near [OF False]
        by (simp add: commit_bitmap [OF ok] Let_def ring_bit_set ring_bit_clear_between) blast
    qed
  next
    case low: False
    then have "in_window ?h c"
      using ok by (auto simp: check_eq)
    moreover have "max ?h c = ?h"
      using low by (simp add: max_def)
    ultimately have "unat c - unat c' < 1024" "unat c' - unat c < 1024"
      using win by (auto simp: in_window_def word_le_nat_alt)
    then have "unat c' mod 1024 = unat c mod 1024 \<longleftrightarrow> c' = c"
      using ring_alias [of "unat c'" "unat c"] ring_alias [of "unat c" "unat c'"]
      by (cases "unat c'" "unat c" rule: linorder_cases) (auto simp: word_unat_eq_iff)
    then show ?thesis
      using low len bits [OF c'] win \<open>max ?h c = ?h\<close>
      by (auto simp: commit_bitmap [OF ok] Let_def ring_bit_set)
  qed
qed

lemma window_rel_new: "window_rel window_new {}"
  by (auto simp: window_rel_def window_new_def WORDS_def in_window_def)

lemma window_rel_commit:
  assumes rel: "window_rel w A" and ok: "check w c"
  shows "window_rel (fst (commit w c)) (insert c A)"
proof -
  have h: "highest (fst (commit w c)) = max (highest w) c"
    by (simp add: commit_bitmap [OF ok] Let_def)
  moreover have "length (bitmap (fst (commit w c))) = 16"
    using rel by (simp add: commit_bitmap [OF ok] Let_def window_rel_def)
  moreover have "c \<noteq> 0" "highest w = 0 \<or> highest w \<in> A"
    using rel ok by (auto simp: window_rel_def check_def)
  moreover have "max (highest w) c \<in> insert c A"
    using \<open>highest w = 0 \<or> highest w \<in> A\<close> by (auto simp: max_def)
  ultimately show ?thesis
    using rel window_commit_bits [OF rel ok] by (auto simp: window_rel_def le_max_iff_disj)
qed

lemma window_rel_check:
  assumes "window_rel w A"
  shows "check w c \<longleftrightarrow> c \<noteq> 0 \<and> c \<notin> A \<and> (highest w < c \<or> in_window (highest w) c)"
  using assms by (auto simp: check_eq window_rel_def not_less)

interpretation window: replay_filter window_new check commit window_rel
proof unfold_locales
  show "window_rel window_new {}"
    by (rule window_rel_new)
  show "c \<notin> A" if "window_rel w A" "check w c" for w A c
    using that by (simp add: window_rel_check)
  show "window_rel (fst (commit w c)) (insert c A)" if "window_rel w A" "check w c" for w A c
    using that by (rule window_rel_commit)
  show "snd (commit w c) = check w c" for w c
    by (simp add: commit_def Let_def case_prod_beta)
  show "fst (commit w c) = w" if "\<not> check w c" for w c
    using that by (simp add: commit_def)
qed

section \<open>Properties\<close>

text \<open>
  C9.  No replay: whatever counters are presented, in whatever order and however often, the
  window accepts each of them at most once.
\<close>

theorem window_accepts_once: "distinct (snd (window.commits window_new cs))"
  by (rule window.commits_distinct)

text \<open>
  C10.  The ring bitmap loses nothing: after any sequence of commits the window accepts a
  counter precisely when it is non-zero, was not accepted before, and lies above the highest
  accepted counter or fewer than 1024 behind it.  Re-using ring slots as the window slides
  neither forgets an accepted counter nor refuses a fresh one.
\<close>

theorem window_accepts_fresh:
  "let (w, acc) = window.commits window_new cs
   in check w c \<longleftrightarrow> c \<noteq> 0 \<and> c \<notin> set acc
        \<and> (Max (insert 0 (set acc)) < c \<or> unat (Max (insert 0 (set acc))) - unat c < 1024)"
proof -
  obtain w acc where run: "window.commits window_new cs = (w, acc)"
    by fastforce
  then have rel: "window_rel w (set acc)"
    using window.commits_rel [OF window_rel_new, of cs] by simp
  have top: "Max (insert 0 (set acc)) = highest w"
    using rel by (intro Max_eqI) (auto simp: window_rel_def)
  show ?thesis
    unfolding run Let_def split_conv top window_rel_check [OF rel, of c]
    by (auto simp: in_window_def not_less)
qed

end
