(* ===== verification/Net_Types.thy ===== *)
theory Net_Types
  imports Prelude
begin

text \<open>
  Addresses of the standard library as the wire formats see them: an IPv4 address is its 32
  bits, an IPv6 address its 128 bits, both written in network order.  A socket address is its IP
  address and port; the flow label and scope of an IPv6 socket address are on no wire format.
\<close>

datatype ip_addr = V4 u32 | V6 u128

record socket_addr =
  sa_ip :: ip_addr
  sa_port :: u16

fun is_unspecified :: "ip_addr \<Rightarrow> bool" where
  "is_unspecified (V4 a) = (a = 0)"
| "is_unspecified (V6 a) = (a = 0)"

fun octets :: "ip_addr \<Rightarrow> bytes" where
  "octets (V4 a) = u32_be a"
| "octets (V6 a) = u128_be a"

lemma length_octets [simp]:
  "length (octets (V4 a)) = 4" "length (octets (V6 b)) = 16"
  by simp_all

text \<open>\<open>slice.get(..n)\<close> followed by the rest of the slice.\<close>

definition split_at :: "nat \<Rightarrow> bytes \<Rightarrow> (bytes \<times> bytes) option" where
  "split_at n bs = (if n \<le> length bs then Some (take n bs, drop n bs) else None)"

lemma split_at_append [simp]: "length as = n \<Longrightarrow> split_at n (as @ bs) = Some (as, bs)"
  by (simp add: split_at_def)

lemma split_at_SomeD:
  "split_at n bs = Some (as, cs) \<Longrightarrow> bs = as @ cs \<and> length as = n"
  by (auto simp: split_at_def split: if_splits)

lemma split_at_Some_iff [result_simps]:
  "split_at n bs = Some (as, cs) \<longleftrightarrow> bs = as @ cs \<and> length as = n"
  by (auto simp: split_at_def)

lemma split_at_None_iff: "split_at n bs = None \<longleftrightarrow> length bs < n"
  by (auto simp: split_at_def)

end
