(* ===== verification/Udp_Wire.thy ===== *)
theory Udp_Wire
  imports Net_Types Udp_Window
begin

text \<open>
  The native UDP channel of \<open>src/protocol/handoff/udp/wire.rs\<close>: cleartext header, sealed
  packets with a replay window, and the DATA plaintext.  The AEAD is a parameter: a record of
  its detached seal and open operations.
\<close>

section \<open>Constants and packet types\<close>

definition UDP_PROTOCOL_VERSION :: byte where "UDP_PROTOCOL_VERSION = 1"
definition SESSION_ID_LEN :: nat where "SESSION_ID_LEN = 8"
definition HEADER_LEN :: nat where "HEADER_LEN = 2 + SESSION_ID_LEN + 8"
definition TAG_LEN :: nat where "TAG_LEN = 16"
definition MAX_UDP_PAYLOAD_LEN :: nat where "MAX_UDP_PAYLOAD_LEN = 7526"
definition MAX_ADDRESS_LEN :: nat where "MAX_ADDRESS_LEN = 1 + 16 + 2"
definition MAX_DATA_PLAINTEXT_LEN :: nat where
  "MAX_DATA_PLAINTEXT_LEN = MAX_ADDRESS_LEN + MAX_UDP_PAYLOAD_LEN"
definition FRAG_HEADER_LEN :: nat where "FRAG_HEADER_LEN = 6"
definition ADDRESS_IPV4 :: byte where "ADDRESS_IPV4 = 4"
definition ADDRESS_IPV6 :: byte where "ADDRESS_IPV6 = 6"

lemmas wire_consts = UDP_PROTOCOL_VERSION_def SESSION_ID_LEN_def HEADER_LEN_def TAG_LEN_def
  FRAG_HEADER_LEN_def

datatype packet_type = Open | OpenAck | Data | Frag | Probe | ProbeAck | Close

fun packet_type_wire :: "packet_type \<Rightarrow> byte" where
  "packet_type_wire Open = 1"
| "packet_type_wire OpenAck = 2"
| "packet_type_wire Data = 3"
| "packet_type_wire Frag = 4"
| "packet_type_wire Probe = 5"
| "packet_type_wire ProbeAck = 6"
| "packet_type_wire Close = 7"

definition from_wire :: "byte \<Rightarrow> packet_type option" where
  "from_wire v =
    (if v = 1 then Some Open else if v = 2 then Some OpenAck else if v = 3 then Some Data
     else if v = 4 then Some Frag else if v = 5 then Some Probe else if v = 6 then Some ProbeAck
     else if v = 7 then Some Close else None)"

datatype udp_packet_error =
    Length | Version | Type | TimeWindow | Replay | Authentication | Address | Session
  | Counter | Random | Crypto

section \<open>The header\<close>

definition parse_header :: "bytes \<Rightarrow> udp_packet_error + (packet_type \<times> bytes \<times> u64)" where
  "parse_header packet =
    (if length packet < HEADER_LEN + TAG_LEN then Err Length
     else if packet ! 0 \<noteq> UDP_PROTOCOL_VERSION then Err Version
     else and_then (ok_or Type (from_wire (packet ! 1))) (\<lambda>packet_type.
       let session_id = take SESSION_ID_LEN (drop 2 packet);
           counter = take 8 (drop (2 + SESSION_ID_LEN) packet)
       in Ok (packet_type, session_id, be_u64 counter)))"

definition encode_header :: "packet_type \<Rightarrow> bytes \<Rightarrow> u64 \<Rightarrow> bytes" where
  "encode_header packet_type session_id counter =
    [UDP_PROTOCOL_VERSION, packet_type_wire packet_type] @ session_id @ u64_be counter"

definition nonce_for :: "u64 \<Rightarrow> bytes" where
  "nonce_for counter = replicate 4 0 @ u64_be counter"

section \<open>The channel\<close>

text \<open>
  \<open>ae_seal key nonce aad plaintext\<close> is the detached ciphertext and tag,
  \<open>ae_open key nonce aad ciphertext tag\<close> the plaintext when the tag verifies.
\<close>

record aead =
  ae_seal :: "bytes \<Rightarrow> bytes \<Rightarrow> bytes \<Rightarrow> bytes \<Rightarrow> (bytes \<times> bytes) option"
  ae_open :: "bytes \<Rightarrow> bytes \<Rightarrow> bytes \<Rightarrow> bytes \<Rightarrow> bytes \<Rightarrow> bytes option"

record udp_channel =
  session_id :: bytes
  send :: bytes
  recv :: bytes
  send_counter :: u64
  window :: replay_window

definition channel_new :: "bytes \<Rightarrow> bytes \<Rightarrow> bytes \<Rightarrow> udp_channel" where
  "channel_new sid s r =
    \<lparr>session_id = sid, send = s, recv = r, send_counter = 0, window = window_new\<rparr>"

text \<open>\<open>u64::checked_add(1)\<close>.\<close>

definition checked_succ :: "u64 \<Rightarrow> u64 option" where
  "checked_succ c = (if c = - 1 then None else Some (c + 1))"

definition seal_padded ::
  "aead \<Rightarrow> udp_channel \<Rightarrow> packet_type \<Rightarrow> bytes \<Rightarrow> nat
   \<Rightarrow> (udp_packet_error + bytes) \<times> udp_channel"
where
  "seal_padded A ch packet_type prefix total_len =
    (if packet_type = Open then (Err Type, ch)
     else case checked_succ (send_counter ch) of
       None \<Rightarrow> (Err Counter, ch)
     | Some counter \<Rightarrow>
        (let ch' = ch\<lparr>send_counter := counter\<rparr>;
             header = encode_header packet_type (session_id ch) counter;
             plain_len = max (length prefix) (total_len - (HEADER_LEN + TAG_LEN));
             plain = prefix @ replicate (plain_len - length prefix) 0
         in case ae_seal A (send ch) (nonce_for counter) header plain of
              None \<Rightarrow> (Err Crypto, ch')
            | Some (body, tag) \<Rightarrow> (Ok (header @ body @ tag), ch')))"

definition seal ::
  "aead \<Rightarrow> udp_channel \<Rightarrow> packet_type \<Rightarrow> bytes \<Rightarrow> (udp_packet_error + bytes) \<times> udp_channel"
where
  "seal A ch packet_type plaintext = seal_padded A ch packet_type plaintext 0"

definition open_packet ::
  "aead \<Rightarrow> udp_channel \<Rightarrow> bytes \<Rightarrow> (udp_packet_error + packet_type \<times> bytes) \<times> udp_channel"
where
  "open_packet A ch packet =
    (case parse_header packet of
       Inl e \<Rightarrow> (Err e, ch)
     | Inr (packet_type, sid, counter) \<Rightarrow>
        if packet_type = Open then (Err Type, ch)
        else if sid \<noteq> session_id ch then (Err Session, ch)
        else if \<not> check (window ch) counter then (Err Replay, ch)
        else
         (let header = take HEADER_LEN packet;
              body_end = length packet - TAG_LEN;
              tag = drop body_end packet;
              body = drop HEADER_LEN (take body_end packet)
          in case ae_open A (recv ch) (nonce_for counter) header body tag of
               None \<Rightarrow> (Err Authentication, ch)
             | Some plaintext \<Rightarrow>
                (case commit (window ch) counter of
                   (w, False) \<Rightarrow> (Err Replay, ch\<lparr>window := w\<rparr>)
                 | (w, True) \<Rightarrow> (Ok (packet_type, plaintext), ch\<lparr>window := w\<rparr>))))"

section \<open>The DATA plaintext\<close>

definition encode_data_plaintext :: "socket_addr \<Rightarrow> bytes \<Rightarrow> udp_packet_error + bytes" where
  "encode_data_plaintext address payload =
    (if length payload > MAX_UDP_PAYLOAD_LEN then Err Length
     else if sa_port address = 0 \<or> is_unspecified (sa_ip address) then Err Address
     else Ok ((case sa_ip address of
                 V4 ip \<Rightarrow> ADDRESS_IPV4 # u32_be ip
               | V6 ip \<Rightarrow> ADDRESS_IPV6 # u128_be ip)
              @ u16_be (sa_port address) @ payload))"

definition decode_ip :: "byte \<Rightarrow> bytes \<Rightarrow> udp_packet_error + (ip_addr \<times> bytes)" where
  "decode_ip family rest =
    (if family = ADDRESS_IPV4 then
       and_then (ok_or Length (split_at 4 rest)) (\<lambda>(os, rest'). Ok (V4 (be_u32 os), rest'))
     else if family = ADDRESS_IPV6 then
       and_then (ok_or Length (split_at 16 rest)) (\<lambda>(os, rest'). Ok (V6 (be_u128 os), rest'))
     else Err Address)"

definition decode_data :: "bytes \<Rightarrow> udp_packet_error + (socket_addr \<times> bytes)" where
  "decode_data plaintext =
    (case plaintext of
       [] \<Rightarrow> Err Length
     | family # rest \<Rightarrow>
        and_then (decode_ip family rest) (\<lambda>(ip, rest1).
        and_then (ok_or Length (split_at 2 rest1)) (\<lambda>(p, payload).
          let port = be_u16 p
          in if port = 0 \<or> is_unspecified ip then Err Address
             else if length payload > MAX_UDP_PAYLOAD_LEN then Err Length
             else Ok (\<lparr>sa_ip = ip, sa_port = port\<rparr>, payload))))"

section \<open>Header round trip\<close>

lemma from_wire_packet_type [simp]: "from_wire (packet_type_wire t) = Some t"
  by (cases t) (simp_all add: from_wire_def)

lemma length_encode_header [simp]: "length (encode_header t sid c) = 10 + length sid"
  by (simp add: encode_header_def)

lemma parse_encode_header:
  assumes "length sid = 8" and "16 \<le> length body"
  shows "parse_header (encode_header t sid c @ body) = Ok (t, sid, c)"
  using assms by (simp add: parse_header_def encode_header_def wire_consts Let_def)

section \<open>Sealing and opening\<close>

text \<open>
  What the channel relies on of the AEAD: sealing always succeeds with a 16-byte tag and a
  ciphertext as long as the plaintext, and opening what was sealed gives the plaintext back.
\<close>

definition aead_ok :: "aead \<Rightarrow> bool" where
  "aead_ok A \<longleftrightarrow> (\<forall>k n a p. \<exists>body tag. ae_seal A k n a p = Some (body, tag)
      \<and> length body = length p \<and> length tag = 16 \<and> ae_open A k n a body tag = Some p)"

lemma aead_okE:
  assumes "aead_ok A"
  obtains body tag where "ae_seal A k n a p = Some (body, tag)" "length body = length p"
    "length tag = 16" "ae_open A k n a body tag = Some p"
  using assms unfolding aead_ok_def by blast

definition padded :: "bytes \<Rightarrow> nat \<Rightarrow> bytes" where
  "padded prefix total_len = prefix @ replicate (total_len - 34 - length prefix) 0"

lemma seal_padded_Ok:
  assumes A: "aead_ok A" and sid: "length (session_id a) = 8"
    and s: "seal_padded A a t prefix n = (Ok packet, a')"
  obtains body tag where "packet = encode_header t (session_id a) (send_counter a') @ body @ tag"
    "length body = length (padded prefix n)" "length tag = 16" "t \<noteq> Open"
    "send_counter a \<noteq> - 1" "a' = a\<lparr>send_counter := send_counter a + 1\<rparr>"
    "ae_open A (send a) (nonce_for (send_counter a'))
       (encode_header t (session_id a) (send_counter a')) body tag = Some (padded prefix n)"
proof -
  have pad: "prefix @ replicate (max (length prefix) (n - (HEADER_LEN + TAG_LEN)) - length prefix) 0
      = padded prefix n"
    by (simp add: padded_def wire_consts max_def)
  show thesis
    using s that aead_okE [OF A, of "send a" "nonce_for (send_counter a + 1)"
        "encode_header t (session_id a) (send_counter a + 1)" "padded prefix n"]
    by (auto simp: seal_padded_def checked_succ_def pad Let_def split: if_splits option.splits)
qed

lemma open_packet_sealed:
  assumes sid: "length (session_id b) = 8" and t: "t \<noteq> Open"
    and tag: "length tag = 16" and fresh: "check (window b) c"
    and ae: "ae_open A (recv b) (nonce_for c) (encode_header t (session_id b) c) body tag = Some p"
  shows "open_packet A b (encode_header t (session_id b) c @ body @ tag)
    = (Ok (t, p), b\<lparr>window := fst (commit (window b) c)\<rparr>)"
proof -
  let ?h = "encode_header t (session_id b) c" and ?pkt = "encode_header t (session_id b) c @ body @ tag"
  have "parse_header ?pkt = Ok (t, session_id b, c)"
    using sid tag by (intro parse_encode_header) simp_all
  moreover have "take HEADER_LEN ?pkt = ?h"
    using sid by (simp add: wire_consts)
  moreover have "drop (length ?pkt - TAG_LEN) ?pkt = tag"
    using tag by (simp add: wire_consts)
  moreover have "drop HEADER_LEN (take (length ?pkt - TAG_LEN) ?pkt) = body"
    using sid tag by (simp add: wire_consts)
  moreover obtain w where "commit (window b) c = (w, True)"
    using fresh window.commit_answer [of "window b" c] by (cases "commit (window b) c") simp
  ultimately show ?thesis
    using t fresh ae by (simp add: open_packet_def Let_def)
qed

lemma open_packet_Ok:
  assumes "open_packet A b packet = (Ok (t, p), b')"
  obtains sid c where "parse_header packet = Ok (t, sid, c)" "sid = session_id b"
    "check (window b) c" "b' = b\<lparr>window := fst (commit (window b) c)\<rparr>"
  using assms
  by (auto simp: open_packet_def Let_def split: sum.splits prod.splits if_splits option.splits bool.splits)

lemma open_packet_Err:
  assumes "open_packet A b packet = (Err e, b')"
  shows "b' = b"
proof -
  have "\<not> check w c" if "commit w c = (w', False)" for w w' c
    using that window.commit_answer [of w c] by simp
  then show ?thesis
    using assms
    by (auto simp: open_packet_def Let_def split: sum.splits prod.splits if_splits option.splits bool.splits)
qed

text \<open>A receiver fed with arbitrary packets: the counters of the packets it accepts.\<close>

fun accepted_counters :: "aead \<Rightarrow> udp_channel \<Rightarrow> bytes list \<Rightarrow> u64 list" where
  "accepted_counters A b [] = []"
| "accepted_counters A b (packet # packets) =
    (case open_packet A b packet of
       (Inl _, b') \<Rightarrow> accepted_counters A b' packets
     | (Inr _, b') \<Rightarrow>
        (case parse_header packet of
           Inl _ \<Rightarrow> accepted_counters A b' packets
         | Inr (_, _, c) \<Rightarrow> c # accepted_counters A b' packets))"

lemma accepted_counters_fresh:
  "window_rel (window b) S \<Longrightarrow>
     distinct (accepted_counters A b packets) \<and> S \<inter> set (accepted_counters A b packets) = {}"
proof (induction packets arbitrary: b S)
  case (Cons packet packets)
  obtain r b' where o: "open_packet A b packet = (r, b')"
    by fastforce
  show ?case
  proof (cases r)
    case (Inl e)
    then show ?thesis
      using Cons o open_packet_Err [of A b packet e b'] by simp
  next
    case (Inr v)
    then obtain t p where "open_packet A b packet = (Ok (t, p), b')"
      using o by (cases v) simp
    then obtain c where c: "parse_header packet = Ok (t, session_id b, c)" "check (window b) c"
      "b' = b\<lparr>window := fst (commit (window b) c)\<rparr>"
      by (rule open_packet_Ok) blast
    have "window_rel (window b') (insert c S)"
      using window_rel_commit [OF Cons.prems c(2)] c(3) by simp
    from Cons.IH [OF this] show ?thesis
      using Inr o c(1) window.rel_fresh [OF Cons.prems c(2)] by auto
  qed
qed simp

text \<open>Sealing a list of packets, and opening a list of packets that must all be accepted.\<close>

fun seal_all :: "aead \<Rightarrow> udp_channel \<Rightarrow> (packet_type \<times> bytes) list \<Rightarrow> (udp_packet_error + bytes list) \<times> udp_channel" where
  "seal_all A a [] = (Ok [], a)"
| "seal_all A a ((t, p) # ps) =
    (case seal A a t p of
       (Inl e, a') \<Rightarrow> (Err e, a')
     | (Inr packet, a') \<Rightarrow>
        (case seal_all A a' ps of
           (Inl e, a'') \<Rightarrow> (Err e, a'')
         | (Inr packets, a'') \<Rightarrow> (Ok (packet # packets), a'')))"

fun open_all :: "aead \<Rightarrow> udp_channel \<Rightarrow> bytes list \<Rightarrow> (udp_packet_error + (packet_type \<times> bytes) list) \<times> udp_channel" where
  "open_all A b [] = (Ok [], b)"
| "open_all A b (packet # packets) =
    (case open_packet A b packet of
       (Inl e, b') \<Rightarrow> (Err e, b')
     | (Inr r, b') \<Rightarrow>
        (case open_all A b' packets of
           (Inl e, b'') \<Rightarrow> (Err e, b'')
         | (Inr rs, b'') \<Rightarrow> (Ok (r # rs), b'')))"

definition paired :: "udp_channel \<Rightarrow> udp_channel \<Rightarrow> bool" where
  "paired a b \<longleftrightarrow> send a = recv b \<and> session_id a = session_id b \<and> length (session_id a) = 8"

lemma seal_Ok:
  assumes A: "aead_ok A" and sid: "length (session_id a) = 8"
    and t: "t \<noteq> Open" and c: "send_counter a \<noteq> - 1"
  obtains body tag where
    "seal A a t p = (Ok (encode_header t (session_id a) (send_counter a + 1) @ body @ tag),
                     a\<lparr>send_counter := send_counter a + 1\<rparr>)"
    "length tag = 16" "length body = length p"
    "ae_open A (send a) (nonce_for (send_counter a + 1))
       (encode_header t (session_id a) (send_counter a + 1)) body tag = Some p"
proof -
  obtain body tag where ae:
    "ae_seal A (send a) (nonce_for (send_counter a + 1))
       (encode_header t (session_id a) (send_counter a + 1)) p = Some (body, tag)"
    "length body = length p" "length tag = 16"
    "ae_open A (send a) (nonce_for (send_counter a + 1))
       (encode_header t (session_id a) (send_counter a + 1)) body tag = Some p"
    using A by (rule aead_okE)
  then have "seal A a t p = (Ok (encode_header t (session_id a) (send_counter a + 1) @ body @ tag),
                     a\<lparr>send_counter := send_counter a + 1\<rparr>)"
    using t c by (simp add: seal_def seal_padded_def checked_succ_def Let_def)
  then show thesis
    using ae by (intro that)
qed

lemma counter_step:
  fixes c :: u64
  assumes "unat c + 1 < 2 ^ 64"
  shows "c \<noteq> - 1" "unat (c + 1) = unat c + 1" "c < c + 1"
proof -
  show u: "unat (c + 1) = unat c + 1"
    using assms by (simp add: unat_word_ariths)
  then show "c < c + 1"
    by (simp add: word_less_nat_alt)
  then show "c \<noteq> - 1"
    by auto
qed

lemma stream_delivery:
  assumes A: "aead_ok A"
  shows "\<lbrakk>paired a b; window_rel (window b) S; \<forall>c \<in> S. c \<le> send_counter a;
     \<forall>(t, p) \<in> set ps. t \<noteq> Open; unat (send_counter a) + length ps < 2 ^ 64\<rbrakk>
   \<Longrightarrow> \<exists>packets a' b'. seal_all A a ps = (Ok packets, a') \<and> open_all A b packets = (Ok ps, b')"
proof (induction ps arbitrary: a b S)
  case (Cons tp ps)
  obtain t p where tp: "tp = (t, p)"
    by (cases tp)
  let ?c = "send_counter a + 1"
  have step: "send_counter a \<noteq> - 1" "unat ?c = unat (send_counter a) + 1" "send_counter a < ?c"
    using counter_step [of "send_counter a"] Cons.prems(5) by auto
  have sid: "length (session_id a) = 8" "session_id b = session_id a" "recv b = send a"
    using Cons.prems(1) by (auto simp: paired_def)
  have "t \<noteq> Open"
    using Cons.prems(4) tp by auto
  from seal_Ok [OF A sid(1) this step(1)] obtain body tag where
    s: "seal A a t p = (Ok (encode_header t (session_id a) ?c @ body @ tag), a\<lparr>send_counter := ?c\<rparr>)"
    and tag: "length tag = 16"
    and ae: "ae_open A (send a) (nonce_for ?c) (encode_header t (session_id a) ?c) body tag = Some p"
    by metis
  have fresh: "check (window b) ?c"
    using Cons.prems(2,3) step(3) by (fastforce simp: window_rel_check [OF Cons.prems(2)] window_rel_def
        in_window_def not_less)
  have o: "open_packet A b (encode_header t (session_id a) ?c @ body @ tag)
      = (Ok (t, p), b\<lparr>window := fst (commit (window b) ?c)\<rparr>)"
    using open_packet_sealed [of b t tag ?c A body p] sid tag ae fresh \<open>t \<noteq> Open\<close> by simp
  have "\<exists>packets a' b'. seal_all A (a\<lparr>send_counter := ?c\<rparr>) ps = (Ok packets, a')
      \<and> open_all A (b\<lparr>window := fst (commit (window b) ?c)\<rparr>) packets = (Ok ps, b')"
  proof (rule Cons.IH)
    show "window_rel (window (b\<lparr>window := fst (commit (window b) ?c)\<rparr>)) (insert ?c S)"
      using window_rel_commit [OF Cons.prems(2) fresh] by simp
    show "\<forall>c \<in> insert ?c S. c \<le> send_counter (a\<lparr>send_counter := ?c\<rparr>)"
      using Cons.prems(3) step(3) by fastforce
  qed (use Cons.prems step(2) in \<open>auto simp: paired_def\<close>)
  then show ?case
    using s o tp by auto
qed simp

lemma length_seal_padded:
  assumes A: "aead_ok A" and sid: "length (session_id a) = 8"
    and s: "seal_padded A a t prefix n = (Ok packet, a')" and n: "34 + length prefix \<le> n"
  shows "length packet = n"
proof -
  obtain body tag where "packet = encode_header t (session_id a) (send_counter a') @ body @ tag"
    "length body = length (padded prefix n)" "length tag = 16"
    using A sid s by (rule seal_padded_Ok)
  then show ?thesis
    using sid n by (simp add: padded_def)
qed

section \<open>Properties\<close>

definition null_aead :: aead where
  "null_aead = \<lparr>ae_seal = (\<lambda>k n a p. Some (p, replicate 16 0)),
                ae_open = (\<lambda>k n a body tag. Some body)\<rparr>"

lemma null_aead_ok: "aead_ok null_aead"
  by (simp add: aead_ok_def null_aead_def)

text \<open>
  C11.  A channel delivers what was sealed: for two fresh ends that share a session id and
  the direction key, sealing any list of non-OPEN packets succeeds until the counter space is
  exhausted, and opening the packets in order returns precisely their types and plaintexts.
\<close>

theorem channel_stream:
  assumes "aead_ok A" and "length sid = 8" and "\<forall>(t, p) \<in> set ps. t \<noteq> Open" and "length ps < 2 ^ 64"
  shows "\<exists>packets a b. seal_all A (channel_new sid k k') ps = (Ok packets, a)
    \<and> open_all A (channel_new sid k'' k) packets = (Ok ps, b)"
  by (rule stream_delivery [where S = "{}"])
     (use assms window_rel_new in \<open>auto simp: paired_def channel_new_def\<close>)

theorem channel_stream_witness:
  "\<exists>packets a b. seal_all null_aead (channel_new (replicate 8 7) [1] [2]) [(Data, [9]), (Close, [])] = (Ok packets, a)
    \<and> open_all null_aead (channel_new (replicate 8 7) [3] [1]) packets = (Ok [(Data, [9]), (Close, [])], b)"
  by (rule channel_stream) (simp_all add: null_aead_ok)

text \<open>
  C12.  A channel never accepts a packet twice: whatever packets an adversary feeds a fresh
  receiver, the counters of the packets it accepts are pairwise distinct.
\<close>

theorem channel_no_replay:
  "distinct (accepted_counters A (channel_new sid k k') packets)"
  using accepted_counters_fresh [of "channel_new sid k k'" "{}"] window_rel_new
  by (simp add: channel_new_def)

text \<open>
   Forgeries never move the receive state: a rejected packet leaves the channel as it
  was, and an accepted one carries this session's id, a counter the window still admits, and
  a body that the AEAD opened under the receive key with the header as associated data; only
  then is the counter committed.
\<close>

theorem open_packet_authenticates:
  "case open_packet A b packet of
     (Inl e, b') \<Rightarrow> b' = b
   | (Inr (t, p), b') \<Rightarrow> t \<noteq> Open \<and> (\<exists>c. parse_header packet = Ok (t, session_id b, c)
        \<and> check (window b) c
        \<and> ae_open A (recv b) (nonce_for c) (take 18 packet)
            (drop 18 (take (length packet - 16) packet)) (drop (length packet - 16) packet) = Some p
        \<and> b' = b\<lparr>window := fst (commit (window b) c)\<rparr>)"
proof (cases "open_packet A b packet")
  case (Pair r b')
  show ?thesis
  proof (cases r)
    case (Inl e)
    then show ?thesis
      using Pair open_packet_Err [of A b packet e b'] by simp
  next
    case (Inr v)
    then show ?thesis
      using Pair
      by (auto simp: open_packet_def Let_def wire_consts
          split: sum.splits prod.splits if_splits option.splits bool.splits)
  qed
qed

text \<open>
  C14.  The DATA plaintext codec is exact: encoding an address and payload succeeds with some
  bytes precisely when decoding those bytes gives the same address and payload back.
\<close>

theorem data_plaintext_exact:
  "encode_data_plaintext address payload = Ok bs \<longleftrightarrow> decode_data bs = Ok (address, payload)"
proof
  assume "encode_data_plaintext address payload = Ok bs"
  then show "decode_data bs = Ok (address, payload)"
    by (cases address; cases "sa_ip address")
       (auto simp: encode_data_plaintext_def decode_data_def decode_ip_def ADDRESS_IPV4_def
          ADDRESS_IPV6_def Let_def split: if_splits)
next
  assume "decode_data bs = Ok (address, payload)"
  then show "encode_data_plaintext address payload = Ok bs"
    by (auto simp: decode_data_def decode_ip_def encode_data_plaintext_def result_simps be_simps Let_def
          split: list.splits if_splits)
qed

end
