(* ===== verification/Udp_Frag.thy ===== *)
theory Udp_Frag
  imports Udp_Wire "HOL-Library.Multiset"
begin

text \<open>
  Fragmentation and bounded reassembly of \<open>src/protocol/handoff/udp/frag.rs\<close>.  The eviction
  loop of \<open>insert\<close> runs forever when \<open>max_groups\<close> is zero, so \<open>evict_groups\<close> is a partial
  function and \<open>insert_fragment\<close> returns \<open>None\<close> where the code does not return.
\<close>

section \<open>Slices and vectors\<close>

text \<open>\<open>slice::chunks\<close>; the source only calls it with a non-zero size.\<close>

function chunks_of :: "nat \<Rightarrow> bytes \<Rightarrow> bytes list" where
  "chunks_of n xs = (if xs = [] \<or> n = 0 then [] else take n xs # chunks_of n (drop n xs))"
  by pat_completeness auto

termination chunks_of
  by (relation "measure (\<lambda>(n, xs). length xs)") auto

declare chunks_of.simps [simp del]

definition div_ceil :: "nat \<Rightarrow> nat \<Rightarrow> nat" where
  "div_ceil a b = (a + b - 1) div b"

text \<open>\<open>Vec::swap_remove\<close>, \<open>Iterator::position\<close> and \<open>Iterator::min_by_key\<close> (first minimum).\<close>

definition swap_remove :: "'a list \<Rightarrow> nat \<Rightarrow> 'a list" where
  "swap_remove xs i = (butlast xs)[i := last xs]"

fun position :: "('a \<Rightarrow> bool) \<Rightarrow> 'a list \<Rightarrow> nat option" where
  "position P [] = None"
| "position P (x # xs) = (if P x then Some 0 else map_option Suc (position P xs))"

fun min_by_key :: "('a \<Rightarrow> nat) \<Rightarrow> 'a list \<Rightarrow> 'a option" where
  "min_by_key f [] = None"
| "min_by_key f (x # xs) =
    (case min_by_key f xs of
       None \<Rightarrow> Some x
     | Some y \<Rightarrow> if f y < f x then Some y else Some x)"

section \<open>Splitting\<close>

definition MAX_FRAGMENTS :: nat where "MAX_FRAGMENTS = 16"

record reassembly_limits =
  max_groups :: nat
  max_bytes :: nat
  timeout :: time

definition limits_default :: reassembly_limits where
  "limits_default = \<lparr>max_groups = 8, max_bytes = 4 * MAX_DATA_PLAINTEXT_LEN, timeout = 3000000000\<rparr>"

definition fragment_bytes :: "u32 \<Rightarrow> nat \<Rightarrow> nat \<Rightarrow> bytes \<Rightarrow> bytes" where
  "fragment_bytes fragment_id index cnt chunk =
    u32_be fragment_id @ [of_nat index, of_nat cnt] @ chunk"

definition split_fragments :: "u32 \<Rightarrow> bytes \<Rightarrow> nat \<Rightarrow> udp_packet_error + bytes list" where
  "split_fragments fragment_id plaintext max_chunk =
    (if plaintext = [] \<or> length plaintext > MAX_DATA_PLAINTEXT_LEN \<or> max_chunk = 0 then Err Length
     else let cnt = div_ceil (length plaintext) max_chunk
          in if cnt > MAX_FRAGMENTS then Err Length
             else Ok (map (\<lambda>(index, chunk). fragment_bytes fragment_id index cnt chunk)
                        (enumerate 0 (chunks_of max_chunk plaintext))))"

section \<open>The reassembler\<close>

record frag_group =
  grp_id :: u32
  grp_count :: nat
  grp_chunks :: "bytes option list"
  grp_received :: nat
  grp_bytes :: nat
  grp_started :: time

record reassembler =
  limits :: reassembly_limits
  groups :: "frag_group list"
  buffered :: nat
  dropped :: nat

definition reassembler_new :: "reassembly_limits \<Rightarrow> reassembler" where
  "reassembler_new lim = \<lparr>limits = lim, groups = [], buffered = 0, dropped = 0\<rparr>"

definition remove_group :: "reassembler \<Rightarrow> nat \<Rightarrow> reassembler" where
  "remove_group r index =
    r\<lparr>groups := swap_remove (groups r) index,
      buffered := buffered r - grp_bytes (groups r ! index)\<rparr>"

definition drop_group :: "reassembler \<Rightarrow> nat \<Rightarrow> reassembler" where
  "drop_group r index = (let r' = remove_group r index in r'\<lparr>dropped := dropped r' + 1\<rparr>)"

text \<open>The index loop of \<open>expire\<close>.\<close>

lemma length_swap_remove [simp]: "length (swap_remove xs i) = length xs - 1"
  by (simp add: swap_remove_def)

lemma length_groups_drop [simp]: "length (groups (drop_group r i)) = length (groups r) - 1"
  by (simp add: drop_group_def remove_group_def Let_def)

function expire_from :: "reassembler \<Rightarrow> time \<Rightarrow> nat \<Rightarrow> reassembler" where
  "expire_from r now index =
    (if index < length (groups r)
     then if now - grp_started (groups r ! index) \<ge> timeout (limits r)
          then expire_from (drop_group r index) now index
          else expire_from r now (index + 1)
     else r)"
  by pat_completeness auto

termination expire_from
  by (relation "measure (\<lambda>(r, now, index). length (groups r) - index)") auto

declare expire_from.simps [simp del]

definition expire :: "reassembler \<Rightarrow> time \<Rightarrow> reassembler" where
  "expire r now = expire_from r now 0"

definition evict_oldest :: "reassembler \<Rightarrow> reassembler" where
  "evict_oldest r =
    (case min_by_key (\<lambda>(_, g). grp_started g) (enumerate 0 (groups r)) of
       None \<Rightarrow> r
     | Some (index, _) \<Rightarrow> drop_group r index)"

text \<open>\<open>while self.groups.len() >= self.limits.max_groups\<close>.\<close>

partial_function (option) evict_groups :: "reassembler \<Rightarrow> reassembler option" where
  "evict_groups r =
    (if length (groups r) \<ge> max_groups (limits r) then evict_groups (evict_oldest r) else Some r)"

definition oldest_other :: "reassembler \<Rightarrow> u32 \<Rightarrow> nat option" where
  "oldest_other r fid =
    map_option fst (min_by_key (\<lambda>(_, g). grp_started g)
      (filter (\<lambda>(_, g). grp_id g \<noteq> fid) (enumerate 0 (groups r))))"

text \<open>
  The loop that frees bytes for a chunk of \<open>need\<close> bytes.  The answer is \<open>False\<close> when no other
  group is left to drop; then the own group is gone.
\<close>

lemma min_by_key_SomeD: "min_by_key f xs = Some x \<Longrightarrow> x \<in> set xs"
  by (induction xs arbitrary: x) (auto split: option.splits if_splits)

lemma min_by_key_None [simp]: "min_by_key f xs = None \<longleftrightarrow> xs = []"
  by (cases xs) (auto split: option.splits)

lemma oldest_other_SomeD:
  "oldest_other r fid = Some i \<Longrightarrow> i < length (groups r) \<and> grp_id (groups r ! i) \<noteq> fid"
  by (auto simp: oldest_other_def in_set_enumerate_eq dest!: min_by_key_SomeD)

function make_room :: "reassembler \<Rightarrow> u32 \<Rightarrow> nat \<Rightarrow> reassembler \<times> bool" where
  "make_room r fid need =
    (if buffered r + need > max_bytes (limits r)
     then case oldest_other r fid of
            Some other \<Rightarrow> make_room (drop_group r other) fid need
          | None \<Rightarrow>
             (let r' = (case position (\<lambda>g. grp_id g = fid) (groups r) of
                          Some own \<Rightarrow> remove_group r own
                        | None \<Rightarrow> r)
              in (r'\<lparr>dropped := dropped r' + 1\<rparr>, False))
     else (r, True))"
  by pat_completeness auto

termination make_room
  by (relation "measure (\<lambda>(r, fid, need). length (groups r))") (auto dest!: oldest_other_SomeD)

declare make_room.simps [simp del]

text \<open>Storing a chunk in the group with this id, and delivering the group when it is complete.\<close>

definition store_chunk ::
  "reassembler \<Rightarrow> u32 \<Rightarrow> nat \<Rightarrow> bytes \<Rightarrow> (udp_packet_error + bytes option) \<times> reassembler"
where
  "store_chunk r fid index chunk =
    (case position (\<lambda>g. grp_id g = fid) (groups r) of
       None \<Rightarrow> (Err Length, r)
     | Some pos \<Rightarrow>
        (let g = groups r ! pos;
             g' = g\<lparr>grp_chunks := (grp_chunks g)[index := Some chunk],
                    grp_received := grp_received g + 1,
                    grp_bytes := grp_bytes g + length chunk\<rparr>;
             r' = r\<lparr>groups := (groups r)[pos := g'], buffered := buffered r + length chunk\<rparr>
         in if grp_received g' < grp_count g' then (Ok None, r')
            else (Ok (Some (concat (map the (filter (\<lambda>c. c \<noteq> None) (grp_chunks g'))))),
                  remove_group r' pos)))"

definition insert_chunk ::
  "reassembler \<Rightarrow> nat \<Rightarrow> u32 \<Rightarrow> nat \<Rightarrow> nat \<Rightarrow> bytes
   \<Rightarrow> (udp_packet_error + bytes option) \<times> reassembler"
where
  "insert_chunk r pos fid index cnt chunk =
    (if grp_count (groups r ! pos) \<noteq> cnt then (Ok None, drop_group r pos)
     else if grp_chunks (groups r ! pos) ! index \<noteq> None then (Ok None, r)
     else if grp_bytes (groups r ! pos) + length chunk > MAX_DATA_PLAINTEXT_LEN
     then (Ok None, drop_group r pos)
     else case make_room r fid (length chunk) of
            (r', False) \<Rightarrow> (Ok None, r')
          | (r', True) \<Rightarrow> store_chunk r' fid index chunk)"

definition fresh_group :: "u32 \<Rightarrow> nat \<Rightarrow> time \<Rightarrow> frag_group" where
  "fresh_group fid cnt now =
    \<lparr>grp_id = fid, grp_count = cnt, grp_chunks = replicate cnt None, grp_received = 0,
     grp_bytes = 0, grp_started = now\<rparr>"

definition insert_fragment ::
  "reassembler \<Rightarrow> bytes \<Rightarrow> time \<Rightarrow> ((udp_packet_error + bytes option) \<times> reassembler) option"
where
  "insert_fragment r0 fragment now =
    (let r = expire r0 now in
     if length fragment \<le> FRAG_HEADER_LEN then Some (Err Length, r)
     else
      let fid = be_u32 (take 4 fragment);
          index = unat (fragment ! 4);
          cnt = unat (fragment ! 5);
          chunk = drop FRAG_HEADER_LEN fragment
      in if \<not> (2 \<le> cnt \<and> cnt \<le> MAX_FRAGMENTS) \<or> index \<ge> cnt then Some (Err Length, r)
         else if length chunk > MAX_DATA_PLAINTEXT_LEN \<or> length chunk > max_bytes (limits r)
         then Some (Err Length, r)
         else case position (\<lambda>g. grp_id g = fid) (groups r) of
                Some pos \<Rightarrow> Some (insert_chunk r pos fid index cnt chunk)
              | None \<Rightarrow>
                 (case evict_groups r of
                    None \<Rightarrow> None
                  | Some r' \<Rightarrow>
                     (let r'' = r'\<lparr>groups := groups r' @ [fresh_group fid cnt now]\<rparr>
                      in Some (insert_chunk r'' (length (groups r'') - 1) fid index cnt chunk))))"

section \<open>Lists\<close>

lemma mset_swap_remove:
  assumes "i < length xs"
  shows "mset (swap_remove xs i) = mset xs - {#xs ! i#}"
proof -
  have xs: "xs = butlast xs @ [last xs]"
    using assms by (cases xs) simp_all
  show ?thesis
  proof (cases "i < length (butlast xs)")
    case True
    then have "xs ! i = butlast xs ! i"
      by (simp add: nth_butlast)
    moreover have "mset xs = mset (butlast xs) + {#last xs#}"
      by (subst xs) simp
    ultimately show ?thesis
      using True by (simp add: swap_remove_def mset_update)
  next
    case False
    then have "i = length (butlast xs)"
      using assms by simp
    then have "xs ! i = last xs"
      using assms by (cases "xs = []") (simp_all add: last_conv_nth)
    then show ?thesis
      using False by (subst xs) (simp add: swap_remove_def list_update_beyond)
  qed
qed

lemma mset_swap_remove_add:
  "i < length xs \<Longrightarrow> mset xs = add_mset (xs ! i) (mset (swap_remove xs i))"
  by (simp add: mset_swap_remove)

lemma set_swap_remove: "i < length xs \<Longrightarrow> set (swap_remove xs i) \<subseteq> set xs"
  using mset_swap_remove_add [of i xs] by (metis set_mset_add_mset_insert set_mset_mset subset_insertI)

lemma sum_swap_remove:
  fixes f :: "'a \<Rightarrow> nat"
  assumes "i < length xs"
  shows "sum_list (map f xs) = f (xs ! i) + sum_list (map f (swap_remove xs i))"
proof -
  have "sum_mset (image_mset f (mset xs)) = f (xs ! i) + sum_mset (image_mset f (mset (swap_remove xs i)))"
    using mset_swap_remove_add [OF assms] by simp
  then show ?thesis
    by (simp flip: sum_mset_sum_list)
qed

lemma distinct_swap_remove:
  assumes "i < length xs" and "distinct (map f xs)"
  shows "distinct (map f (swap_remove xs i))" "f (xs ! i) \<notin> f ` set (swap_remove xs i)"
proof -
  have "mset (map f xs) = add_mset (f (xs ! i)) (mset (map f (swap_remove xs i)))"
    using mset_swap_remove_add [OF assms(1)] by simp
  then have "distinct (f (xs ! i) # map f (swap_remove xs i))"
    using assms(2) by (metis mset.simps(2) mset_eq_imp_distinct_iff)
  then show "distinct (map f (swap_remove xs i))" "f (xs ! i) \<notin> f ` set (swap_remove xs i)"
    by simp_all
qed

lemma position_Some:
  "position P xs = Some i \<Longrightarrow> i < length xs \<and> P (xs ! i)"
  by (induction xs arbitrary: i) (auto split: if_splits)

lemma position_None [simp]: "position P xs = None \<longleftrightarrow> (\<forall>x \<in> set xs. \<not> P x)"
  by (induction xs) auto

section \<open>The invariant\<close>

definition chunk_bytes :: "bytes option list \<Rightarrow> nat" where
  "chunk_bytes cs = sum_list (map (\<lambda>c. case c of None \<Rightarrow> 0 | Some b \<Rightarrow> length b) cs)"

definition stored :: "bytes option list \<Rightarrow> nat" where
  "stored cs = length (filter (\<lambda>c. c \<noteq> None) cs)"

definition group_ok :: "frag_group \<Rightarrow> bool" where
  "group_ok g \<longleftrightarrow> 2 \<le> grp_count g \<and> grp_count g \<le> MAX_FRAGMENTS
     \<and> length (grp_chunks g) = grp_count g
     \<and> grp_received g = stored (grp_chunks g) \<and> grp_received g < grp_count g
     \<and> grp_bytes g = chunk_bytes (grp_chunks g) \<and> grp_bytes g \<le> MAX_DATA_PLAINTEXT_LEN"

definition reassembler_ok :: "reassembler \<Rightarrow> bool" where
  "reassembler_ok r \<longleftrightarrow> (\<forall>g \<in> set (groups r). group_ok g)
     \<and> distinct (map grp_id (groups r))
     \<and> buffered r = sum_list (map grp_bytes (groups r))
     \<and> buffered r \<le> max_bytes (limits r)
     \<and> length (groups r) \<le> max_groups (limits r)"

lemma reassembler_ok_new [simp]: "reassembler_ok (reassembler_new lim)"
  by (simp add: reassembler_ok_def reassembler_new_def)

lemma limits_remove [simp]:
  "limits (remove_group r i) = limits r" "limits (drop_group r i) = limits r"
  by (simp_all add: remove_group_def drop_group_def Let_def)

lemma reassembler_ok_remove:
  assumes ok: "reassembler_ok r" and i: "i < length (groups r)"
  shows "reassembler_ok (remove_group r i)"
  using ok sum_swap_remove [OF i, of grp_bytes] set_swap_remove [OF i] distinct_swap_remove [OF i, of grp_id]
  by (auto simp: reassembler_ok_def remove_group_def)

lemma reassembler_ok_dropped [simp]: "reassembler_ok (r\<lparr>dropped := n\<rparr>) = reassembler_ok r"
  by (simp add: reassembler_ok_def)

lemma reassembler_ok_drop:
  "reassembler_ok r \<Longrightarrow> i < length (groups r) \<Longrightarrow> reassembler_ok (drop_group r i)"
  by (simp add: drop_group_def reassembler_ok_remove Let_def)

lemma expire_from_ok: "reassembler_ok r \<Longrightarrow> reassembler_ok (expire_from r now i)"
  by (induction r now i rule: expire_from.induct)
     (subst expire_from.simps, auto simp: reassembler_ok_drop)

lemma limits_expire_from [simp]: "limits (expire_from r now i) = limits r"
  by (induction r now i rule: expire_from.induct) (subst expire_from.simps, auto)

lemma set_groups_drop: "i < length (groups r) \<Longrightarrow> set (groups (drop_group r i)) \<subseteq> set (groups r)"
  by (simp add: drop_group_def remove_group_def set_swap_remove Let_def)

lemma evict_oldest_cases:
  "groups r = [] \<and> evict_oldest r = r \<or> (\<exists>i < length (groups r). evict_oldest r = drop_group r i)"
proof (cases "min_by_key (\<lambda>(_, g). grp_started g) (enumerate 0 (groups r))")
  case None
  then have "enumerate 0 (groups r) = []"
    by simp
  then have "groups r = []"
    by (metis length_enumerate length_0_conv)
  then show ?thesis
    by (simp add: evict_oldest_def)
next
  case (Some ig)
  then show ?thesis
    by (cases ig) (auto simp: evict_oldest_def in_set_enumerate_eq dest!: min_by_key_SomeD)
qed

lemma evict_oldest_ok:
  assumes "reassembler_ok r"
  shows "reassembler_ok (evict_oldest r)" "limits (evict_oldest r) = limits r"
    "length (groups (evict_oldest r)) = length (groups r) - 1"
    "set (groups (evict_oldest r)) \<subseteq> set (groups r)"
  using assms evict_oldest_cases [of r]
  by (auto intro: reassembler_ok_drop dest: subsetD [OF set_groups_drop])

lemma evict_oldest_shrinks:
  "limits (evict_oldest r) = limits r" "length (groups (evict_oldest r)) = length (groups r) - 1"
  using evict_oldest_cases [of r] by auto

lemma evict_groups_bound:
  "evict_groups r = Some r' \<Longrightarrow> length (groups r') < max_groups (limits r)"
  by (rule evict_groups.raw_induct [of "\<lambda>r r'. length (groups r') < max_groups (limits r)"])
     (auto split: if_splits, metis evict_oldest_shrinks(1))

lemma evict_groups_defined:
  "0 < max_groups (limits r) \<Longrightarrow> \<exists>r'. evict_groups r = Some r'"
proof (induction "length (groups r)" arbitrary: r rule: less_induct)
  case less
  then show ?case
    using less.hyps [of "evict_oldest r"]
    by (subst evict_groups.simps) (auto simp: evict_oldest_shrinks)
qed

lemma evict_groups_total:
  assumes "0 < max_groups (limits r)" and "reassembler_ok r"
  shows "\<exists>r'. evict_groups r = Some r' \<and> reassembler_ok r' \<and> limits r' = limits r
     \<and> length (groups r') < max_groups (limits r) \<and> set (groups r') \<subseteq> set (groups r)"
  using assms
proof (induction "length (groups r)" arbitrary: r rule: less_induct)
  case less
  show ?case
  proof (cases "length (groups r) \<ge> max_groups (limits r)")
    case True
    then have "length (groups (evict_oldest r)) < length (groups r)"
      using less.prems evict_oldest_ok(3) [OF less.prems(2)] by simp
    from less.hyps [OF this] obtain r' where "evict_groups (evict_oldest r) = Some r'"
      "reassembler_ok r'" "limits r' = limits r" "length (groups r') < max_groups (limits r)"
      "set (groups r') \<subseteq> set (groups r)"
      using less.prems evict_oldest_ok [OF less.prems(2)] by auto
    then show ?thesis
      using True by (subst evict_groups.simps) simp
  next
    case False
    then show ?thesis
      using less.prems by (subst evict_groups.simps) auto
  qed
qed

lemma drop_keeps:
  assumes i: "i < length (groups r)" and g: "g \<in> set (groups r)" "grp_id g \<noteq> grp_id (groups r ! i)"
  shows "g \<in> set (groups (drop_group r i))"
proof -
  have "set (groups r) = Set.insert (groups r ! i) (set (groups (drop_group r i)))"
    using mset_swap_remove_add [OF i]
    by (metis (no_types, lifting) drop_group_def remove_group_def reassembler.select_convs(2)
        reassembler.surjective reassembler.update_convs(2,3,4) set_mset_add_mset_insert set_mset_mset)
  then show ?thesis
    using g by auto
qed

lemma make_room_ok:
  assumes "reassembler_ok r" and "make_room r fid need = (r', ok)"
  shows "reassembler_ok r' \<and> limits r' = limits r
    \<and> (ok \<longrightarrow> buffered r' + need \<le> max_bytes (limits r) \<and> set (groups r') \<subseteq> set (groups r)
         \<and> (\<forall>g \<in> set (groups r). grp_id g = fid \<longrightarrow> g \<in> set (groups r')))"
  using assms
proof (induction r fid need rule: make_room.induct)
  case (1 r fid need)
  show ?case
  proof (cases "buffered r + need > max_bytes (limits r)")
    case full: True
    show ?thesis
    proof (cases "oldest_other r fid")
      case None
      then show ?thesis
        using 1(2,3) full
        by (subst (asm) make_room.simps)
           (auto simp: Let_def reassembler_ok_remove split: option.splits dest!: position_Some)
    next
      case (Some i)
      note i = oldest_other_SomeD [OF Some]
      have "make_room (drop_group r i) fid need = (r', ok)"
        using 1(3) full Some by (subst (asm) make_room.simps) simp
      with 1(1) [OF full Some] 1(2) i show ?thesis
        using drop_keeps [of i r] set_groups_drop [of i r] by (auto simp: reassembler_ok_drop)
    qed
  next
    case False
    then show ?thesis
      using 1(2,3) by (subst (asm) make_room.simps) auto
  qed
qed

lemma chunk_bytes_update:
  assumes "i < length cs" and "cs ! i = None"
  shows "chunk_bytes (cs[i := Some c]) = chunk_bytes cs + length c"
    and "stored (cs[i := Some c]) = Suc (stored cs)"
proof -
  have cs: "cs = take i cs @ None # drop (Suc i) cs"
    using assms by (metis id_take_nth_drop)
  have up: "cs[i := Some c] = take i cs @ Some c # drop (Suc i) cs"
    using assms(1) by (rule upd_conv_take_nth_drop)
  show "chunk_bytes (cs[i := Some c]) = chunk_bytes cs + length c"
    unfolding up by (subst (3) cs) (simp add: chunk_bytes_def)
  show "stored (cs[i := Some c]) = Suc (stored cs)"
    unfolding up by (subst (3) cs) (simp add: stored_def)
qed

definition add_chunk :: "frag_group \<Rightarrow> nat \<Rightarrow> bytes \<Rightarrow> frag_group" where
  "add_chunk g index chunk =
    g\<lparr>grp_chunks := (grp_chunks g)[index := Some chunk], grp_received := grp_received g + 1,
      grp_bytes := grp_bytes g + length chunk\<rparr>"

lemma group_ok_add:
  assumes "group_ok g" and "index < grp_count g" and "grp_chunks g ! index = None"
    and "grp_bytes g + length chunk \<le> MAX_DATA_PLAINTEXT_LEN" and "grp_received g + 1 < grp_count g"
  shows "group_ok (add_chunk g index chunk)"
  using assms chunk_bytes_update [of index "grp_chunks g" chunk]
  by (simp add: group_ok_def add_chunk_def)

lemma sum_list_update_nat:
  fixes f :: "'a \<Rightarrow> nat"
  shows "i < length xs \<Longrightarrow> sum_list (map f (xs[i := x])) + f (xs ! i) = sum_list (map f xs) + f x"
  by (induction xs arbitrary: i) (auto split: nat.splits)

lemma reassembler_ok_store:
  assumes ok: "reassembler_ok r" and pos: "pos < length (groups r)"
    and g: "grp_id g' = grp_id (groups r ! pos)" "group_ok g' \<or> rm"
    and bytes: "grp_bytes g' = grp_bytes (groups r ! pos) + n" "buffered r + n \<le> max_bytes (limits r)"
  defines "r' \<equiv> r\<lparr>groups := (groups r)[pos := g'], buffered := buffered r + n\<rparr>"
  shows "\<not> rm \<Longrightarrow> reassembler_ok r'" and "reassembler_ok (remove_group r' pos)"
proof -
  have ids: "map grp_id (groups r') = map grp_id (groups r)"
    using pos g(1) by (simp add: r'_def list_eq_iff_nth_eq nth_list_update)
  have sum: "sum_list (map grp_bytes (groups r')) = buffered r'"
    using sum_list_update_nat [OF pos, of grp_bytes g'] ok bytes(1)
    by (simp add: r'_def reassembler_ok_def)
  have len: "length (groups r') = length (groups r)" "limits r' = limits r"
    "buffered r' \<le> max_bytes (limits r)"
    using bytes by (simp_all add: r'_def)
  show "reassembler_ok r'" if "\<not> rm"
    using that ok g(2) ids sum len set_update_subset_insert [of "groups r" pos g']
    by (auto simp: reassembler_ok_def r'_def)
  have pos': "pos < length (groups r')"
    using pos len by simp
  have "swap_remove (groups r') pos = swap_remove (groups r) pos"
    using pos by (cases "groups r" rule: rev_cases)
       (auto simp: r'_def swap_remove_def list_update_append butlast_append nth_append list_update_beyond
          not_less split: if_splits)
  then have "\<forall>x \<in> set (swap_remove (groups r') pos). group_ok x"
    using set_swap_remove [OF pos] ok by (auto simp: reassembler_ok_def)
  then show "reassembler_ok (remove_group r' pos)"
    using sum_swap_remove [OF pos', of grp_bytes] distinct_swap_remove [OF pos', of grp_id] ids sum len ok
    by (auto simp: reassembler_ok_def remove_group_def)
qed

lemma store_chunk_eq:
  fixes index :: nat and chunk :: bytes
  assumes pos: "position (\<lambda>g. grp_id g = fid) (groups r) = Some pos"
  defines "g \<equiv> groups r ! pos"
  defines "r' \<equiv> r\<lparr>groups := (groups r)[pos := add_chunk g index chunk],
                     buffered := buffered r + length chunk\<rparr>"
  shows "store_chunk r fid index chunk =
    (if grp_received g + 1 < grp_count g then (Ok None, r')
     else (Ok (Some (concat (map the (filter (\<lambda>c. c \<noteq> None) ((grp_chunks g)[index := Some chunk]))))),
           remove_group r' pos))"
  using pos by (simp add: store_chunk_def add_chunk_def Let_def g_def r'_def)

lemma store_chunk_ok:
  assumes ok: "reassembler_ok r" and room: "buffered r + length chunk \<le> max_bytes (limits r)"
    and own: "g \<in> set (groups r)" "grp_id g = fid"
    and idx: "index < grp_count g" "grp_chunks g ! index = None"
      "grp_bytes g + length chunk \<le> MAX_DATA_PLAINTEXT_LEN"
    and st: "store_chunk r fid index chunk = (res, r')"
  shows "reassembler_ok r' \<and> limits r' = limits r \<and> (\<exists>v. res = Ok v)"
proof -
  obtain pos where p: "position (\<lambda>g. grp_id g = fid) (groups r) = Some pos"
    using own by (cases "position (\<lambda>g. grp_id g = fid) (groups r)") auto
  have pos: "pos < length (groups r)" "grp_id (groups r ! pos) = fid"
    using position_Some [OF p] by auto
  have g: "groups r ! pos = g"
    using ok own pos by (auto simp: reassembler_ok_def distinct_map inj_on_def)
  have gok: "group_ok g"
    using ok own(1) by (simp add: reassembler_ok_def)
  let ?g = "add_chunk g index chunk"
  have id: "grp_id ?g = grp_id (groups r ! pos)" "grp_bytes ?g = grp_bytes (groups r ! pos) + length chunk"
    using pos(2) own(2) g by (simp_all add: add_chunk_def)
  show ?thesis
  proof (cases "grp_received g + 1 < grp_count g")
    case True
    have "group_ok ?g \<or> False"
      using group_ok_add [OF gok idx True] by simp
    from reassembler_ok_store(1) [OF ok pos(1) id(1) this id(2) room] show ?thesis
      using st True g by (auto simp: store_chunk_eq [OF p])
  next
    case False
    from reassembler_ok_store(2) [OF ok pos(1) id(1) _ id(2) room, of True] show ?thesis
      using st False g by (auto simp: store_chunk_eq [OF p])
  qed
qed

lemma insert_chunk_ok:
  assumes ok: "reassembler_ok r" and pos: "pos < length (groups r)" "grp_id (groups r ! pos) = fid"
    and idx: "index < cnt" and st: "insert_chunk r pos fid index cnt chunk = (res, r')"
  shows "reassembler_ok r' \<and> limits r' = limits r \<and> (\<exists>v. res = Ok v)"
proof -
  let ?g = "groups r ! pos"
  consider (mismatch) "grp_count ?g \<noteq> cnt"
    | (dup) "grp_count ?g = cnt" "grp_chunks ?g ! index \<noteq> None"
    | (big) "grp_count ?g = cnt" "grp_chunks ?g ! index = None"
        "MAX_DATA_PLAINTEXT_LEN < grp_bytes ?g + length chunk"
    | (fit) "grp_count ?g = cnt" "grp_chunks ?g ! index = None"
        "grp_bytes ?g + length chunk \<le> MAX_DATA_PLAINTEXT_LEN"
    by linarith
  then show ?thesis
  proof cases
    case fit
    obtain r1 b where room: "make_room r fid (length chunk) = (r1, b)"
      by fastforce
    note r1 = make_room_ok [OF ok room]
    show ?thesis
    proof (cases b)
      case True
      then have "store_chunk r1 fid index chunk = (res, r')"
        using st fit room by (simp add: insert_chunk_def)
      moreover have "?g \<in> set (groups r1)"
        using r1 True pos by simp
      ultimately show ?thesis
        using store_chunk_ok [of r1 chunk ?g fid index res r'] r1 True fit pos(2) idx by simp
    next
      case False
      then show ?thesis
        using st fit room r1 by (auto simp: insert_chunk_def)
    qed
  qed (use st ok pos(1) in \<open>auto simp: insert_chunk_def reassembler_ok_drop\<close>)
qed

lemma grp_id_fresh [simp]: "grp_id (fresh_group fid cnt now) = fid"
  by (simp add: fresh_group_def)

lemma group_ok_fresh: "2 \<le> cnt \<Longrightarrow> cnt \<le> MAX_FRAGMENTS \<Longrightarrow> group_ok (fresh_group fid cnt now)"
  by (simp add: group_ok_def fresh_group_def stored_def chunk_bytes_def)

lemma reassembler_ok_push:
  assumes "reassembler_ok r" and "length (groups r) < max_groups (limits r)"
    and "\<forall>g \<in> set (groups r). grp_id g \<noteq> fid" and "2 \<le> cnt" and "cnt \<le> MAX_FRAGMENTS"
  shows "reassembler_ok (r\<lparr>groups := groups r @ [fresh_group fid cnt now]\<rparr>)"
  using assms group_ok_fresh [of cnt fid now]
  by (auto simp: reassembler_ok_def fresh_group_def)

lemma expire_ok: "reassembler_ok r \<Longrightarrow> reassembler_ok (expire r now)" "limits (expire r now) = limits r"
  by (simp_all add: expire_def expire_from_ok)

section \<open>Delivery of one split datagram\<close>

lemma concat_chunks_of: "0 < n \<Longrightarrow> concat (chunks_of n xs) = xs"
  by (induction n xs rule: chunks_of.induct) (subst chunks_of.simps, auto)

lemma chunks_of_nonempty: "c \<in> set (chunks_of n xs) \<Longrightarrow> c \<noteq> []"
  by (induction n xs rule: chunks_of.induct) (subst (asm) (2) chunks_of.simps, auto split: if_splits)

lemma length_chunks_of: "0 < n \<Longrightarrow> length (chunks_of n xs) = div_ceil (length xs) n"
proof (induction n xs rule: chunks_of.induct)
  case (1 n xs)
  show ?case
  proof (cases "xs = []")
    case True
    then show ?thesis
      using 1(2) by (subst chunks_of.simps) (simp add: div_ceil_def)
  next
    case False
    have "length (chunks_of n xs) = Suc (div_ceil (length xs - n) n)"
      using 1 False by (subst chunks_of.simps) simp
    also have "\<dots> = div_ceil (length xs) n"
    proof (cases "length xs \<le> n")
      case True
      moreover have "1 \<le> length xs"
        using False by (simp add: Suc_le_eq)
      ultimately have "(length xs + n - 1) div n = 1"
        using 1(2) by (intro div_nat_eqI) simp_all
      then show ?thesis
        using True 1(2) by (simp add: div_ceil_def)
    next
      case False
      then have eq: "length xs - 1 + n = length xs + n - 1" "length xs - n + n - 1 = length xs - 1"
        using \<open>0 < n\<close> by linarith+
      show ?thesis
        using div_add_self2 [of n "length xs - 1"] \<open>0 < n\<close> unfolding eq(1) div_ceil_def eq(2) by simp
    qed
    finally show ?thesis .
  qed
qed

text \<open>The state in which precisely the chunks with index in \<open>I\<close> have arrived.\<close>

definition partial_group :: "u32 \<Rightarrow> time \<Rightarrow> bytes list \<Rightarrow> nat set \<Rightarrow> frag_group" where
  "partial_group fid t0 cs I =
    \<lparr>grp_id = fid, grp_count = length cs,
     grp_chunks = map (\<lambda>i. if i \<in> I then Some (cs ! i) else None) [0..<length cs],
     grp_received = card I, grp_bytes = (\<Sum>i \<in> I. length (cs ! i)), grp_started = t0\<rparr>"

definition partial_state :: "reassembly_limits \<Rightarrow> u32 \<Rightarrow> time \<Rightarrow> bytes list \<Rightarrow> nat set \<Rightarrow> reassembler" where
  "partial_state lim fid t0 cs I =
    (if I = {} then reassembler_new lim
     else \<lparr>limits = lim, groups = [partial_group fid t0 cs I],
           buffered = (\<Sum>i \<in> I. length (cs ! i)), dropped = 0\<rparr>)"

lemma bytes_le:
  assumes "I \<subseteq> {..<length cs}"
  shows "(\<Sum>i \<in> I. length (cs ! i)) \<le> length (concat cs)"
proof -
  have "length (concat cs) = (\<Sum>i \<in> {..<length cs}. length (cs ! i))"
    by (simp add: length_concat sum_list_sum_nth atLeast0LessThan)
  then show ?thesis
    using assms by (simp add: sum_mono2)
qed

lemma partial_chunks_full: "concat (map the (filter (\<lambda>c. c \<noteq> None) (map (\<lambda>i. Some (cs ! i)) [0..<length cs]))) = concat cs"
proof -
  have "map the (map (\<lambda>i. Some (cs ! i)) [0..<length cs]) = cs"
    by (simp add: map_nth comp_def)
  then show ?thesis
    by (simp add: filter_map comp_def)
qed

lemma partial_group_add:
  assumes "I \<subseteq> {..<length cs}" and "i < length cs" and "i \<notin> I"
  shows "add_chunk (partial_group fid t0 cs I) i (cs ! i) = partial_group fid t0 cs (Set.insert i I)"
proof -
  let ?chunk = "\<lambda>J j. if j \<in> J then Some (cs ! j) else None"
  have "(map (?chunk I) [0..<length cs])[i := Some (cs ! i)] = map (?chunk (Set.insert i I)) [0..<length cs]"
    using assms(2) by (intro nth_equalityI) (auto simp: nth_list_update)
  moreover have "finite I"
    using assms(1) finite_subset by blast
  ultimately show ?thesis
    using assms(3) by (simp add: add_chunk_def partial_group_def)
qed

lemma swap_remove_single [simp]: "swap_remove [x] 0 = []"
  by (simp add: swap_remove_def)

lemma insert_chunk_partial:
  fixes cs :: "bytes list"
  defines "n \<equiv> length cs"
  assumes I: "I \<subseteq> {..<n}" and i: "i < n" "i \<notin> I"
    and lim: "length (concat cs) \<le> max_bytes lim" "length (concat cs) \<le> MAX_DATA_PLAINTEXT_LEN"
  shows "insert_chunk \<lparr>limits = lim, groups = [partial_group fid t0 cs I],
           buffered = (\<Sum>i \<in> I. length (cs ! i)), dropped = 0\<rparr> 0 fid i n (cs ! i) =
    (if Suc (card I) < n then (Ok None, partial_state lim fid t0 cs (Set.insert i I))
     else (Ok (Some (concat cs)), reassembler_new lim))"
proof -
  let ?g = "partial_group fid t0 cs I"
  let ?r = "\<lparr>limits = lim, groups = [?g], buffered = (\<Sum>i \<in> I. length (cs ! i)), dropped = 0\<rparr>"
  have fin: "finite I"
    using I finite_subset by blast
  have le: "(\<Sum>i \<in> I. length (cs ! i)) + length (cs ! i) \<le> length (concat cs)"
    using bytes_le [of "Set.insert i I" cs] I i fin by (simp add: n_def)
  have room: "make_room ?r fid (length (cs ! i)) = (?r, True)"
    using le lim by (subst make_room.simps) simp
  have pos: "position (\<lambda>g. grp_id g = fid) (groups ?r) = Some 0"
    by (simp add: partial_group_def)
  have full: "Set.insert i I = {..<n}" if "\<not> Suc (card I) < n"
    using that I i fin by (intro card_seteq) (auto simp: n_def)
  have all: "(grp_chunks ?g)[i := Some (cs ! i)] = map (\<lambda>j. Some (cs ! j)) [0..<length cs]"
    if "\<not> Suc (card I) < n"
  proof (rule nth_equalityI)
    show "(grp_chunks ?g)[i := Some (cs ! i)] ! j = map (\<lambda>j. Some (cs ! j)) [0..<length cs] ! j"
      if "j < length ((grp_chunks ?g)[i := Some (cs ! i)])" for j
      using that full [OF \<open>\<not> Suc (card I) < n\<close>] i
      by (cases "j = i") (auto simp: partial_group_def n_def)
  qed (simp add: partial_group_def)
  have whole: "concat (map the (filter (\<lambda>c. c \<noteq> None) ((grp_chunks ?g)[i := Some (cs ! i)]))) = concat cs"
    if "\<not> Suc (card I) < n"
    unfolding all [OF that] by (rule partial_chunks_full)
  have "insert_chunk ?r 0 fid i n (cs ! i) = store_chunk ?r fid i (cs ! i)"
    using le lim i room by (simp add: insert_chunk_def partial_group_def n_def)
  also have "\<dots> = (if Suc (card I) < n then (Ok None, partial_state lim fid t0 cs (Set.insert i I))
     else (Ok (Some (concat cs)), reassembler_new lim))"
  proof (cases "Suc (card I) < n")
    case True
    then have "grp_received ?g + 1 < grp_count ?g"
      by (simp add: partial_group_def n_def)
    then show ?thesis
      using True partial_group_add [OF I [unfolded n_def] i [unfolded n_def], of fid t0] fin i
      by (simp add: store_chunk_eq [OF pos] partial_state_def add.commute)
  next
    case False
    then have "\<not> grp_received ?g + 1 < grp_count ?g"
      by (simp add: partial_group_def n_def)
    then show ?thesis
      using False whole [OF False]
      by (simp add: store_chunk_eq [OF pos] remove_group_def reassembler_new_def)
         (simp add: add_chunk_def partial_group_def)
  qed
  finally show ?thesis .
qed

lemma expire_from_id:
  "\<forall>g \<in> set (groups r). now - grp_started g < timeout (limits r) \<Longrightarrow> expire_from r now i = r"
  by (induction r now i rule: expire_from.induct) (subst expire_from.simps, auto dest!: bspec [OF _ nth_mem])

lemma fragment_fields:
  assumes "i < 256" and "n < 256"
  shows "be_u32 (take 4 (fragment_bytes fid i n c)) = fid" "unat (fragment_bytes fid i n c ! 4) = i"
    "unat (fragment_bytes fid i n c ! 5) = n" "drop 6 (fragment_bytes fid i n c) = c"
    "length (fragment_bytes fid i n c) = 6 + length c"
  using assms by (simp_all add: fragment_bytes_def nth_append unat_of_nat)

lemma insert_partial:
  fixes cs :: "bytes list"
  defines "n \<equiv> length cs"
  assumes n: "2 \<le> n" "n \<le> 16" and I: "I \<subseteq> {..<n}" and i: "i < n" "i \<notin> I"
    and lim: "length (concat cs) \<le> max_bytes lim" "length (concat cs) \<le> MAX_DATA_PLAINTEXT_LEN"
      "0 < max_groups lim" "now - t0 < timeout lim" "I = {} \<Longrightarrow> t0 = now"
    and ne: "cs ! i \<noteq> []"
  shows "insert_fragment (partial_state lim fid t0 cs I) (fragment_bytes fid i n (cs ! i)) now =
    Some (if Suc (card I) < n then (Ok None, partial_state lim fid t0 cs (Set.insert i I))
          else (Ok (Some (concat cs)), reassembler_new lim))"
proof -
  let ?r = "partial_state lim fid t0 cs I"
  note f = fragment_fields [of i n fid "cs ! i"]
  have small: "i < 256" "n < 256"
    using n i by simp_all
  have lims: "limits ?r = lim"
    by (simp add: partial_state_def reassembler_new_def)
  have ex: "expire ?r now = ?r"
    using lim(4) by (auto simp: expire_def partial_state_def partial_group_def reassembler_new_def
        intro!: expire_from_id)
  have chunk: "length (cs ! i) \<le> length (concat cs)"
    using bytes_le [of "{i}" cs] i by (simp add: n_def)
  show ?thesis
  proof (cases "I = {}")
    case True
    have "partial_group fid t0 cs {} = fresh_group fid n now"
      using lim(5) True
      by (simp add: partial_group_def fresh_group_def n_def map_replicate_const)
    moreover have "evict_groups (reassembler_new lim) = Some (reassembler_new lim)"
      using lim(3) by (subst evict_groups.simps) (simp add: reassembler_new_def)
    ultimately show ?thesis
      using True ex lims f [OF small] n i ne chunk lim insert_chunk_partial [of I cs i lim fid t0]
      by (simp add: insert_fragment_def Let_def MAX_FRAGMENTS_def FRAG_HEADER_LEN_def n_def)
         (simp add: partial_state_def reassembler_new_def)
  next
    case False
    have "position (\<lambda>g. grp_id g = fid) (groups ?r) = Some 0"
      using False by (simp add: partial_state_def partial_group_def)
    then show ?thesis
      using False ex lims f [OF small] n i ne chunk lim I insert_chunk_partial [of I cs i lim fid t0]
      by (simp add: insert_fragment_def Let_def MAX_FRAGMENTS_def FRAG_HEADER_LEN_def n_def)
         (simp add: partial_state_def)
  qed
qed

text \<open>A receiver fed with fragments at given times, all of which it must return from.\<close>

fun feed :: "reassembler \<Rightarrow> (bytes \<times> time) list
    \<Rightarrow> ((udp_packet_error + bytes option) list \<times> reassembler) option" where
  "feed r [] = Some ([], r)"
| "feed r ((fragment, now) # fs) =
    (case insert_fragment r fragment now of
       None \<Rightarrow> None
     | Some (res, r') \<Rightarrow> map_option (\<lambda>(ress, r''). (res # ress, r'')) (feed r' fs))"

lemma feed_partial:
  fixes cs :: "bytes list"
  defines "n \<equiv> length cs"
  assumes n: "2 \<le> n" "n \<le> 16" and ne: "\<forall>c \<in> set cs. c \<noteq> []"
    and lim: "length (concat cs) \<le> max_bytes lim" "length (concat cs) \<le> MAX_DATA_PLAINTEXT_LEN"
      "0 < max_groups lim"
  shows "\<lbrakk>distinct is; I \<inter> set is = {}; I \<union> set is = {..<n}; is \<noteq> []; length ts = length is;
      \<forall>t \<in> set ts. t - t0 < timeout lim; I = {} \<longrightarrow> hd ts = t0\<rbrakk>
    \<Longrightarrow> feed (partial_state lim fid t0 cs I)
          (zip (map (\<lambda>i. fragment_bytes fid i n (cs ! i)) is) ts)
        = Some (replicate (length is - 1) (Ok None) @ [Ok (Some (concat cs))], reassembler_new lim)"
proof (induction "is" arbitrary: I ts)
  case (Cons i is')
  then obtain t ts' where ts: "ts = t # ts'" "length ts' = length is'"
    by (cases ts) auto
  have I: "I \<subseteq> {..<n}" "i < n" "i \<notin> I"
    using Cons.prems(2,3) by auto
  have fin: "finite I"
    using I(1) finite_subset by blast
  have card: "card I + Suc (length is') = n"
  proof -
    have "card (I \<union> set (i # is')) = card I + card (set (i # is'))"
      using fin Cons.prems(2) by (intro card_Un_disjoint) auto
    then show ?thesis
      using Cons.prems(1,3) by (simp add: distinct_card)
  qed
  have "cs ! i \<noteq> []"
    using ne I(2) by (simp add: n_def)
  note ins = insert_partial [OF n [unfolded n_def] I [unfolded n_def] lim _ _ this, of t t0 fid,
      folded n_def]
  show ?case
  proof (cases "is' = []")
    case True
    then show ?thesis
      using ins Cons.prems(6,7) ts card by simp
  next
    case False
    then have "Suc (card I) < n"
      using card by (cases is') auto
    moreover have "feed (partial_state lim fid t0 cs (Set.insert i I))
          (zip (map (\<lambda>i. fragment_bytes fid i n (cs ! i)) is') ts')
        = Some (replicate (length is' - 1) (Ok None) @ [Ok (Some (concat cs))], reassembler_new lim)"
      using Cons.prems False ts by (intro Cons.IH) auto
    ultimately show ?thesis
      using ins Cons.prems(6,7) ts False by (cases is') auto
  qed
qed simp

section \<open>Provenance of what is delivered\<close>

text \<open>Every chunk the reassembler holds is the chunk of a fragment in \<open>F\<close> with the group's id and count.\<close>

definition chunks_from :: "bytes set \<Rightarrow> frag_group \<Rightarrow> bool" where
  "chunks_from F g \<longleftrightarrow> (\<forall>i c. i < length (grp_chunks g) \<longrightarrow> grp_chunks g ! i = Some c
     \<longrightarrow> fragment_bytes (grp_id g) i (grp_count g) c \<in> F)"

definition groups_from :: "bytes set \<Rightarrow> reassembler \<Rightarrow> bool" where
  "groups_from F r \<longleftrightarrow> (\<forall>g \<in> set (groups r). chunks_from F g)"

text \<open>A datagram put together from the fragments in \<open>F\<close>: all of one id and count, one of each index.\<close>

definition assembled_from :: "bytes set \<Rightarrow> bytes \<Rightarrow> bool" where
  "assembled_from F data \<longleftrightarrow> (\<exists>fid cs. data = concat cs \<and> 2 \<le> length cs \<and> length cs \<le> MAX_FRAGMENTS
     \<and> (\<forall>i < length cs. fragment_bytes fid i (length cs) (cs ! i) \<in> F))"

lemma groups_from_mono: "groups_from F r \<Longrightarrow> set (groups r') \<subseteq> set (groups r) \<Longrightarrow> groups_from F r'"
  by (auto simp: groups_from_def)

lemma groups_from_more: "groups_from F r \<Longrightarrow> F \<subseteq> F' \<Longrightarrow> groups_from F' r"
  unfolding groups_from_def chunks_from_def by blast

lemma assembled_from_more: "assembled_from F data \<Longrightarrow> F \<subseteq> F' \<Longrightarrow> assembled_from F' data"
  unfolding assembled_from_def by blast

lemma set_groups_remove: "i < length (groups r) \<Longrightarrow> set (groups (remove_group r i)) \<subseteq> set (groups r)"
  by (simp add: remove_group_def set_swap_remove)

lemma set_groups_expire_from: "set (groups (expire_from r now i)) \<subseteq> set (groups r)"
proof (induction r now i rule: expire_from.induct)
  case (1 r now i)
  then show ?case
    using set_groups_drop [of i r] by (subst expire_from.simps) auto
qed

lemma set_groups_make_room: "make_room r fid need = (r', ok) \<Longrightarrow> set (groups r') \<subseteq> set (groups r)"
proof (induction r fid need rule: make_room.induct)
  case (1 r fid need)
  show ?case
  proof (cases "buffered r + need > max_bytes (limits r)")
    case full: True
    show ?thesis
    proof (cases "oldest_other r fid")
      case None
      then show ?thesis
        using 1(2) full
        by (subst (asm) make_room.simps)
           (auto simp: Let_def split: option.splits dest!: position_Some dest: subsetD [OF set_groups_remove])
    next
      case (Some i)
      then have "make_room (drop_group r i) fid need = (r', ok)"
        using 1(2) full by (subst (asm) make_room.simps) simp
      with 1(1) [OF full Some] show ?thesis
        using set_groups_drop [of i r] oldest_other_SomeD [OF Some] by blast
    qed
  next
    case False
    then show ?thesis
      using 1(2) by (subst (asm) make_room.simps) auto
  qed
qed

lemma chunks_from_add:
  assumes "chunks_from F g" and "fragment_bytes (grp_id g) index (grp_count g) chunk \<in> F"
  shows "chunks_from F (add_chunk g index chunk)"
  unfolding chunks_from_def
proof (intro allI impI)
  fix i c
  assume "i < length (grp_chunks (add_chunk g index chunk))" "grp_chunks (add_chunk g index chunk) ! i = Some c"
  then show "fragment_bytes (grp_id (add_chunk g index chunk)) i (grp_count (add_chunk g index chunk)) c \<in> F"
    using assms by (cases "i = index") (auto simp: chunks_from_def add_chunk_def)
qed

text \<open>A group with as many chunks as its count has them all.\<close>

lemma stored_all:
  assumes "length cs \<le> stored cs"
  shows "\<exists>xs. cs = map Some xs"
proof -
  have "c \<noteq> None" if "c \<in> set cs" for c
    using length_filter_less [OF that, of "\<lambda>c. c \<noteq> None"] assms unfolding stored_def by linarith
  then have "cs = map Some (map the cs)"
    by (simp add: map_idI)
  then show ?thesis ..
qed

lemma concat_stored: "concat (map the (filter (\<lambda>c. c \<noteq> None) (map Some xs))) = concat xs"
  by (simp add: filter_map comp_def)

lemma store_chunk_from:
  assumes ok: "reassembler_ok r" and src: "groups_from F r"
    and own: "g \<in> set (groups r)" "grp_id g = fid"
    and idx: "index < grp_count g" "grp_chunks g ! index = None"
    and frag: "fragment_bytes fid index (grp_count g) chunk \<in> F"
    and st: "store_chunk r fid index chunk = (res, r')"
  shows "groups_from F r' \<and> (\<forall>data. res = Ok (Some data) \<longrightarrow> assembled_from F data)"
proof -
  obtain pos where p: "position (\<lambda>g. grp_id g = fid) (groups r) = Some pos"
    using own by (cases "position (\<lambda>g. grp_id g = fid) (groups r)") auto
  have pos: "pos < length (groups r)" "grp_id (groups r ! pos) = fid"
    using position_Some [OF p] by auto
  have g: "groups r ! pos = g"
    using ok own pos by (auto simp: reassembler_ok_def distinct_map inj_on_def)
  have gok: "group_ok g"
    using ok own(1) by (simp add: reassembler_ok_def)
  have add: "chunks_from F (add_chunk g index chunk)"
    using src own frag by (intro chunks_from_add) (auto simp: groups_from_def)
  let ?r = "r\<lparr>groups := (groups r)[pos := add_chunk g index chunk], buffered := buffered r + length chunk\<rparr>"
  have new: "groups_from F ?r"
    using src add set_update_subset_insert [of "groups r" pos "add_chunk g index chunk"] by (auto simp: groups_from_def)
  have kept: "groups_from F (remove_group ?r pos)"
    using groups_from_mono [OF new set_groups_remove] pos(1) by simp
  show ?thesis
  proof (cases "grp_received g + 1 < grp_count g")
    case True
    then show ?thesis
      using st new g by (auto simp: store_chunk_eq [OF p])
  next
    case False
    let ?cs = "(grp_chunks g)[index := Some chunk]"
    have "length ?cs \<le> stored ?cs"
      using False gok idx chunk_bytes_update(2) [of index "grp_chunks g" chunk] by (simp add: group_ok_def)
    then obtain xs where xs: "?cs = map Some xs"
      using stored_all by blast
    then have len: "length xs = grp_count g"
      using gok by (metis group_ok_def length_list_update length_map)
    have "fragment_bytes fid i (length xs) (xs ! i) \<in> F" if "i < length xs" for i
      using add that own(2) len xs by (auto simp: chunks_from_def add_chunk_def)
    then have "assembled_from F (concat xs)"
      using gok len unfolding assembled_from_def group_ok_def by metis
    then show ?thesis
      using st False g kept xs by (auto simp: store_chunk_eq [OF p] concat_stored)
  qed
qed

lemma insert_chunk_from:
  assumes ok: "reassembler_ok r" and src: "groups_from F r"
    and pos: "pos < length (groups r)" "grp_id (groups r ! pos) = fid"
    and idx: "index < cnt" and frag: "fragment_bytes fid index cnt chunk \<in> F"
    and st: "insert_chunk r pos fid index cnt chunk = (res, r')"
  shows "groups_from F r' \<and> (\<forall>data. res = Ok (Some data) \<longrightarrow> assembled_from F data)"
proof -
  let ?g = "groups r ! pos"
  have drop: "groups_from F (drop_group r pos)"
    using groups_from_mono [OF src set_groups_drop [OF pos(1)]] .
  show ?thesis
  proof (cases "grp_count ?g = cnt \<and> grp_chunks ?g ! index = None \<and> grp_bytes ?g + length chunk \<le> MAX_DATA_PLAINTEXT_LEN")
    case fit: True
    obtain r1 b where room: "make_room r fid (length chunk) = (r1, b)"
      by fastforce
    note r1 = make_room_ok [OF ok room] and src1 = groups_from_mono [OF src set_groups_make_room [OF room]]
    show ?thesis
    proof (cases b)
      case True
      then have "store_chunk r1 fid index chunk = (res, r')"
        using st fit room by (simp add: insert_chunk_def)
      moreover have "?g \<in> set (groups r1)"
        using r1 True pos by simp
      ultimately show ?thesis
        using store_chunk_from [of r1 F ?g fid index chunk res r'] r1 src1 fit pos(2) idx frag by simp
    next
      case False
      then show ?thesis
        using st fit room src1 by (auto simp: insert_chunk_def)
    qed
  qed (use st src drop in \<open>auto simp: insert_chunk_def split: if_splits\<close>)
qed

lemma fragment_bytes_eta:
  assumes "6 < length f" shows "f = fragment_bytes (be_u32 (take 4 f)) (unat (f ! 4)) (unat (f ! 5)) (drop 6 f)"
proof -
  have "drop 4 f = f ! 4 # drop 5 f" "drop 5 f = f ! 5 # drop 6 f"
    using assms Cons_nth_drop_Suc [of 4 f] Cons_nth_drop_Suc [of 5 f] by simp_all
  then have "take 4 f @ [f ! 4, f ! 5] @ drop 6 f = f"
    using append_take_drop_id [of 4 f] by simp
  then show ?thesis
    using assms by (simp add: fragment_bytes_def be_simps)
qed

lemma insert_fragment_ok:
  assumes "0 < max_groups (limits r)" and ok: "reassembler_ok r" and src: "groups_from F r"
  shows "\<exists>res r'. insert_fragment r fragment now = Some (res, r') \<and> reassembler_ok r' \<and> limits r' = limits r
    \<and> groups_from (Set.insert fragment F) r'
    \<and> (\<forall>data. res = Ok (Some data) \<longrightarrow> assembled_from (Set.insert fragment F) data)"
proof -
  define r1 where "r1 = expire r now"
  define fid where "fid = be_u32 (take 4 fragment)"
  let ?i = "unat (fragment ! 4)" and ?n = "unat (fragment ! 5)" and ?c = "drop FRAG_HEADER_LEN fragment"
  let ?F = "Set.insert fragment F"
  have r1: "reassembler_ok r1" "limits r1 = limits r" "groups_from ?F r1"
    using expire_ok ok groups_from_mono [OF groups_from_more [OF src subset_insertI] set_groups_expire_from]
    by (simp_all add: r1_def expire_def)
  have step: "\<exists>res r'. Some (insert_chunk s pos fid ?i ?n ?c) = Some (res, r') \<and> reassembler_ok r'
      \<and> limits r' = limits s \<and> groups_from ?F r' \<and> (\<forall>data. res = Ok (Some data) \<longrightarrow> assembled_from ?F data)"
    if "reassembler_ok s" "groups_from ?F s" "pos < length (groups s)" "grp_id (groups s ! pos) = fid" "?i < ?n"
      "FRAG_HEADER_LEN < length fragment" for s pos
  proof -
    have "fragment_bytes fid ?i ?n ?c \<in> ?F"
      using fragment_bytes_eta [of fragment] that(6) by (simp add: FRAG_HEADER_LEN_def fid_def)
    then show ?thesis
      using insert_chunk_ok [OF that(1,3-5)] insert_chunk_from [OF that(1-5)] by (metis surj_pair)
  qed
  show ?thesis
  proof (cases "position (\<lambda>g. grp_id g = fid) (groups r1)")
    case (Some pos)
    then show ?thesis
      using step [OF r1(1,3)] position_Some [OF Some] r1
      by (auto simp: insert_fragment_def Let_def r1_def [symmetric] fid_def [symmetric])
  next
    case None
    from evict_groups_total [of r1] obtain r2 where r2: "evict_groups r1 = Some r2"
      "reassembler_ok r2" "limits r2 = limits r1" "length (groups r2) < max_groups (limits r2)"
      "set (groups r2) \<subseteq> set (groups r1)"
      using assms(1) r1 by auto
    let ?s = "\<lambda>n. r2\<lparr>groups := groups r2 @ [fresh_group fid n now]\<rparr>"
    have push: "reassembler_ok (?s n)" if "2 \<le> n" "n \<le> MAX_FRAGMENTS" for n
      using reassembler_ok_push [OF r2(2,4) _ that, of fid now] None r2(5) by auto
    have "groups_from ?F (?s n)" for n
      using groups_from_mono [OF r1(3) r2(5)] by (auto simp: groups_from_def chunks_from_def fresh_group_def)
    then show ?thesis
      using None r2 r1 step [OF push, of _ "length (groups r2)"]
      by (auto simp: insert_fragment_def Let_def r1_def [symmetric] fid_def [symmetric] simp del: position_None)
  qed
qed

lemma feed_ok:
  assumes "0 < max_groups (limits r)" and "reassembler_ok r" and "groups_from F r"
  shows "\<exists>outs r'. feed r inputs = Some (outs, r') \<and> reassembler_ok r' \<and> limits r' = limits r
    \<and> length outs = length inputs
    \<and> (\<forall>k < length inputs. \<forall>data. outs ! k = Ok (Some data) \<longrightarrow>
         assembled_from (F \<union> fst ` set (take (Suc k) inputs)) data)"
  using assms
proof (induction inputs arbitrary: r F)
  case (Cons x inputs)
  obtain f now where x: "x = (f, now)"
    by fastforce
  obtain res r1 where r1: "insert_fragment r f now = Some (res, r1)" "reassembler_ok r1" "limits r1 = limits r"
    "groups_from (Set.insert f F) r1" "\<forall>data. res = Ok (Some data) \<longrightarrow> assembled_from (Set.insert f F) data"
    using insert_fragment_ok [OF Cons.prems] by blast
  obtain outs r' where o: "feed r1 inputs = Some (outs, r')" "reassembler_ok r'" "limits r' = limits r1"
    "length outs = length inputs"
    "\<forall>k < length inputs. \<forall>data. outs ! k = Ok (Some data) \<longrightarrow>
       assembled_from (Set.insert f F \<union> fst ` set (take (Suc k) inputs)) data"
    using Cons.IH [OF _ r1(2,4)] r1(3) Cons.prems(1) by auto
  have "assembled_from (F \<union> fst ` set (take (Suc k) (x # inputs))) data"
    if "k < length (x # inputs)" "(res # outs) ! k = Ok (Some data)" for k data
    using that r1(5) o(5) x by (cases k) auto
  then show ?case
    using r1(1,3) o x by simp
qed simp

section \<open>Properties\<close>

text \<open>
  C15.  Reassembly is bounded, always returns and never invents data.  Whatever fragments arrive
  at whatever times, a new reassembler that may hold at least one group returns from every
  insertion; its byte count stays exact and within its limit, its group ids distinct and at
  most \<open>max_groups\<close> in number, and every group it holds incomplete with consistent
  counters.  Each datagram it delivers is the concatenation, in index order, of the chunks of
  fragments received so far, all with one id and one count and one for each index.
\<close>

theorem reassembler_bounded:
  assumes "0 < max_groups lim"
  shows "\<exists>outs r. feed (reassembler_new lim) inputs = Some (outs, r) \<and> reassembler_ok r \<and> limits r = lim
    \<and> length outs = length inputs
    \<and> (\<forall>k < length inputs. \<forall>data. outs ! k = Ok (Some data) \<longrightarrow>
        (\<exists>fid cs. data = concat cs \<and> 2 \<le> length cs \<and> length cs \<le> MAX_FRAGMENTS
          \<and> (\<forall>i < length cs. fragment_bytes fid i (length cs) (cs ! i) \<in> fst ` set (take (Suc k) inputs))))"
proof -
  have "groups_from {} (reassembler_new lim)" "limits (reassembler_new lim) = lim"
    by (simp_all add: groups_from_def reassembler_new_def)
  then show ?thesis
    using feed_ok [of "reassembler_new lim" "{}" inputs] assms
    by (simp add: assembled_from_def)
qed

theorem reassembler_bounded_witness:
  "let inputs = [(fragment_bytes 7 1 2 [3], 5), (fragment_bytes 7 0 2 [1, 2], 6)]
   in feed (reassembler_new limits_default) inputs = Some ([Ok None, Ok (Some [1, 2, 3])], reassembler_new limits_default)
    \<and> (\<exists>fid cs. [1, 2, 3] = concat cs \<and> 2 \<le> length cs
        \<and> (\<forall>i < length cs. fragment_bytes fid i (length cs) (cs ! i) \<in> fst ` set inputs))"
proof -
  let ?in = "[(fragment_bytes 7 1 2 [3], 5), (fragment_bytes 7 0 2 [1, 2], 6)] :: (bytes \<times> time) list"
  let ?cs = "[[1, 2], [3]] :: bytes list"
  have "feed (partial_state limits_default 7 5 ?cs {}) (zip (map (\<lambda>i. fragment_bytes 7 i (length ?cs) (?cs ! i)) [1, 0]) [5, 6])
      = Some (replicate (length [1, 0 :: nat] - 1) (Ok None) @ [Ok (Some (concat ?cs))], reassembler_new limits_default)"
    by (rule feed_partial)
       (auto simp: limits_default_def MAX_DATA_PLAINTEXT_LEN_def MAX_ADDRESS_LEN_def MAX_UDP_PAYLOAD_LEN_def less_Suc_eq)
  then have run: "feed (reassembler_new limits_default) ?in = Some ([Ok None, Ok (Some [1, 2, 3])], reassembler_new limits_default)"
    by (simp add: partial_state_def numeral_2_eq_2 [symmetric] del: feed.simps)
  have pos: "0 < max_groups limits_default"
    by (simp add: limits_default_def)
  have all: "\<forall>k < length ?in. \<forall>data. ([Ok None, Ok (Some [1, 2, 3])] :: (udp_packet_error + bytes option) list) ! k = Ok (Some data) \<longrightarrow>
      (\<exists>fid cs. data = concat cs \<and> 2 \<le> length cs \<and> length cs \<le> MAX_FRAGMENTS
        \<and> (\<forall>i < length cs. fragment_bytes fid i (length cs) (cs ! i) \<in> fst ` set (take (Suc k) ?in)))"
  proof -
    obtain outs r where o: "feed (reassembler_new limits_default) ?in = Some (outs, r)"
      "\<forall>k < length ?in. \<forall>data. outs ! k = Ok (Some data) \<longrightarrow>
        (\<exists>fid cs. data = concat cs \<and> 2 \<le> length cs \<and> length cs \<le> MAX_FRAGMENTS
          \<and> (\<forall>i < length cs. fragment_bytes fid i (length cs) (cs ! i) \<in> fst ` set (take (Suc k) ?in)))"
      using reassembler_bounded [OF pos, of ?in] by blast
    have "outs = [Ok None, Ok (Some [1, 2, 3])]"
      using o(1) unfolding run by simp
    then show ?thesis
      using o(2) by (simp only:)
  qed
  obtain fid cs where "[1, 2, 3] = concat cs" "2 \<le> length cs"
    "\<forall>i < length cs. fragment_bytes fid i (length cs) (cs ! i) \<in> fst ` set (take (Suc 1) ?in)"
    using all [rule_format, of 1 "[1, 2, 3]"] by auto
  then show ?thesis
    unfolding Let_def run by (intro conjI exI [of _ fid] exI [of _ cs]) simp_all
qed

text \<open>
  C16.  Splitting and reassembling are inverse, whatever the order of arrival: the fragments
  of a split datagram (two or more of them), delivered to an empty reassembler in any order
  within the timeout, yield nothing until the last one and then precisely the datagram, and
  leave the reassembler empty again.
\<close>

theorem split_reassemble:
  assumes split: "split_fragments fid plaintext max_chunk = Ok fragments" and two: "2 \<le> length fragments"
    and order: "distinct is" "set is = {..<length fragments}"
    and ts: "length ts = length fragments" "\<forall>t \<in> set ts. t - hd ts < timeout lim"
    and lim: "length plaintext \<le> max_bytes lim" "0 < max_groups lim"
  shows "feed (reassembler_new lim) (zip (map (\<lambda>i. fragments ! i) is) ts) =
    Some (replicate (length fragments - 1) (Ok None) @ [Ok (Some plaintext)], reassembler_new lim)"
proof -
  define cs where "cs = chunks_of max_chunk plaintext"
  have c: "0 < max_chunk" "length plaintext \<le> MAX_DATA_PLAINTEXT_LEN"
    and n: "length cs \<le> 16"
    and fr: "fragments = map (\<lambda>(i, c). fragment_bytes fid i (length cs) c) (enumerate 0 cs)"
    using split length_chunks_of [of max_chunk plaintext]
    by (auto simp: split_fragments_def MAX_FRAGMENTS_def Let_def cs_def split: if_splits)
  have len: "length fragments = length cs" and cc: "concat cs = plaintext"
    and ne: "\<forall>c \<in> set cs. c \<noteq> []"
    using fr concat_chunks_of [OF c(1)] chunks_of_nonempty by (auto simp: cs_def)
  have eq: "map (\<lambda>i. fragments ! i) is = map (\<lambda>i. fragment_bytes fid i (length cs) (cs ! i)) is"
    using order(2) len by (auto simp: fr nth_enumerate_eq)
  have "length is = length fragments"
    using order distinct_card [of "is"] by simp
  moreover have "is \<noteq> []"
    using calculation two by auto
  ultimately show ?thesis
    unfolding eq using feed_partial [of cs lim "is" "{}" ts "hd ts" fid] two n ne lim c order ts len cc
    by (simp add: partial_state_def)
qed

theorem split_reassemble_witness:
  "\<exists>fragments. split_fragments 7 [1, 2, 3] 2 = Ok fragments
    \<and> feed (reassembler_new limits_default) (zip (map (\<lambda>i. fragments ! i) [1, 0]) [10, 20])
      = Some ([Ok None, Ok (Some [1, 2, 3])], reassembler_new limits_default)"
proof -
  let ?fs = "[fragment_bytes 7 0 2 [1, 2], fragment_bytes 7 1 2 [3]]"
  have split: "split_fragments 7 [1, 2, 3] 2 = Ok ?fs"
    by (simp add: split_fragments_def chunks_of.simps div_ceil_def MAX_FRAGMENTS_def
        MAX_DATA_PLAINTEXT_LEN_def MAX_ADDRESS_LEN_def MAX_UDP_PAYLOAD_LEN_def Let_def
        numeral_2_eq_2 [symmetric])
  have "feed (reassembler_new limits_default) (zip (map (\<lambda>i. ?fs ! i) [1, 0]) [10, 20]) =
      Some (replicate (length ?fs - 1) (Ok None) @ [Ok (Some [1, 2, 3])], reassembler_new limits_default)"
    by (rule split_reassemble [OF split])
       (auto simp: limits_default_def MAX_DATA_PLAINTEXT_LEN_def MAX_ADDRESS_LEN_def MAX_UDP_PAYLOAD_LEN_def)
  then have "feed (reassembler_new limits_default) (zip (map (\<lambda>i. ?fs ! i) [1, 0]) [10, 20]) =
      Some ([Ok None, Ok (Some [1, 2, 3])], reassembler_new limits_default)"
    by (simp del: feed.simps)
  with split show ?thesis
    by blast
qed

text \<open>
  The eviction loop of \<open>insert\<close> runs forever precisely when the configured group limit
  is zero.
\<close>

theorem evict_groups_diverges: "evict_groups r = None \<longleftrightarrow> max_groups (limits r) = 0"
proof
  assume "evict_groups r = None"
  then show "max_groups (limits r) = 0"
    using evict_groups_defined [of r] by auto
next
  assume zero: "max_groups (limits r) = 0"
  show "evict_groups r = None"
  proof (cases "evict_groups r")
    case (Some r')
    then show ?thesis
      using evict_groups_bound [OF Some] zero by simp
  qed
qed

end
