(* ===== verification/Udp_Pmtu.thy ===== *)
theory Udp_Pmtu
  imports Udp_Wire
begin

text \<open>
  Path MTU discovery of \<open>src/protocol/handoff/udp/pmtu.rs\<close>: a pure state machine driven by
  explicit times.  \<open>poll\<close> returns the probe to send; acknowledgements and kernel feedback come
  back through \<open>on_probe_ack\<close>, \<open>on_send_too_big\<close> and \<open>on_probe_too_big\<close>.
\<close>

section \<open>The prober\<close>

definition MIN_PLPMTU :: nat where "MIN_PLPMTU = 512"
definition BASE_PLPMTU :: nat where "BASE_PLPMTU = 1200"
definition MAX_PLPMTU :: nat where "MAX_PLPMTU = 9000 - 28"

lemmas plpmtu_consts = MIN_PLPMTU_def BASE_PLPMTU_def MAX_PLPMTU_def

definition plpmtu_from_ip_mtu :: "nat \<Rightarrow> bool \<Rightarrow> nat" where
  "plpmtu_from_ip_mtu ip_mtu ipv6 =
    (let overhead = (if ipv6 then 40 + 8 else 20 + 8);
         sz = ip_mtu - overhead
     in if sz < MIN_PLPMTU then MIN_PLPMTU
        else if sz > MAX_PLPMTU then MAX_PLPMTU
        else sz)"

definition clamp :: "nat \<Rightarrow> nat \<Rightarrow> nat \<Rightarrow> nat" where
  "clamp lo hi x = (if x < lo then lo else if x > hi then hi else x)"

definition half_up :: "nat \<Rightarrow> nat" where
  "half_up n = (n + 1) div 2"

record pmtu_timers =
  probe_timeout :: time
  max_probes :: nat
  confirm_interval :: time
  raise_interval :: time
  granularity :: nat

definition timers_default :: pmtu_timers where
  "timers_default = \<lparr>probe_timeout = 1000000000, max_probes = 3, confirm_interval = 15000000000,
                     raise_interval = 600000000000, granularity = 16\<rparr>"

record pmtu_probe =
  probe_id :: u32
  probe_size :: nat

datatype purpose = Search | Confirm

record outstanding =
  o_id :: u32
  o_size :: nat
  o_sent :: time
  o_attempts :: nat
  o_purpose :: purpose

datatype phase = Fixed | Searching nat | Complete time

record pmtu_prober =
  timers :: pmtu_timers
  current :: nat
  ceiling_of :: nat
  max_ceiling :: nat
  phase_of :: phase
  pending_probe :: "outstanding option"
  next_id :: u32
  next_confirm :: time
  black_holes :: nat
  floor_validated :: bool

definition discover :: "nat \<Rightarrow> pmtu_timers \<Rightarrow> time \<Rightarrow> pmtu_prober" where
  "discover ceil tm now =
    (let c = clamp MIN_PLPMTU MAX_PLPMTU ceil
     in \<lparr>timers = tm, current = min BASE_PLPMTU c, ceiling_of = c, max_ceiling = c,
         phase_of = Searching c, pending_probe = None, next_id = 1,
         next_confirm = now + confirm_interval tm, black_holes = 0, floor_validated = False\<rparr>)"

definition fixed_limit :: "nat \<Rightarrow> time \<Rightarrow> pmtu_prober" where
  "fixed_limit sz now =
    (let c = clamp MIN_PLPMTU MAX_PLPMTU sz
     in \<lparr>timers = timers_default, current = c, ceiling_of = c, max_ceiling = c,
         phase_of = Fixed, pending_probe = None, next_id = 1,
         next_confirm = now, black_holes = 0, floor_validated = True\<rparr>)"

definition plpmtu :: "pmtu_prober \<Rightarrow> nat" where
  "plpmtu p = current p"

definition search_complete :: "pmtu_prober \<Rightarrow> bool" where
  "search_complete p = (case phase_of p of Complete _ \<Rightarrow> True | Fixed \<Rightarrow> True | _ \<Rightarrow> False)"

definition take_id :: "pmtu_prober \<Rightarrow> pmtu_prober \<times> u32" where
  "take_id p = (p\<lparr>next_id := max (next_id p + 1) 1\<rparr>, next_id p)"

definition launch :: "pmtu_prober \<Rightarrow> nat \<Rightarrow> purpose \<Rightarrow> time \<Rightarrow> pmtu_prober \<times> pmtu_probe" where
  "launch p sz purpose now =
    (let (p', i) = take_id p
     in (p'\<lparr>pending_probe := Some \<lparr>o_id = i, o_size = sz, o_sent = now, o_attempts = 1,
                                   o_purpose = purpose\<rparr>\<rparr>,
         \<lparr>probe_id = i, probe_size = sz\<rparr>))"

definition probe_lost :: "pmtu_prober \<Rightarrow> outstanding \<Rightarrow> time \<Rightarrow> pmtu_prober" where
  "probe_lost p lost now =
    (case o_purpose lost of
       Search \<Rightarrow>
         (case phase_of p of
            Searching high \<Rightarrow> p\<lparr>phase_of := Searching (min high (o_size lost - 1))\<rparr>
          | _ \<Rightarrow> p)
     | Confirm \<Rightarrow>
         (let failed = current p;
              cur = (if failed > BASE_PLPMTU then BASE_PLPMTU else MIN_PLPMTU)
          in p\<lparr>black_holes := black_holes p + 1, current := cur,
               phase_of := Searching (max (failed - 1) cur),
               next_confirm := now + confirm_interval (timers p),
               floor_validated := False\<rparr>))"

text \<open>The part of \<open>poll\<close> after the outstanding probe was dealt with.\<close>

definition poll_phase :: "pmtu_prober \<Rightarrow> time \<Rightarrow> pmtu_prober \<times> pmtu_probe option" where
  "poll_phase p now =
    (case phase_of p of
       Fixed \<Rightarrow> (p, None)
     | Searching high \<Rightarrow>
        if \<not> floor_validated p
        then (let (p', pr) = launch p (current p) Confirm now in (p', Some pr))
        else (let low = current p in
              if high \<le> low \<or> high - low < granularity (timers p)
              then (p\<lparr>phase_of := Complete (now + raise_interval (timers p)),
                      next_confirm := now + confirm_interval (timers p)\<rparr>, None)
              else (let (p', pr) = launch p (low + half_up (high - low)) Search now
                    in (p', Some pr)))
     | Complete next_raise \<Rightarrow>
        (let raised = (if now \<ge> next_raise then p\<lparr>ceiling_of := max_ceiling p\<rparr> else p) in
         if now \<ge> next_raise \<and> ceiling_of raised - current raised \<ge> granularity (timers raised)
         then (let (p', pr) = launch (raised\<lparr>phase_of := Searching (ceiling_of raised)\<rparr>)
                 (current raised + half_up (ceiling_of raised - current raised)) Search now
               in (p', Some pr))
         else
          (let p1 = (if now \<ge> next_raise
                     then raised\<lparr>phase_of := Complete (now + raise_interval (timers raised))\<rparr>
                     else raised)
           in if now \<ge> next_confirm p1
              then (let (p', pr) = launch (p1\<lparr>next_confirm := now + confirm_interval (timers p1)\<rparr>)
                      (current p1) Confirm now
                    in (p', Some pr))
              else (p1, None))))"

definition poll :: "pmtu_prober \<Rightarrow> time \<Rightarrow> pmtu_prober \<times> pmtu_probe option" where
  "poll p now =
    (if phase_of p = Fixed then (p, None)
     else case pending_probe p of
       None \<Rightarrow> poll_phase p now
     | Some oc \<Rightarrow>
        if now - o_sent oc < probe_timeout (timers p) then (p, None)
        else if o_attempts oc < max_probes (timers p)
        then (p\<lparr>pending_probe := Some (oc\<lparr>o_attempts := o_attempts oc + 1, o_sent := now\<rparr>)\<rparr>,
              Some \<lparr>probe_id = o_id oc, probe_size = o_size oc\<rparr>)
        else poll_phase (probe_lost (p\<lparr>pending_probe := None\<rparr>) oc now) now)"

definition next_deadline :: "pmtu_prober \<Rightarrow> time \<Rightarrow> time option" where
  "next_deadline p now =
    (case pending_probe p of
       Some oc \<Rightarrow> Some (o_sent oc + probe_timeout (timers p))
     | None \<Rightarrow>
        (case phase_of p of
           Fixed \<Rightarrow> None
         | Searching _ \<Rightarrow> Some now
         | Complete next_raise \<Rightarrow> Some (min next_raise (next_confirm p))))"

definition on_probe_ack :: "pmtu_prober \<Rightarrow> u32 \<Rightarrow> nat \<Rightarrow> time \<Rightarrow> pmtu_prober" where
  "on_probe_ack p i sz now =
    (case pending_probe p of
       None \<Rightarrow> p
     | Some oc \<Rightarrow>
        if o_id oc \<noteq> i \<or> o_size oc \<noteq> sz then p
        else (let p' = p\<lparr>pending_probe := None\<rparr> in
              case o_purpose oc of
                Search \<Rightarrow>
                  if sz > current p' \<and> sz \<le> ceiling_of p' then p'\<lparr>current := sz\<rparr> else p'
              | Confirm \<Rightarrow>
                  p'\<lparr>floor_validated := True,
                     next_confirm := now + confirm_interval (timers p')\<rparr>))"

definition on_send_too_big :: "pmtu_prober \<Rightarrow> nat \<Rightarrow> nat option \<Rightarrow> pmtu_prober" where
  "on_send_too_big p attempted kernel_limit =
    (let fallback = (if attempted > BASE_PLPMTU then BASE_PLPMTU else MIN_PLPMTU);
         limit = clamp MIN_PLPMTU MAX_PLPMTU
                   (min (case kernel_limit of None \<Rightarrow> fallback | Some k \<Rightarrow> k) (attempted - 1));
         p1 = p\<lparr>ceiling_of := max (min (ceiling_of p) limit) MIN_PLPMTU\<rparr>;
         p2 = (if current p1 > ceiling_of p1 then p1\<lparr>current := ceiling_of p1\<rparr> else p1);
         p3 = (case phase_of p2 of
                 Searching high \<Rightarrow> p2\<lparr>phase_of := Searching (min high (ceiling_of p2))\<rparr>
               | _ \<Rightarrow> p2)
     in case pending_probe p3 of
          Some oc \<Rightarrow> if o_size oc > ceiling_of p3 then p3\<lparr>pending_probe := None\<rparr> else p3
        | None \<Rightarrow> p3)"

definition on_probe_too_big :: "pmtu_prober \<Rightarrow> nat \<Rightarrow> pmtu_prober" where
  "on_probe_too_big p sz =
    (let p1 = (case pending_probe p of
                 Some oc \<Rightarrow> if o_size oc = sz then p\<lparr>pending_probe := None\<rparr> else p
               | None \<Rightarrow> p);
         p2 = p1\<lparr>ceiling_of := max (min (ceiling_of p1) (sz - 1)) (current p1)\<rparr>
     in case phase_of p2 of
          Searching high \<Rightarrow> p2\<lparr>phase_of := Searching (min high (ceiling_of p2))\<rparr>
        | _ \<Rightarrow> p2)"

text \<open>
  \<open>ChannelEndpoint::poll_probe\<close> (\<open>src/server/handoff/udp/endpoint.rs\<close>) when the send of the due
  probe fails with \<open>EMSGSIZE\<close>.
\<close>

definition poll_probe_refused :: "time \<Rightarrow> pmtu_prober \<Rightarrow> pmtu_prober" where
  "poll_probe_refused now p =
    (case poll p now of
       (p', None) \<Rightarrow> p'
     | (p', Some probe) \<Rightarrow> on_probe_too_big p' (probe_size probe))"

section \<open>Events and reachable probers\<close>

datatype pmtu_event =
    Poll time
  | Ack u32 nat time
  | SendTooBig nat "nat option"
  | ProbeTooBig nat

fun pmtu_apply :: "pmtu_prober \<Rightarrow> pmtu_event \<Rightarrow> pmtu_prober" where
  "pmtu_apply p (Poll now) = fst (poll p now)"
| "pmtu_apply p (Ack i sz now) = on_probe_ack p i sz now"
| "pmtu_apply p (SendTooBig n k) = on_send_too_big p n k"
| "pmtu_apply p (ProbeTooBig n) = on_probe_too_big p n"

section \<open>The invariant\<close>

definition pmtu_ok :: "pmtu_prober \<Rightarrow> bool" where
  "pmtu_ok p \<longleftrightarrow> MIN_PLPMTU \<le> current p \<and> current p \<le> ceiling_of p
     \<and> ceiling_of p \<le> max_ceiling p \<and> max_ceiling p \<le> MAX_PLPMTU
     \<and> (\<forall>high. phase_of p = Searching high \<longrightarrow> high \<le> ceiling_of p)
     \<and> (\<forall>oc. pending_probe p = Some oc \<longrightarrow> MIN_PLPMTU \<le> o_size oc \<and> o_size oc \<le> MAX_PLPMTU)"

lemma half_up_bounds: "half_up n \<le> n" "0 < n \<Longrightarrow> 0 < half_up n" "n - half_up n = n div 2"
  "half_up n - 1 \<le> n div 2"
  unfolding half_up_def by linarith+

lemma clamp_bounds: "lo \<le> hi \<Longrightarrow> lo \<le> clamp lo hi x \<and> clamp lo hi x \<le> hi"
  by (simp add: clamp_def)

lemma launch_simps [simp]:
  "current (fst (launch p n u now)) = current p" "ceiling_of (fst (launch p n u now)) = ceiling_of p"
  "max_ceiling (fst (launch p n u now)) = max_ceiling p" "phase_of (fst (launch p n u now)) = phase_of p"
  "timers (fst (launch p n u now)) = timers p"
  "floor_validated (fst (launch p n u now)) = floor_validated p"
  "pending_probe (fst (launch p n u now)) =
     Some \<lparr>o_id = next_id p, o_size = n, o_sent = now, o_attempts = 1, o_purpose = u\<rparr>"
  "snd (launch p n u now) = \<lparr>probe_id = next_id p, probe_size = n\<rparr>"
  by (simp_all add: launch_def take_id_def)

lemma pmtu_ok_launch:
  "pmtu_ok p \<Longrightarrow> MIN_PLPMTU \<le> n \<Longrightarrow> n \<le> MAX_PLPMTU \<Longrightarrow> pmtu_ok (fst (launch p n u now))"
  by (simp add: pmtu_ok_def)

lemma pmtu_ok_phase:
  assumes "pmtu_ok p"
  shows "pmtu_ok (p\<lparr>phase_of := Complete t, next_confirm := t'\<rparr>)" "pmtu_ok (p\<lparr>phase_of := Complete t\<rparr>)"
    "pmtu_ok (p\<lparr>next_confirm := t'\<rparr>)" "pmtu_ok (p\<lparr>pending_probe := None\<rparr>)"
    "pmtu_ok (p\<lparr>ceiling_of := max_ceiling p, phase_of := Searching (max_ceiling p)\<rparr>)"
    "\<forall>h. phase_of p \<noteq> Searching h \<Longrightarrow> pmtu_ok (p\<lparr>ceiling_of := max_ceiling p\<rparr>)"
  using assms by (auto simp: pmtu_ok_def)

lemma pmtu_ok_lost: "pmtu_ok p \<Longrightarrow> pmtu_ok (probe_lost p oc now)"
  by (auto simp: probe_lost_def pmtu_ok_def plpmtu_consts Let_def split: purpose.splits phase.splits)

lemma pmtu_ok_poll_phase:
  assumes ok: "pmtu_ok p"
  shows "pmtu_ok (fst (poll_phase p now))"
proof (cases "phase_of p")
  case (Searching high)
  then show ?thesis
    using ok half_up_bounds(1) [of "high - current p"]
    by (auto simp: poll_phase_def Let_def case_prod_beta pmtu_ok_phase intro!: pmtu_ok_launch)
       (auto simp: pmtu_ok_def)
next
  case (Complete t)
  let ?p = "if t \<le> now then p\<lparr>ceiling_of := max_ceiling p\<rparr> else p"
  have raised: "pmtu_ok ?p" "phase_of ?p = Complete t" "current ?p = current p"
    using ok Complete by (auto simp: pmtu_ok_phase)
  have "current ?p + half_up (ceiling_of ?p - current ?p) \<le> MAX_PLPMTU"
    "MIN_PLPMTU \<le> current ?p + half_up (ceiling_of ?p - current ?p)"
    "MIN_PLPMTU \<le> current ?p" "current ?p \<le> MAX_PLPMTU" "current p \<le> MAX_PLPMTU" "MIN_PLPMTU \<le> current p"
    using raised ok half_up_bounds(1) [of "ceiling_of ?p - current ?p"]
    unfolding pmtu_ok_def by linarith+
  then show ?thesis
    using Complete raised ok
    by (auto simp: poll_phase_def Let_def case_prod_beta pmtu_ok_phase intro!: pmtu_ok_launch)
qed (simp add: ok poll_phase_def)

lemma pmtu_ok_poll:
  assumes ok: "pmtu_ok p"
  shows "pmtu_ok (fst (poll p now))"
proof (cases "pending_probe p")
  case None
  then show ?thesis
    using ok by (simp add: poll_def pmtu_ok_poll_phase)
next
  case (Some oc)
  have "pmtu_ok (fst (poll_phase (probe_lost (p\<lparr>pending_probe := None\<rparr>) oc now) now))"
    by (intro pmtu_ok_poll_phase pmtu_ok_lost pmtu_ok_phase ok)
  moreover have "pmtu_ok (p\<lparr>pending_probe := Some (oc\<lparr>o_attempts := n, o_sent := t\<rparr>)\<rparr>)" for n t
    using ok Some by (auto simp: pmtu_ok_def)
  ultimately show ?thesis
    using ok Some by (auto simp: poll_def)
qed

lemma pmtu_ok_ack: "pmtu_ok p \<Longrightarrow> pmtu_ok (on_probe_ack p i n now)"
  by (auto simp: on_probe_ack_def pmtu_ok_def Let_def split: option.splits purpose.splits)

definition too_big_limit :: "pmtu_prober \<Rightarrow> nat \<Rightarrow> nat option \<Rightarrow> nat" where
  "too_big_limit p attempted kernel_limit =
    max (min (ceiling_of p)
          (clamp MIN_PLPMTU MAX_PLPMTU
            (min (case kernel_limit of
                    None \<Rightarrow> if attempted > BASE_PLPMTU then BASE_PLPMTU else MIN_PLPMTU
                  | Some k \<Rightarrow> k) (attempted - 1)))) MIN_PLPMTU"

lemma on_send_too_big_eq:
  "on_send_too_big p n k =
    (let c = too_big_limit p n k
     in p\<lparr>ceiling_of := c, current := min (current p) c,
          phase_of := (case phase_of p of Searching h \<Rightarrow> Searching (min h c) | x \<Rightarrow> x),
          pending_probe := (case pending_probe p of
                              Some oc \<Rightarrow> if o_size oc > c then None else Some oc | None \<Rightarrow> None)\<rparr>)"
proof -
  define c where "c = too_big_limit p n k"
  show ?thesis
    unfolding on_send_too_big_def too_big_limit_def [symmetric] Let_def c_def [symmetric]
    by (cases "c < current p"; cases "phase_of p"; cases "pending_probe p")
       (simp_all add: min_def not_less)
qed

lemma pmtu_ok_send_too_big:
  assumes ok: "pmtu_ok p"
  shows "pmtu_ok (on_send_too_big p n k)"
proof -
  have "MIN_PLPMTU \<le> too_big_limit p n k" "too_big_limit p n k \<le> ceiling_of p"
    using ok by (simp_all add: too_big_limit_def pmtu_ok_def)
  then show ?thesis
    using ok by (auto simp: on_send_too_big_eq pmtu_ok_def Let_def split: option.splits phase.splits)
qed

lemma pmtu_ok_probe_too_big: "pmtu_ok p \<Longrightarrow> pmtu_ok (on_probe_too_big p n)"
  by (auto simp: on_probe_too_big_def pmtu_ok_def Let_def split: option.splits phase.splits)

lemma pmtu_ok_apply: "pmtu_ok p \<Longrightarrow> pmtu_ok (pmtu_apply p e)"
  by (cases e) (simp_all add: pmtu_ok_poll pmtu_ok_ack pmtu_ok_send_too_big pmtu_ok_probe_too_big)

lemma pmtu_ok_run: "pmtu_ok p \<Longrightarrow> pmtu_ok (foldl pmtu_apply p es)"
  by (induction es arbitrary: p) (simp_all add: pmtu_ok_apply)

lemma pmtu_ok_discover: "pmtu_ok (discover c tm now)"
  by (auto simp: discover_def pmtu_ok_def clamp_def plpmtu_consts Let_def)

lemma pmtu_ok_fixed: "pmtu_ok (fixed_limit n now)"
  by (auto simp: fixed_limit_def pmtu_ok_def clamp_def plpmtu_consts Let_def)

lemma max_ceiling_apply [simp]: "max_ceiling (pmtu_apply p e) = max_ceiling p"
proof (cases e)
  case (Poll now)
  have "max_ceiling (fst (poll_phase q now)) = max_ceiling q" for q
    by (auto simp: poll_phase_def Let_def case_prod_beta split: phase.split)
  moreover have "max_ceiling (probe_lost q oc now) = max_ceiling q" for q oc
    by (auto simp: probe_lost_def Let_def split: purpose.split phase.split)
  ultimately show ?thesis
    using Poll by (auto simp: poll_def split: option.split)
next
  case (Ack i n now)
  then show ?thesis
    by (auto simp: on_probe_ack_def Let_def split: option.split purpose.split)
next
  case (SendTooBig n k)
  then show ?thesis
    by (simp add: on_send_too_big_eq Let_def)
next
  case (ProbeTooBig n)
  then show ?thesis
    by (auto simp: on_probe_too_big_def Let_def split: option.split phase.split)
qed

lemma max_ceiling_run [simp]: "max_ceiling (foldl pmtu_apply p es) = max_ceiling p"
  by (induction es arbitrary: p) simp_all

lemma current_poll_phase [simp]: "current (fst (poll_phase p now)) = current p"
  by (auto simp: poll_phase_def Let_def case_prod_beta split: phase.split)

lemma current_poll_le:
  assumes "pmtu_ok p"
  shows "current (fst (poll p now)) \<le> current p"
proof -
  have "current (probe_lost (p\<lparr>pending_probe := None\<rparr>) oc now) \<le> current p" for oc
    using assms
    by (auto simp: probe_lost_def pmtu_ok_def plpmtu_consts Let_def split: purpose.split phase.split)
  then show ?thesis
    by (auto simp: poll_def split: option.split)
qed

definition base_unconfirmed :: "nat \<Rightarrow> pmtu_prober \<Rightarrow> bool" where
  "base_unconfirmed n p \<longleftrightarrow> (\<exists>high. phase_of p = Searching high) \<and> \<not> floor_validated p
     \<and> pending_probe p = None \<and> current p = n"

lemma base_unconfirmed_step:
  assumes "base_unconfirmed n p"
  shows "base_unconfirmed n (poll_probe_refused now p)"
proof -
  from assms obtain high where p: "phase_of p = Searching high" "\<not> floor_validated p"
    "pending_probe p = None" "current p = n"
    by (auto simp: base_unconfirmed_def)
  then have "poll p now = (fst (launch p n Confirm now), Some (snd (launch p n Confirm now)))"
    by (simp add: poll_def poll_phase_def Let_def case_prod_beta)
  then show ?thesis
    using p by (simp add: poll_probe_refused_def on_probe_too_big_def base_unconfirmed_def Let_def)
qed

lemmas pmtu_eval = discover_def poll_def poll_phase_def on_probe_ack_def launch_def take_id_def
  half_up_def clamp_def plpmtu_consts timers_default_def plpmtu_def Let_def

section \<open>Properties\<close>

text \<open>
  C18.  The packetization limit stays within its bounds: after any sequence of polls,
  acknowledgements and kernel feedback, forged or stale ones included, it is at least 512,
  at most the discovery ceiling, and that is at most the configured ceiling and 8972.
\<close>

theorem pmtu_bounds:
  "let p = foldl pmtu_apply (discover c tm now) es
   in 512 \<le> plpmtu p \<and> plpmtu p \<le> ceiling_of p
      \<and> ceiling_of p \<le> clamp 512 8972 c \<and> clamp 512 8972 c \<le> 8972"
proof -
  have "pmtu_ok (foldl pmtu_apply (discover c tm now) es)"
    by (intro pmtu_ok_run pmtu_ok_discover)
  moreover have "max_ceiling (discover c tm now) = clamp 512 8972 c"
    by (simp add: discover_def plpmtu_consts Let_def)
  ultimately show ?thesis
    by (simp add: pmtu_ok_def plpmtu_def plpmtu_consts Let_def clamp_def)
qed

text \<open>
  C19.  Only an acknowledged search probe raises the limit: if any event raises it, that event
  is an acknowledgement whose id and size are those of the outstanding search probe, and the
  new limit is precisely the acknowledged size, within the ceiling.
\<close>

theorem pmtu_raise_only_by_ack:
  assumes "pmtu_ok p" and "plpmtu p < plpmtu (pmtu_apply p e)"
  shows "\<exists>i n now oc. e = Ack i n now \<and> pending_probe p = Some oc \<and> o_id oc = i \<and> o_size oc = n
    \<and> o_purpose oc = Search \<and> plpmtu (pmtu_apply p e) = n \<and> n \<le> ceiling_of p"
proof (cases e)
  case (Poll now)
  then show ?thesis
    using assms current_poll_le [OF assms(1), of now] by (simp add: plpmtu_def)
next
  case (Ack i n now)
  then show ?thesis
    using assms(2)
    by (auto simp: plpmtu_def on_probe_ack_def Let_def split: option.splits if_splits purpose.splits)
next
  case (SendTooBig n k)
  then show ?thesis
    using assms(2) by (simp add: plpmtu_def on_send_too_big_eq Let_def)
next
  case (ProbeTooBig n)
  then show ?thesis
    using assms(2)
    by (auto simp: plpmtu_def on_probe_too_big_def Let_def split: option.splits phase.splits if_splits)
qed

definition probing :: pmtu_prober where
  "probing = fst (poll (on_probe_ack (fst (poll (discover 1500 timers_default 0) 0)) 1 1200 1) 2)"

lemma probing_ok: "pmtu_ok probing"
  unfolding probing_def by (intro pmtu_ok_poll pmtu_ok_ack pmtu_ok_discover)

theorem pmtu_raise_only_by_ack_witness:
  "\<exists>i n now oc. Ack 2 1350 3 = Ack i n now \<and> pending_probe probing = Some oc \<and> o_id oc = i \<and> o_size oc = n
    \<and> o_purpose oc = Search \<and> plpmtu (pmtu_apply probing (Ack 2 1350 3)) = n \<and> n \<le> ceiling_of probing"
proof (rule pmtu_raise_only_by_ack [OF probing_ok])
  show "plpmtu probing < plpmtu (pmtu_apply probing (Ack 2 1350 3))"
    by (simp add: probing_def pmtu_eval)
qed

text \<open>
  Kernel feedback always shrinks the packets: after a send of \<open>attempted\<close> bytes above the
  floor was refused, the new limit is below \<open>attempted\<close>, and never above what it was.
\<close>

theorem send_too_big_shrinks:
  assumes "512 < attempted"
  shows "plpmtu (on_send_too_big p attempted kernel_limit) < attempted
    \<and> plpmtu (on_send_too_big p attempted kernel_limit) \<le> plpmtu p"
proof -
  have "too_big_limit p attempted kernel_limit < attempted"
    using assms by (auto simp: too_big_limit_def clamp_def plpmtu_consts)
  then show ?thesis
    by (simp add: on_send_too_big_eq plpmtu_def Let_def)
qed

theorem send_too_big_shrinks_witness:
  "plpmtu (on_send_too_big (discover 1500 timers_default 0) 1200 None) < 1200
   \<and> plpmtu (on_send_too_big (discover 1500 timers_default 0) 1200 None)
       \<le> plpmtu (discover 1500 timers_default 0)"
  by (rule send_too_big_shrinks) simp

text \<open>
   The upward search converges by bisection: the search probe that \<open>poll\<close> launches lies
  strictly above the current limit and not above the search bound, and whether it is
  acknowledged or lost, the unexplored range shrinks to at most half.
\<close>

theorem search_halves:
  assumes ok: "pmtu_ok p" and ph: "phase_of p = Searching high" and out: "pending_probe p = None"
    and fl: "floor_validated p" and gap: "current p < high" "granularity (timers p) \<le> high - current p"
  shows "\<exists>p' probe oc. poll p now = (p', Some probe) \<and> pending_probe p' = Some oc
    \<and> current p < probe_size probe \<and> probe_size probe \<le> high
    \<and> phase_of (on_probe_ack p' (probe_id probe) (probe_size probe) t) = Searching high
    \<and> high - current (on_probe_ack p' (probe_id probe) (probe_size probe) t) \<le> (high - current p) div 2
    \<and> (\<exists>high'. phase_of (probe_lost p' oc t) = Searching high' \<and> current (probe_lost p' oc t) = current p
          \<and> high' - current p \<le> (high - current p) div 2)"
proof -
  let ?n = "current p + half_up (high - current p)"
  let ?p' = "fst (launch p ?n Search now)"
  have le: "high \<le> ceiling_of p"
    using ok ph by (simp add: pmtu_ok_def)
  note h = half_up_bounds [of "high - current p"]
  have poll: "poll p now = (?p', Some \<lparr>probe_id = next_id p, probe_size = ?n\<rparr>)"
    using assms by (simp add: poll_def poll_phase_def Let_def case_prod_beta)
  have top: "?n \<le> high" "?n \<le> ceiling_of p"
    using h(1) gap(1) le by linarith+
  have ack: "on_probe_ack ?p' (next_id p) ?n t = ?p'\<lparr>pending_probe := None, current := ?n\<rparr>"
    using h gap(1) top by (simp add: on_probe_ack_def Let_def)
  have "min high (?n - 1) - current p \<le> (high - current p) div 2"
    using h(4) by linarith
  then show ?thesis
    using poll ack h gap(1) ph top by (auto simp: probe_lost_def)
qed

definition searching :: pmtu_prober where
  "searching = on_probe_ack (fst (poll (discover 1500 timers_default 0) 0)) 1 1200 1"

theorem search_halves_witness:
  "\<exists>p' probe oc. poll searching 2 = (p', Some probe) \<and> pending_probe p' = Some oc
    \<and> current searching < probe_size probe \<and> probe_size probe \<le> 1500
    \<and> phase_of (on_probe_ack p' (probe_id probe) (probe_size probe) 3) = Searching 1500
    \<and> 1500 - current (on_probe_ack p' (probe_id probe) (probe_size probe) 3) \<le> (1500 - current searching) div 2
    \<and> (\<exists>high'. phase_of (probe_lost p' oc 3) = Searching high'
          \<and> current (probe_lost p' oc 3) = current searching
          \<and> high' - current searching \<le> (1500 - current searching) div 2)"
proof (rule search_halves)
  show "pmtu_ok searching"
    unfolding searching_def by (intro pmtu_ok_poll pmtu_ok_ack pmtu_ok_discover)
  show "phase_of searching = Searching 1500" by (simp add: searching_def pmtu_eval)
  show "pending_probe searching = None" by (simp add: searching_def pmtu_eval)
  show "floor_validated searching" by (simp add: searching_def pmtu_eval)
  show "current searching < 1500" by (simp add: searching_def pmtu_eval)
  show "granularity (timers searching) \<le> 1500 - current searching" by (simp add: searching_def pmtu_eval)
qed

text \<open>
  The deadline is sound: between \<open>now\<close> and the instant \<open>next_deadline\<close> reports, polling
  neither sends a probe nor changes the state, and with no deadline it never does.
\<close>

theorem next_deadline_sound:
  assumes "0 < probe_timeout (timers p)"
  shows "case next_deadline p now of
     None \<Rightarrow> poll p t = (p, None)
   | Some d \<Rightarrow> now \<le> t \<and> t < d \<longrightarrow> poll p t = (p, None)"
  using assms by (auto simp: next_deadline_def poll_def poll_phase_def split: option.split phase.split)

theorem next_deadline_sound_witness:
  "next_deadline probing 3 = Some 1000000002 \<and> poll probing 1000000001 = (probing, None)"
proof
  show d: "next_deadline probing 3 = Some 1000000002"
    by (simp add: next_deadline_def probing_def pmtu_eval)
  have "0 < probe_timeout (timers probing)"
    by (simp add: probing_def pmtu_eval)
  from next_deadline_sound [OF this, of 1000000001 3] show "poll probing 1000000001 = (probing, None)"
    by (simp add: d)
qed

text \<open>
   A refused base probe is retried without end: while the starting size is unconfirmed,
  a probe refused locally is dropped without lowering the limit, so the prober is back in a
  state that asks to be polled at once and launches a probe of the same size again, however
  often this happens.
\<close>

theorem refused_base_probe_repeats:
  assumes "phase_of p = Searching high" and "\<not> floor_validated p" and "pending_probe p = None"
  shows "next_deadline ((poll_probe_refused now ^^ n) p) now = Some now
    \<and> plpmtu ((poll_probe_refused now ^^ n) p) = plpmtu p
    \<and> (\<exists>i. snd (poll ((poll_probe_refused now ^^ n) p) now) = Some \<lparr>probe_id = i, probe_size = plpmtu p\<rparr>)"
proof -
  have "base_unconfirmed (current p) ((poll_probe_refused now ^^ n) p)"
    using assms by (induction n) (simp_all add: base_unconfirmed_step, simp add: base_unconfirmed_def)
  then show ?thesis
    by (auto simp: base_unconfirmed_def poll_def poll_phase_def next_deadline_def plpmtu_def Let_def
        case_prod_beta)
qed

theorem refused_base_probe_repeats_witness:
  "plpmtu ((poll_probe_refused 0 ^^ 1000) (discover 1500 timers_default 0)) = 1200"
proof -
  let ?p = "discover 1500 timers_default 0"
  have "phase_of ?p = Searching 1500" "\<not> floor_validated ?p" "pending_probe ?p = None" "plpmtu ?p = 1200"
    by (simp_all add: discover_def plpmtu_consts clamp_def plpmtu_def Let_def)
  then show ?thesis
    using refused_base_probe_repeats [of ?p 1500 1000 0] by metis
qed

end
