(* ===== verification/Nonce_Cache.thy ===== *)
theory Nonce_Cache
  imports Prelude "HOL-Library.List_Lexorder" "HOL-Library.Product_Lexorder"
begin

text \<open>
  The bounded nonce replay caches of \<open>src/protocol/handoff/replay.rs\<close> and
  \<open>src/server/nxr/replay.rs\<close>, which share one construction: sixteen shards, each a hash map
  from nonces to deadlines with a min-heap of deadlines, and one counter of used slots.  The
  heap is the sorted list of its elements.  Reservations are taken one after the other, as
  the shard mutex orders them; allocation failure is not modelled.  Monotonic times are
  natural numbers without an upper bound, so the deadline \<open>now + retention\<close> always exists: the
  refusal of a deadline past the end of the platform's clock has no counterpart.

  The locale \<open>nonce_store\<close> is the contract both callers rely on; it is interpreted on the two
  caches.
\<close>

section \<open>Shards\<close>

type_synonym nonce = bytes

definition REPLAY_SHARDS :: nat where "REPLAY_SHARDS = 16"

record nonce_shard =
  entries :: "nonce \<Rightarrow> time option"
  expirations :: "(time \<times> nonce) list"

definition shard_default :: nonce_shard where
  "shard_default = \<lparr>entries = (\<lambda>_. None), expirations = []\<rparr>"

text \<open>The purge loop: pop every deadline up to \<open>now\<close> and drop the entry it belongs to.\<close>

fun purge_heap ::
  "(time \<times> nonce) list \<Rightarrow> (nonce \<Rightarrow> time option) \<Rightarrow> time \<Rightarrow> nat
   \<Rightarrow> (time \<times> nonce) list \<times> (nonce \<Rightarrow> time option) \<times> nat"
where
  "purge_heap [] m now removed = ([], m, removed)"
| "purge_heap ((expires_at, n) # heap) m now removed =
    (if expires_at \<le> now
     then if m n = Some expires_at
          then purge_heap heap (m(n := None)) now (removed + 1)
          else purge_heap heap m now removed
     else ((expires_at, n) # heap, m, removed))"

definition purge_nonce_shard :: "nonce_shard \<Rightarrow> time \<Rightarrow> nonce_shard \<times> nat" where
  "purge_nonce_shard sh now =
    (let (heap, m, removed) = purge_heap (expirations sh) (entries sh) now 0
     in (\<lparr>entries = m, expirations = heap\<rparr>, removed))"

section \<open>The cache\<close>

record nonce_cache =
  shards :: "nonce_shard list"
  capacity :: nat
  used :: nat
  retention :: time

datatype nonce_error = Unavailable | Duplicate | Capacity

definition cache_new :: "nat \<Rightarrow> time \<Rightarrow> nonce_error + nonce_cache" where
  "cache_new cap ret =
    (if cap = 0 \<or> ret = 0 then Err Unavailable
     else Ok \<lparr>shards = replicate REPLAY_SHARDS shard_default, capacity = cap, used = 0,
              retention = ret\<rparr>)"

definition nonce_shard_index :: "nonce \<Rightarrow> nat" where
  "nonce_shard_index n = unat (n ! 0) mod REPLAY_SHARDS"

definition purge_expired_at :: "nonce_cache \<Rightarrow> time \<Rightarrow> nonce_cache \<times> nat" where
  "purge_expired_at c now =
    (let purged = map (\<lambda>sh. purge_nonce_shard sh now) (shards c);
         removed = sum_list (map snd purged)
     in (c\<lparr>shards := map fst purged, used := used c - removed\<rparr>, removed))"

definition reserve_slot :: "nonce_cache \<Rightarrow> nonce_error + nonce_cache" where
  "reserve_slot c = (if used c \<ge> capacity c then Err Capacity else Ok (c\<lparr>used := used c + 1\<rparr>))"

definition purge_own :: "nonce_cache \<Rightarrow> nat \<Rightarrow> time \<Rightarrow> nonce_cache" where
  "purge_own c i now =
    (let (sh, removed) = purge_nonce_shard (shards c ! i) now
     in c\<lparr>shards := (shards c)[i := sh], used := used c - removed\<rparr>)"

definition insert_nonce :: "nonce_cache \<Rightarrow> nat \<Rightarrow> nonce \<Rightarrow> time \<Rightarrow> nonce_cache" where
  "insert_nonce c i n expires_at =
    (let sh = shards c ! i
     in c\<lparr>shards := (shards c)[i :=
            \<lparr>entries = (entries sh)(n \<mapsto> expires_at),
             expirations = insort (expires_at, n) (expirations sh)\<rparr>]\<rparr>)"

text \<open>One round of the reservation loop; \<open>None\<close> asks for the full sweep and another round.\<close>

definition reserve_round ::
  "nonce_cache \<Rightarrow> nonce \<Rightarrow> time \<Rightarrow> (nonce_error + unit) option \<times> nonce_cache"
where
  "reserve_round c0 n now =
    (let i = nonce_shard_index n;
         c = purge_own c0 i now
     in if entries (shards c ! i) n \<noteq> None then (Some (Err Duplicate), c)
        else if used c \<ge> capacity c then (None, c)
        else case reserve_slot c of
               Inl _ \<Rightarrow> (None, c)
             | Inr c' \<Rightarrow> (Some (Ok ()), insert_nonce c' i n (now + retention c)))"

definition reserve_at :: "nonce_cache \<Rightarrow> nonce \<Rightarrow> time \<Rightarrow> (nonce_error + unit) \<times> nonce_cache" where
  "reserve_at c n now =
    (case reserve_round c n now of
       (Some r, c') \<Rightarrow> (r, c')
     | (None, c') \<Rightarrow>
        (case reserve_round (fst (purge_expired_at c' now)) n now of
           (Some r, c'') \<Rightarrow> (r, c'')
         | (None, c'') \<Rightarrow> (Err Capacity, c'')))"

text \<open>The Handoff cache reports every refusal as one error.\<close>

datatype handoff_replay_error = HandoffReplay

definition handoff_reserve_at ::
  "nonce_cache \<Rightarrow> nonce \<Rightarrow> time \<Rightarrow> (handoff_replay_error + unit) \<times> nonce_cache"
where
  "handoff_reserve_at c n now =
    (let (r, c') = reserve_at c n now in (map_err (\<lambda>_. HandoffReplay) r, c'))"

definition replay_retention_seconds :: "u64 \<Rightarrow> u64" where
  "replay_retention_seconds d =
    (if unat d * 2 + 1 < 2 ^ 64 then d * 2 + 1 else - 1)"

section \<open>The contract\<close>

text \<open>
  \<open>live s t\<close> are the nonces a store still remembers at time \<open>t\<close>.  A reservation succeeds only
  for a nonce that is not live, makes it live for \<open>keep\<close>, and never forgets a live nonce.
\<close>

locale nonce_store =
  fixes reserve :: "'s \<Rightarrow> nonce \<Rightarrow> time \<Rightarrow> ('e + unit) \<times> 's"
    and inv :: "'s \<Rightarrow> bool"
    and live :: "'s \<Rightarrow> time \<Rightarrow> nonce set"
    and keep :: "'s \<Rightarrow> time"
  assumes reserve_inv: "inv s \<Longrightarrow> inv (snd (reserve s n now))"
    and reserve_keep: "inv s \<Longrightarrow> keep (snd (reserve s n now)) = keep s"
    and reserve_fresh: "inv s \<Longrightarrow> fst (reserve s n now) = Inr () \<Longrightarrow> n \<notin> live s now"
    and reserve_live: "inv s \<Longrightarrow> now \<le> t \<Longrightarrow> live s t \<subseteq> live (snd (reserve s n now)) t"
    and reserve_adds: "inv s \<Longrightarrow> fst (reserve s n now) = Inr () \<Longrightarrow> now \<le> t \<Longrightarrow> t < now + keep s
        \<Longrightarrow> n \<in> live (snd (reserve s n now)) t"
begin

text \<open>A run of reservations, with the answer to each.\<close>

fun reservations :: "'s \<Rightarrow> (nonce \<times> time) list \<Rightarrow> ('e + unit) list" where
  "reservations s [] = []"
| "reservations s ((n, now) # rs) = (let (a, s') = reserve s n now in a # reservations s' rs)"

lemma live_not_reserved:
  assumes "inv s" and "sorted (map snd rs)" and "\<forall>(m, t) \<in> set rs. n \<in> live s t"
    and "i < length rs" and "fst (rs ! i) = n"
  shows "\<exists>e. reservations s rs ! i = Inl e"
  using assms
proof (induction rs arbitrary: s i)
  case (Cons r rs)
  obtain m t where r: "r = (m, t)"
    by (cases r)
  obtain a s' where res: "reserve s m t = (a, s')"
    by fastforce
  have s': "inv s'"
    using reserve_inv [OF Cons.prems(1), of m t] res by simp
  have later: "\<forall>(m', t') \<in> set rs. n \<in> live s' t'"
    using Cons.prems(2,3) reserve_live [OF Cons.prems(1), of t _ m] res r by fastforce
  show ?case
  proof (cases i)
    case 0
    then have "n \<in> live s t" "m = n"
      using Cons.prems(3,5) r by auto
    then have "a \<noteq> Inr ()"
      using reserve_fresh [OF Cons.prems(1), of m t] res by auto
    then show ?thesis
      using 0 r res by (cases a) auto
  next
    case (Suc j)
    then show ?thesis
      using Cons.IH [OF s' _ later, of j] Cons.prems(2,4,5) r res by simp
  qed
qed simp

lemma reserved_once:
  assumes "inv s" and "sorted (map snd rs)" and "i < j" and "j < length rs"
    and "fst (rs ! i) = fst (rs ! j)" and "snd (rs ! j) < snd (rs ! i) + keep s"
    and "reservations s rs ! i = Inr ()"
  shows "\<exists>e. reservations s rs ! j = Inl e"
  using assms
proof (induction rs arbitrary: s i j)
  case (Cons r rs)
  obtain m t where r: "r = (m, t)"
    by (cases r)
  obtain a s' where res: "reserve s m t = (a, s')"
    by fastforce
  have s': "inv s'" "keep s' = keep s"
    using reserve_inv [OF Cons.prems(1), of m t] reserve_keep [OF Cons.prems(1), of m t] res by simp_all
  obtain j' where j: "j = Suc j'"
    using Cons.prems(3) by (cases j) auto
  show ?case
  proof (cases i)
    case 0
    let ?rs = "take (Suc j') rs"
    have "a = Inr ()"
      using Cons.prems(7) 0 r res by simp
    then have "m \<in> live s' t'" if "t \<le> t'" "t' < t + keep s" for t'
      using reserve_adds [OF Cons.prems(1), of m t t'] res that by simp
    moreover have "\<forall>(m', t') \<in> set ?rs. t \<le> t'"
      using Cons.prems(2) r by (auto dest!: in_set_takeD)
    moreover have "\<forall>(m', t') \<in> set ?rs. t' \<le> snd (rs ! j')"
    proof -
      have "sorted (map snd rs)" "j' < length rs"
        using Cons.prems(2,4) r j by auto
      then show ?thesis
        by (auto simp: in_set_conv_nth sorted_iff_nth_mono split: prod.splits)
           (metis (no_types, lifting) le_trans length_map less_Suc_eq_le nth_map snd_conv sorted_iff_nth_mono)
    qed
    ultimately have "\<forall>(m', t') \<in> set ?rs. m \<in> live s' t'"
      using Cons.prems(6) 0 r j by fastforce
    moreover have "sorted (map snd ?rs)"
      using Cons.prems(2) r by (metis list.simps(9) sorted_simps(2) sorted_wrt_take take_map)
    ultimately have "\<exists>e. reservations s' ?rs ! j' = Inl e"
      using live_not_reserved [OF s'(1), of ?rs m j'] Cons.prems(4,5) 0 r j by simp
    moreover have "reservations s' (take k qs) = take k (reservations s' qs)" for k s' qs
      by (induction qs arbitrary: k s') (auto simp: take_Cons' Let_def split: prod.splits)
    ultimately show ?thesis
      using j r res by simp
  next
    case (Suc i')
    then show ?thesis
      using Cons.IH [of s' i' j'] s' Cons.prems r res j by simp
  qed
qed simp

end

section \<open>The invariant\<close>

definition shard_ok :: "nonce_shard \<Rightarrow> bool" where
  "shard_ok sh \<longleftrightarrow> sorted (expirations sh) \<and> distinct (expirations sh)
     \<and> (\<forall>n e. entries sh n = Some e \<longleftrightarrow> (e, n) \<in> set (expirations sh))"

definition cache_ok :: "nonce_cache \<Rightarrow> bool" where
  "cache_ok c \<longleftrightarrow> length (shards c) = REPLAY_SHARDS
     \<and> (\<forall>sh \<in> set (shards c). shard_ok sh)
     \<and> (\<forall>i < REPLAY_SHARDS. \<forall>n. entries (shards c ! i) n \<noteq> None \<longrightarrow> i = nonce_shard_index n)
     \<and> used c = sum_list (map (\<lambda>sh. length (expirations sh)) (shards c))
     \<and> used c \<le> capacity c"

definition remembered :: "nonce_cache \<Rightarrow> time \<Rightarrow> nonce set" where
  "remembered c t = {n. \<exists>e. entries (shards c ! nonce_shard_index n) n = Some e \<and> t < e}"

lemma index_less [simp]: "nonce_shard_index n < REPLAY_SHARDS"
  by (simp add: nonce_shard_index_def REPLAY_SHARDS_def)

text \<open>Purging keeps precisely the entries whose deadline is after \<open>now\<close>.\<close>

lemma purge_heap_ok:
  assumes "sorted heap" and "distinct heap" and "\<forall>n e. m n = Some e \<longleftrightarrow> (e, n) \<in> set heap"
    and "purge_heap heap m now k = (heap', m', k')"
  shows "sorted heap' \<and> distinct heap' \<and> (\<forall>n e. m' n = Some e \<longleftrightarrow> (e, n) \<in> set heap')
    \<and> (\<forall>n e. m' n = Some e \<longleftrightarrow> m n = Some e \<and> now < e)
    \<and> k' + length heap' = k + length heap"
  using assms
proof (induction heap m now k rule: purge_heap.induct)
  case (2 e n heap m now k)
  have own: "m n = Some e"
    using "2.prems"(3) by simp
  show ?case
  proof (cases "e \<le> now")
    case True
    have mem: "\<forall>n' e'. (m(n := None)) n' = Some e' \<longleftrightarrow> (e', n') \<in> set heap"
      using "2.prems"(2,3) own by (auto, metis option.inject)
    have p: "purge_heap heap (m(n := None)) now (k + 1) = (heap', m', k')"
      using "2.prems"(4) True own by simp
    have "sorted heap" "distinct heap"
      using "2.prems"(1,2) by simp_all
    note ih = "2.IH"(1) [OF True own this mem p]
    have "m' n' = Some e' \<longleftrightarrow> m n' = Some e' \<and> now < e'" for n' e'
    proof -
      have "m' n' = Some e' \<longleftrightarrow> (m(n := None)) n' = Some e' \<and> now < e'"
        using ih by blast
      then show ?thesis
        using own True by (cases "n' = n") auto
    qed
    then show ?thesis
      using ih by (simp del: fun_upd_apply)
  next
    case False
    have "e \<le> e'" if "(e', n') \<in> set heap" for e' n'
      using "2.prems"(1) that by (auto simp: less_eq_prod_def)
    then show ?thesis
      using "2.prems" False by fastforce
  qed
qed auto

lemma purge_shard_ok:
  assumes "shard_ok sh" and "purge_nonce_shard sh now = (sh', k)"
  shows "shard_ok sh'" "\<And>n e. entries sh' n = Some e \<longleftrightarrow> entries sh n = Some e \<and> now < e"
    "k + length (expirations sh') = length (expirations sh)"
proof -
  obtain heap' m' k' where p: "purge_heap (expirations sh) (entries sh) now 0 = (heap', m', k')"
    using prod_cases3 by blast
  have "sh' = \<lparr>entries = m', expirations = heap'\<rparr>" "k = k'"
    using assms(2) p by (simp_all add: purge_nonce_shard_def)
  moreover have "sorted (expirations sh)" "distinct (expirations sh)"
    "\<forall>n e. entries sh n = Some e \<longleftrightarrow> (e, n) \<in> set (expirations sh)"
    using assms(1) by (auto simp: shard_ok_def)
  note purge_heap_ok [OF this p]
  ultimately show "shard_ok sh'" "\<And>n e. entries sh' n = Some e \<longleftrightarrow> entries sh n = Some e \<and> now < e"
    "k + length (expirations sh') = length (expirations sh)"
    by (auto simp: shard_ok_def)
qed

lemma sum_list_map_update:
  fixes f :: "'a \<Rightarrow> nat"
  shows "i < length xs \<Longrightarrow> sum_list (map f (xs[i := x])) + f (xs ! i) = sum_list (map f xs) + f x"
  by (induction xs arbitrary: i) (auto split: nat.splits)

lemma purge_own_ok:
  assumes ok: "cache_ok c" and i: "i < REPLAY_SHARDS"
  shows "cache_ok (purge_own c i now)" "capacity (purge_own c i now) = capacity c"
    "retention (purge_own c i now) = retention c"
    "now \<le> t \<Longrightarrow> remembered (purge_own c i now) t = remembered c t"
    "entries (shards (purge_own c i now) ! i) n = Some e \<longleftrightarrow> entries (shards c ! i) n = Some e \<and> now < e"
proof -
  obtain sh k where p: "purge_nonce_shard (shards c ! i) now = (sh, k)"
    by fastforce
  have len: "length (shards c) = REPLAY_SHARDS" and old: "shard_ok (shards c ! i)"
    using ok i by (auto simp: cache_ok_def)
  note sh = purge_shard_ok [OF old p]
  have c': "purge_own c i now = c\<lparr>shards := (shards c)[i := sh], used := used c - k\<rparr>"
    by (simp add: purge_own_def p)
  have "sum_list (map (\<lambda>sh. length (expirations sh)) ((shards c)[i := sh])) + k
      = sum_list (map (\<lambda>sh. length (expirations sh)) (shards c))"
    using sum_list_map_update [of i "shards c" "\<lambda>sh. length (expirations sh)" sh] sh(3) i len by simp
  then have "used c - k = sum_list (map (\<lambda>sh. length (expirations sh)) ((shards c)[i := sh]))"
    using ok by (simp add: cache_ok_def)
  moreover have "\<forall>x \<in> set ((shards c)[i := sh]). shard_ok x"
    using ok sh(1) set_update_subset_insert [of "shards c" i sh] by (auto simp: cache_ok_def)
  moreover have "\<forall>j < REPLAY_SHARDS. \<forall>n. entries ((shards c)[i := sh] ! j) n \<noteq> None \<longrightarrow> j = nonce_shard_index n"
    using ok sh(2) len i by (auto simp: cache_ok_def nth_list_update)
  moreover have "used c - k \<le> capacity c"
    using ok unfolding cache_ok_def by linarith
  ultimately show "cache_ok (purge_own c i now)"
    using len unfolding c' cache_ok_def by simp
  show "capacity (purge_own c i now) = capacity c" "retention (purge_own c i now) = retention c"
    by (simp_all add: c')
  show "remembered (purge_own c i now) t = remembered c t" if "now \<le> t"
    using that sh(2) len i by (auto simp: c' remembered_def nth_list_update)
  show "entries (shards (purge_own c i now) ! i) n = Some e \<longleftrightarrow> entries (shards c ! i) n = Some e \<and> now < e"
    using sh(2) len i by (simp add: c')
qed

lemma purge_all_ok:
  assumes ok: "cache_ok c"
  shows "cache_ok (fst (purge_expired_at c now))"
    "capacity (fst (purge_expired_at c now)) = capacity c"
    "retention (fst (purge_expired_at c now)) = retention c"
    "now \<le> t \<Longrightarrow> remembered (fst (purge_expired_at c now)) t = remembered c t"
    "\<And>i n e. i < REPLAY_SHARDS \<Longrightarrow> entries (shards (fst (purge_expired_at c now)) ! i) n = Some e
       \<longleftrightarrow> entries (shards c ! i) n = Some e \<and> now < e"
proof -
  let ?f = "\<lambda>sh. purge_nonce_shard sh now"
  have len: "length (shards c) = REPLAY_SHARDS"
    using ok by (simp add: cache_ok_def)
  have all: "shard_ok (fst (?f sh)) \<and> (\<forall>n e. entries (fst (?f sh)) n = Some e \<longleftrightarrow> entries sh n = Some e \<and> now < e)
      \<and> snd (?f sh) + length (expirations (fst (?f sh))) = length (expirations sh)"
    if "sh \<in> set (shards c)" for sh
    using purge_shard_ok [of sh now "fst (?f sh)" "snd (?f sh)"] ok that by (auto simp: cache_ok_def)
  have "sum_list (map (\<lambda>sh. snd (?f sh)) xs) + sum_list (map (\<lambda>sh. length (expirations (fst (?f sh)))) xs)
      = sum_list (map (\<lambda>sh. length (expirations sh)) xs)" if "set xs \<subseteq> set (shards c)" for xs
    using that all by (induction xs) (auto simp: algebra_simps)
  then have "used c - sum_list (map snd (map ?f (shards c)))
      = sum_list (map (\<lambda>sh. length (expirations sh)) (map fst (map ?f (shards c))))"
    using ok [unfolded cache_ok_def] by (simp add: comp_def) (metis add_diff_cancel_left' order_refl)
  then show "cache_ok (fst (purge_expired_at c now))"
    using ok all len
    by (auto simp: purge_expired_at_def cache_ok_def Let_def)
  show "capacity (fst (purge_expired_at c now)) = capacity c"
    "retention (fst (purge_expired_at c now)) = retention c"
    by (simp_all add: purge_expired_at_def Let_def)
  show e: "entries (shards (fst (purge_expired_at c now)) ! i) n = Some e
       \<longleftrightarrow> entries (shards c ! i) n = Some e \<and> now < e" if "i < REPLAY_SHARDS" for i n e
    using all len that by (simp add: purge_expired_at_def Let_def)
  show "remembered (fst (purge_expired_at c now)) t = remembered c t" if "now \<le> t"
    using e that by (auto simp: remembered_def)
qed

lemma cache_ok_new: "cache_new cap ret = Ok c \<Longrightarrow> cache_ok c"
  by (auto simp: cache_new_def cache_ok_def shard_ok_def shard_default_def sum_list_replicate split: if_splits)

lemma shard_ok_insert:
  assumes "shard_ok sh" and "entries sh n = None"
  shows "shard_ok \<lparr>entries = (entries sh)(n \<mapsto> e), expirations = insort (e, n) (expirations sh)\<rparr>"
  using assms by (auto simp: shard_ok_def sorted_insort distinct_insort set_insort_key) (metis option.distinct(1))+

lemma insert_nonce_ok:
  fixes c :: nonce_cache and n :: nonce and e :: time
  defines "i \<equiv> nonce_shard_index n"
  assumes ok: "cache_ok c" and fresh: "entries (shards c ! i) n = None" and room: "used c < capacity c"
  shows "cache_ok (insert_nonce (c\<lparr>used := used c + 1\<rparr>) i n e)"
    "remembered (insert_nonce (c\<lparr>used := used c + 1\<rparr>) i n e) t
       = (if t < e then insert n (remembered c t) else remembered c t)"
proof -
  let ?sh = "\<lparr>entries = (entries (shards c ! i))(n \<mapsto> e),
      expirations = insort (e, n) (expirations (shards c ! i))\<rparr>"
  have i: "i < length (shards c)" "shards c ! i \<in> set (shards c)" "i < REPLAY_SHARDS"
    using ok by (auto simp: cache_ok_def i_def)
  have c': "insert_nonce (c\<lparr>used := used c + 1\<rparr>) i n e = c\<lparr>used := used c + 1, shards := (shards c)[i := ?sh]\<rparr>"
    by (simp add: insert_nonce_def Let_def)
  have "shard_ok ?sh"
    using ok i fresh by (intro shard_ok_insert) (auto simp: cache_ok_def)
  then have "\<forall>x \<in> set ((shards c)[i := ?sh]). shard_ok x"
    using ok set_update_subset_insert [of "shards c" i ?sh] by (auto simp: cache_ok_def)
  moreover have "sum_list (map (\<lambda>sh. length (expirations sh)) ((shards c)[i := ?sh])) = used c + 1"
    using sum_list_map_update [OF i(1), of "\<lambda>sh. length (expirations sh)" ?sh] ok by (simp add: cache_ok_def)
  moreover have "\<forall>j < REPLAY_SHARDS. \<forall>m. entries ((shards c)[i := ?sh] ! j) m \<noteq> None \<longrightarrow> j = nonce_shard_index m"
    using ok i by (auto simp: cache_ok_def nth_list_update i_def)
  moreover have "length (shards c) = REPLAY_SHARDS"
    using ok by (simp add: cache_ok_def)
  ultimately show "cache_ok (insert_nonce (c\<lparr>used := used c + 1\<rparr>) i n e)"
    using room unfolding c' cache_ok_def by simp
  show "remembered (insert_nonce (c\<lparr>used := used c + 1\<rparr>) i n e) t
       = (if t < e then insert n (remembered c t) else remembered c t)"
    using i fresh unfolding c' by (auto simp: remembered_def nth_list_update i_def)
qed

section \<open>Reservations\<close>

lemma used_card:
  assumes ok: "cache_ok c"
  shows "used c = card {n. entries (shards c ! nonce_shard_index n) n \<noteq> None}"
    and "finite {n. entries (shards c ! nonce_shard_index n) n \<noteq> None}"
proof -
  let ?keys = "\<lambda>i. {n. entries (shards c ! i) n \<noteq> None}"
  have len: "length (shards c) = REPLAY_SHARDS"
    using ok by (simp add: cache_ok_def)
  have keys: "?keys i = snd ` set (expirations (shards c ! i))" "card (?keys i) = length (expirations (shards c ! i))"
    if "i < REPLAY_SHARDS" for i
  proof -
    have sh: "shard_ok (shards c ! i)"
      using ok that len by (auto simp: cache_ok_def)
    show eq: "?keys i = snd ` set (expirations (shards c ! i))"
      using sh by (force simp: shard_ok_def)
    have "inj_on snd (set (expirations (shards c ! i)))"
      using sh by (auto simp: shard_ok_def inj_on_def) (metis option.inject)
    moreover have "distinct (expirations (shards c ! i))"
      using sh by (simp add: shard_ok_def)
    ultimately show "card (?keys i) = length (expirations (shards c ! i))"
      unfolding eq by (simp add: card_image distinct_card)
  qed
  have own: "i = nonce_shard_index n" if "i < REPLAY_SHARDS" "n \<in> ?keys i" for i n
    using ok that unfolding cache_ok_def by blast
  have un: "{n. entries (shards c ! nonce_shard_index n) n \<noteq> None} = (\<Union>i < REPLAY_SHARDS. ?keys i)"
    using own index_less by blast
  have fin: "\<forall>i \<in> {..<REPLAY_SHARDS}. finite (?keys i)"
  proof
    fix i
    assume "i \<in> {..<REPLAY_SHARDS}"
    then show "finite (?keys i)"
      using keys(1) [of i] by (metis finite_imageI finite_set lessThan_iff)
  qed
  then show "finite {n. entries (shards c ! nonce_shard_index n) n \<noteq> None}"
    unfolding un by blast
  have "card (\<Union>i < REPLAY_SHARDS. ?keys i) = (\<Sum>i < REPLAY_SHARDS. card (?keys i))"
    by (rule card_UN_disjoint) (use fin own in blast)+
  also have "\<dots> = sum_list (map (\<lambda>sh. length (expirations sh)) (shards c))"
    using keys(2) len by (simp add: sum_list_sum_nth atLeast0LessThan)
  finally show "used c = card {n. entries (shards c ! nonce_shard_index n) n \<noteq> None}"
    unfolding un using ok by (simp add: cache_ok_def)
qed

lemma remembered_le_used: "cache_ok c \<Longrightarrow> card (remembered c t) \<le> used c"
  unfolding used_card(1) by (rule card_mono [OF used_card(2)]) (auto simp: remembered_def)

text \<open>The three outcomes of one round.\<close>

lemma reserve_round_cases:
  assumes ok: "cache_ok c" and r: "reserve_round c n now = (a, c')"
  shows "cache_ok c' \<and> capacity c' = capacity c \<and> retention c' = retention c
    \<and> (case a of
         Some (Inl e) \<Rightarrow> e = Duplicate \<and> n \<in> remembered c now \<and> (\<forall>t \<ge> now. remembered c' t = remembered c t)
       | Some (Inr u) \<Rightarrow> n \<notin> remembered c now \<and> card (remembered c now) < capacity c \<and> (\<forall>t \<ge> now. remembered c' t =
            (if t < now + retention c then insert n (remembered c t) else remembered c t))
       | None \<Rightarrow> n \<notin> remembered c now \<and> used c' \<ge> capacity c \<and> (\<forall>t \<ge> now. remembered c' t = remembered c t))"
proof -
  let ?i = "nonce_shard_index n"
  let ?c = "purge_own c ?i now"
  note p = purge_own_ok [OF ok index_less [of n], of now]
  have mem: "entries (shards ?c ! ?i) n = None \<longleftrightarrow> n \<notin> remembered c now"
    using p(5) [of n] by (auto simp: remembered_def simp flip: not_Some_eq)
  consider (dup) "n \<in> remembered c now" | (full) "n \<notin> remembered c now" "used ?c \<ge> capacity c"
    | (room) "n \<notin> remembered c now" "used ?c < capacity c"
    by linarith
  then show ?thesis
  proof cases
    case dup
    then have "a = Some (Err Duplicate)" "c' = ?c"
      using r mem by (auto simp: reserve_round_def Let_def simp del: not_None_eq)
    then show ?thesis
      using p dup by simp
  next
    case full
    then have "a = None" "c' = ?c"
      using r mem p(2) by (auto simp: reserve_round_def Let_def)
    then show ?thesis
      using p full by simp
  next
    case room
    then have "a = Some (Ok ())" "c' = insert_nonce (?c\<lparr>used := used ?c + 1\<rparr>) ?i n (now + retention c)"
      using r mem p(2,3) by (auto simp: reserve_round_def reserve_slot_def Let_def)
    moreover have "card (remembered c now) < capacity c"
      using remembered_le_used [OF p(1), of now] p(4) [of now] room by simp
    ultimately show ?thesis
      using insert_nonce_ok [OF p(1), of n "now + retention c"] mem room p(2,3,4)
      by (auto simp: insert_nonce_def Let_def)
  qed
qed

lemma full_after_sweep:
  assumes ok: "cache_ok c" and r: "reserve_round (fst (purge_expired_at c now)) n now = (None, c')"
  shows "capacity c \<le> card (remembered c now)"
proof -
  let ?c = "fst (purge_expired_at c now)"
  note p = purge_all_ok [OF ok, where now = now]
  note q = reserve_round_cases [OF p(1) r]
  have "entries (shards c' ! nonce_shard_index m) m \<noteq> None \<longleftrightarrow> m \<in> remembered c' now" for m
  proof -
    have "c' = purge_own ?c (nonce_shard_index n) now"
      using r by (auto simp: reserve_round_def Let_def split: if_splits sum.splits)
    then have "entries (shards c' ! nonce_shard_index m) m = Some e \<Longrightarrow> now < e" for e
      using purge_own_ok(5) [OF p(1) index_less [of n], of now m e] p(5) [OF index_less [of m], of m e]
        purge_own_def [of ?c "nonce_shard_index n" now]
      by (cases "nonce_shard_index m = nonce_shard_index n") (auto simp: case_prod_beta)
    then show ?thesis
      by (auto simp: remembered_def)
  qed
  then have "used c' = card (remembered c' now)"
    using used_card(1) [of c'] q by simp
  moreover have "remembered c' now = remembered c now"
    using q p(4) [of now] by simp
  ultimately show ?thesis
    using q p(2) by simp
qed

lemma reserve_at_cases:
  assumes ok: "cache_ok c" and r: "reserve_at c n now = (a, c')"
  shows "cache_ok c' \<and> capacity c' = capacity c \<and> retention c' = retention c
    \<and> (case a of
         Inl e \<Rightarrow> (\<forall>t \<ge> now. remembered c' t = remembered c t)
           \<and> (e = Duplicate \<and> n \<in> remembered c now
              \<or> e = Capacity \<and> n \<notin> remembered c now \<and> capacity c \<le> card (remembered c now))
       | Inr u \<Rightarrow> n \<notin> remembered c now \<and> card (remembered c now) < capacity c \<and> (\<forall>t \<ge> now. remembered c' t =
            (if t < now + retention c then insert n (remembered c t) else remembered c t)))"
proof -
  obtain a1 c1 where r1: "reserve_round c n now = (a1, c1)"
    by fastforce
  note q1 = reserve_round_cases [OF ok r1]
  show ?thesis
  proof (cases a1)
    case (Some b)
    then show ?thesis
      using q1 r r1 by (cases b) (auto simp: reserve_at_def)
  next
    case None
    let ?c = "fst (purge_expired_at c1 now)"
    obtain a2 c2 where r2: "reserve_round ?c n now = (a2, c2)"
      by fastforce
    have c1: "cache_ok c1"
      using q1 by simp
    note p = purge_all_ok [OF c1, where now = now]
    note q2 = reserve_round_cases [OF p(1) r2]
    have same: "\<forall>t \<ge> now. remembered ?c t = remembered c t"
      using q1 None p(4) by simp
    show ?thesis
    proof (cases a2)
      case None2: None
      then have "capacity c \<le> card (remembered c now)"
        using full_after_sweep [OF c1, of now n c2] r2 q1 None by simp
      then show ?thesis
        using q2 None None2 r r1 r2 same q1 p(2,3) by (auto simp: reserve_at_def)
    next
      case (Some b)
      then show ?thesis
        using q2 None r r1 r2 same q1 p(2,3) by (cases b) (auto simp: reserve_at_def)
    qed
  qed
qed

lemma reserve_at_facts:
  assumes ok: "cache_ok c"
  shows "cache_ok (snd (reserve_at c n now))" "retention (snd (reserve_at c n now)) = retention c"
    "fst (reserve_at c n now) = Inr () \<Longrightarrow> n \<notin> remembered c now"
    "now \<le> t \<Longrightarrow> remembered c t \<subseteq> remembered (snd (reserve_at c n now)) t"
    "fst (reserve_at c n now) = Inr () \<Longrightarrow> now \<le> t \<Longrightarrow> t < now + retention c
       \<Longrightarrow> n \<in> remembered (snd (reserve_at c n now)) t"
proof -
  obtain a c' where r: "reserve_at c n now = (a, c')"
    by fastforce
  note q = reserve_at_cases [OF ok r]
  show "cache_ok (snd (reserve_at c n now))" "retention (snd (reserve_at c n now)) = retention c"
    using q r by auto
  show "n \<notin> remembered c now" if "fst (reserve_at c n now) = Inr ()"
    using q r that by auto
  show "remembered c t \<subseteq> remembered (snd (reserve_at c n now)) t" if "now \<le> t"
    using q r that by (cases a) auto
  show "n \<in> remembered (snd (reserve_at c n now)) t"
    if "fst (reserve_at c n now) = Inr ()" "now \<le> t" "t < now + retention c"
    using q r that by auto
qed

interpretation nxr_cache: nonce_store reserve_at cache_ok remembered retention
  by unfold_locales (simp_all add: reserve_at_facts)

lemma handoff_reserve_at_eq:
  "snd (handoff_reserve_at c n now) = snd (reserve_at c n now)"
  "fst (handoff_reserve_at c n now) = Inr () \<longleftrightarrow> fst (reserve_at c n now) = Inr ()"
  by (simp_all add: handoff_reserve_at_def case_prod_beta Let_def map_err_Ok_iff)

interpretation handoff_cache: nonce_store handoff_reserve_at cache_ok remembered retention
  by unfold_locales (simp_all add: handoff_reserve_at_eq reserve_at_facts)

lemma cache_new_reserve:
  assumes c: "cache_new cap ret = Ok c"
  shows "handoff_reserve_at c n now = (Ok (), snd (handoff_reserve_at c n now))"
proof -
  have "remembered c now = {}" "0 < capacity c"
    using c by (auto simp: cache_new_def remembered_def shard_default_def REPLAY_SHARDS_def
        nonce_shard_index_def split: if_splits)
  moreover obtain a c' where r: "reserve_at c n now = (a, c')"
    by fastforce
  ultimately have "a = Ok ()"
    using reserve_at_cases [OF cache_ok_new [OF c] r] by (cases a) auto
  then show ?thesis
    using r by (simp add: handoff_reserve_at_def)
qed

section \<open>Properties\<close>

text \<open>
  C24.  No nonce is reserved twice within its retention: in any run of reservations with
  monotonic times on a well-formed cache, after a successful reservation of a nonce every
  further one of the same nonce less than \<open>retention\<close> later is refused.
\<close>

theorem nonce_reserved_once:
  assumes "cache_ok c" and "sorted (map snd rs)" and "i < j" and "j < length rs"
    and "fst (rs ! i) = fst (rs ! j)" and "snd (rs ! j) < snd (rs ! i) + retention c"
    and "handoff_cache.reservations c rs ! i = Ok ()"
  shows "handoff_cache.reservations c rs ! j = Err HandoffReplay"
  using handoff_cache.reserved_once [OF assms] by (metis handoff_replay_error.exhaust)

definition one_shot :: "(nonce \<times> time) list" where
  "one_shot = [(replicate 16 5, 10), (replicate 16 5, 19)]"

theorem nonce_reserved_once_witness:
  "\<exists>c. cache_new 4 10 = Ok c \<and> handoff_cache.reservations c one_shot ! 1 = Err HandoffReplay"
proof -
  obtain c where c: "cache_new 4 10 = Ok c"
    by (simp add: cache_new_def)
  have ok: "cache_ok c"
    using c by (rule cache_ok_new)
  have ret: "retention c = 10"
    using c by (auto simp: cache_new_def)
  have "fst (handoff_reserve_at c (replicate 16 5) 10) = Ok ()"
    using cache_new_reserve [OF c] by (metis fst_conv)
  then have first: "handoff_cache.reservations c one_shot ! 0 = Ok ()"
    by (auto simp: one_shot_def split: prod.split)
  have "handoff_cache.reservations c one_shot ! 1 = Err HandoffReplay"
    by (rule nonce_reserved_once [OF ok _ _ _ _ _ first]) (simp_all add: one_shot_def ret)
  with c show ?thesis
    by blast
qed

text \<open>
  C25.  The cache decides exactly: a reservation is refused as a duplicate precisely when the
  nonce is still remembered, refused for capacity precisely when it is not remembered but
  \<open>capacity\<close> unexpired nonces are, and granted otherwise, in which case the nonce is
  remembered for precisely the retention period and nothing else changes.
\<close>

theorem reserve_exact:
  assumes "cache_ok c"
  shows "fst (reserve_at c n now) =
      (if n \<in> remembered c now then Err Duplicate
       else if capacity c \<le> card (remembered c now) then Err Capacity else Ok ())
    \<and> (\<forall>t \<ge> now. remembered (snd (reserve_at c n now)) t =
         (if fst (reserve_at c n now) = Ok () \<and> t < now + retention c
          then insert n (remembered c t) else remembered c t))
    \<and> cache_ok (snd (reserve_at c n now))"
proof -
  obtain a c' where r: "reserve_at c n now = (a, c')"
    by fastforce
  note q = reserve_at_cases [OF assms r]
  show ?thesis
    using q r by (cases a) auto
qed

theorem reserve_exact_witness:
  "\<exists>c. cache_new 4 10 = Ok c
     \<and> fst (reserve_at c (replicate 16 5) 3) = (if replicate 16 5 \<in> remembered c 3 then Err Duplicate
          else if capacity c \<le> card (remembered c 3) then Err Capacity else Ok ())"
proof -
  obtain c where c: "cache_new 4 10 = Ok c"
    by (simp add: cache_new_def)
  with reserve_exact [OF cache_ok_new [OF c], of "replicate 16 5" 3] show ?thesis
    by blast
qed

end
