(* ===== verification/Admission.thy ===== *)
theory Admission
  imports Nonce_Cache
begin

text \<open>
  Admission of authenticated openings.  Both openings of the LINE to LANDING hop -- the OPEN
  packet of the UDP channel and the NXR request -- carry a timestamp and a nonce; the receiver
  compares the timestamp with its wall clock and reserves the nonce in a replay cache at its
  monotonic clock.  That the two checks together admit nothing twice is proved once, over the
  contract of the nonce store.
\<close>

definition abs_diff :: "u64 \<Rightarrow> u64 \<Rightarrow> nat" where
  "abs_diff a b = (if unat a \<le> unat b then unat b - unat a else unat a - unat b)"

locale timed_admission = nonce_store reserve inv live keep
  for reserve :: "'s \<Rightarrow> nonce \<Rightarrow> time \<Rightarrow> ('e + unit) \<times> 's"
    and inv :: "'s \<Rightarrow> bool" and live :: "'s \<Rightarrow> time \<Rightarrow> nonce set" and keep :: "'s \<Rightarrow> time" +
  fixes admit :: "'s \<Rightarrow> 'a \<Rightarrow> ('f + 'r) \<times> 's"
    and nonce_of :: "'a \<Rightarrow> nonce"
    and stamp_of :: "'a \<Rightarrow> u64"
    and wall_of :: "'a \<Rightarrow> u64"
    and mono_of :: "'a \<Rightarrow> time"
    and skew :: nat
  assumes admit_Ok: "admit s a = (Inr r, s') \<Longrightarrow> abs_diff (stamp_of a) (wall_of a) \<le> skew
        \<and> fst (reserve s (nonce_of a) (mono_of a)) = Inr () \<and> s' = snd (reserve s (nonce_of a) (mono_of a))"
    and admit_store: "snd (admit s a) = s \<or> snd (admit s a) = snd (reserve s (nonce_of a) (mono_of a))"
begin

fun admissions :: "'s \<Rightarrow> 'a list \<Rightarrow> ('f + 'r) list" where
  "admissions s [] = []"
| "admissions s (a # as) = fst (admit s a) # admissions (snd (admit s a)) as"

text \<open>
  Both clocks advance together over a run: the monotonic clock is never more than the rounding
  of one second ahead of the wall clock.
\<close>

definition clocks_ok :: "'a list \<Rightarrow> bool" where
  "clocks_ok as \<longleftrightarrow> (\<forall>i j. i < j \<and> j < length as \<longrightarrow>
     mono_of (as ! j) - mono_of (as ! i)
       < (unat (wall_of (as ! j)) - unat (wall_of (as ! i)) + 1) * 1000000000)"

lemma clocks_ok_tl: "clocks_ok (a # as) \<Longrightarrow> clocks_ok as"
  unfolding clocks_ok_def by (metis Suc_less_eq length_Cons nth_Cons_Suc)

lemma length_admissions [simp]: "length (admissions s as) = length as"
  by (induction as arbitrary: s) simp_all

lemma admit_keeps:
  assumes "inv s"
  shows "inv (snd (admit s a))" "keep (snd (admit s a)) = keep s"
    "mono_of a \<le> t \<Longrightarrow> live s t \<subseteq> live (snd (admit s a)) t"
  using admit_store [of s a] assms reserve_inv [OF assms] reserve_keep [OF assms] reserve_live [OF assms]
  by (metis subset_refl)+

lemma admitted_in_window:
  "admissions s as ! j = Inr r \<Longrightarrow> j < length as \<Longrightarrow> abs_diff (stamp_of (as ! j)) (wall_of (as ! j)) \<le> skew"
proof (induction as arbitrary: s j)
  case (Cons a as)
  then show ?case
    using admit_Ok [of s a r "snd (admit s a)"] by (cases j) (auto simp: prod_eq_iff)
qed simp

text \<open>While its nonce is remembered nothing is admitted under it.\<close>

lemma remembered_refused:
  assumes "inv s" and "sorted (map mono_of as)" and "j < length as"
    and "nonce_of (as ! j) \<in> live s (mono_of (as ! j))"
  shows "\<exists>e. admissions s as ! j = Inl e"
  using assms
proof (induction as arbitrary: s j)
  case (Cons a as)
  show ?case
  proof (cases j)
    case 0
    then have "fst (reserve s (nonce_of a) (mono_of a)) \<noteq> Inr ()"
      using Cons.prems(1,4) reserve_fresh by fastforce
    then have "fst (admit s a) \<noteq> Inr r" for r
      using admit_Ok [of s a r "snd (admit s a)"] by (metis prod.collapse)
    then show ?thesis
      using 0 by (cases "fst (admit s a)") auto
  next
    case (Suc i)
    have "mono_of a \<le> mono_of (as ! i)"
      using Cons.prems(2,3) Suc by auto
    then have "nonce_of (as ! i) \<in> live (snd (admit s a)) (mono_of (as ! i))"
      using admit_keeps(3) [OF Cons.prems(1)] Cons.prems(4) Suc by auto
    then show ?thesis
      using Cons.IH [OF admit_keeps(1) [OF Cons.prems(1)], of i] Cons.prems(2,3) Suc by simp
  qed
qed simp

lemma window_span:
  assumes "abs_diff ts a \<le> skew" and "abs_diff ts b \<le> skew"
  shows "unat b - unat a \<le> 2 * skew"
  using assms by (auto simp: abs_diff_def split: if_splits)

lemma first_blocks_later:
  assumes "inv s" and "(2 * skew + 1) * 1000000000 \<le> keep s" and "sorted (map mono_of (a # as))"
    and "clocks_ok (a # as)" and "j < length as" and "nonce_of (as ! j) = nonce_of a"
    and "stamp_of (as ! j) = stamp_of a" and "fst (admit s a) = Inr r"
  shows "\<exists>e. admissions (snd (admit s a)) as ! j = Inl e"
proof (rule ccontr)
  let ?b = "as ! j" and ?s = "snd (admit s a)"
  assume "\<not> ?thesis"
  then obtain q where q: "admissions ?s as ! j = Inr q"
    by (cases "admissions ?s as ! j") auto
  have ok: "abs_diff (stamp_of a) (wall_of a) \<le> skew" "fst (reserve s (nonce_of a) (mono_of a)) = Inr ()"
    "?s = snd (reserve s (nonce_of a) (mono_of a))"
    using admit_Ok [of s a r ?s] assms(8) by (simp_all add: prod_eq_iff)
  have "mono_of ?b - mono_of a < (unat (wall_of ?b) - unat (wall_of a) + 1) * 1000000000"
    using assms(4,5) unfolding clocks_ok_def by force
  also have "\<dots> \<le> (2 * skew + 1) * 1000000000"
    using window_span [OF ok(1), of "wall_of ?b"] admitted_in_window [OF q assms(5)] assms(7) by simp
  finally have late: "mono_of ?b < mono_of a + keep s"
    using assms(2) by simp
  have "mono_of a \<le> mono_of ?b"
    using assms(3,5) by auto
  then have "nonce_of ?b \<in> live ?s (mono_of ?b)"
    using reserve_adds [OF assms(1) ok(2) _ late] ok(3) assms(6) by simp
  then show False
    using remembered_refused [OF admit_keeps(1) [OF assms(1)] _ assms(5)] assms(3) q by fastforce
qed

lemma admitted_once:
  assumes "inv s" and "(2 * skew + 1) * 1000000000 \<le> keep s" and "sorted (map mono_of as)" and "clocks_ok as"
    and "i < j" and "j < length as" and "nonce_of (as ! i) = nonce_of (as ! j)" and "stamp_of (as ! i) = stamp_of (as ! j)"
    and "admissions s as ! i = Inr r"
  shows "\<exists>e. admissions s as ! j = Inl e"
  using assms
proof (induction as arbitrary: s i j)
  case (Cons a as)
  obtain k where k: "j = Suc k" "k < length as"
    using Cons.prems(5,6) by (cases j) auto
  show ?case
  proof (cases i)
    case 0
    then show ?thesis
      using first_blocks_later [OF Cons.prems(1-4) k(2)] Cons.prems(7-9) k by simp
  next
    case (Suc h)
    then have "\<exists>e. admissions (snd (admit s a)) as ! k = Inl e"
      using Cons.IH [of "snd (admit s a)" h k] Cons.prems k admit_keeps(1,2) [OF Cons.prems(1), of a]
        clocks_ok_tl by simp
    then show ?thesis
      using k by simp
  qed
qed simp

end

end
