(* ===== verification/Udp_Open.thy ===== *)
theory Udp_Open
  imports Udp_Wire Admission
begin

text \<open>
  Session opening of the native UDP channel: \<open>seal_open\<close> and \<open>accept_open\<close> of
  \<open>src/protocol/handoff/udp/wire.rs\<close> with the rotation candidates of
  \<open>src/protocol/handoff/keys.rs\<close>.  Key agreement, HKDF, the HMAC admission tag and the AEAD
  are parameters; the random session id, nonce and ephemeral key are arguments.
\<close>

unbundle bit_operations_syntax

section \<open>Constants and primitives\<close>

definition OPEN_NONCE_LEN :: nat where "OPEN_NONCE_LEN = 16"
definition X25519_LEN :: nat where "X25519_LEN = 32"
definition USER_ID_LEN :: nat where "USER_ID_LEN = 16"
definition OPEN_CLEAR_LEN :: nat where "OPEN_CLEAR_LEN = 8 + OPEN_NONCE_LEN + X25519_LEN"
definition OPEN_FILTER_LEN :: nat where "OPEN_FILTER_LEN = 16"
definition OPEN_SEALED_LEN :: nat where
  "OPEN_SEALED_LEN = HEADER_LEN + OPEN_CLEAR_LEN + USER_ID_LEN + TAG_LEN"
definition OPEN_LEN :: nat where "OPEN_LEN = OPEN_SEALED_LEN + OPEN_FILTER_LEN"

lemmas open_consts = OPEN_NONCE_LEN_def X25519_LEN_def USER_ID_LEN_def OPEN_CLEAR_LEN_def
  OPEN_FILTER_LEN_def OPEN_SEALED_LEN_def OPEN_LEN_def wire_consts

definition HKDF_LABEL :: bytes where "HKDF_LABEL = ascii ''rust-reality/handoff-udp/v1''"

text \<open>
  \<open>agree secret public\<close> fails on a non-contributory key; \<open>hkdf salt ikm info\<close> is the 96-byte
  output of extract-and-expand; \<open>filter_tag psk bytes\<close> is the truncated HMAC under the
  admission key derived from the PSK.
\<close>

record open_crypto =
  public_key :: "bytes \<Rightarrow> bytes"
  agree :: "bytes \<Rightarrow> bytes \<Rightarrow> bytes option"
  hkdf :: "bytes \<Rightarrow> bytes \<Rightarrow> bytes \<Rightarrow> bytes option"
  filter_tag :: "bytes \<Rightarrow> bytes \<Rightarrow> bytes"
  cipher :: aead

record udp_open =
  open_session_id :: bytes
  open_user_id :: bytes

record derived_keys =
  key_open :: bytes
  line_to_landing :: bytes
  landing_to_line :: bytes

definition derive_keys ::
  "open_crypto \<Rightarrow> bytes \<Rightarrow> bytes \<Rightarrow> bytes \<Rightarrow> bytes \<Rightarrow> udp_packet_error + derived_keys"
where
  "derive_keys K open_clear shared psk landing_public =
    (let ephemeral = drop (HEADER_LEN + 8 + OPEN_NONCE_LEN) open_clear;
         salt = HKDF_LABEL @ ephemeral @ landing_public;
         ikm = shared @ psk;
         info = open_clear @ landing_public
     in and_then (ok_or Crypto (hkdf K salt ikm info)) (\<lambda>okm.
          Ok \<lparr>key_open = take 32 okm, line_to_landing = take 32 (drop 32 okm),
              landing_to_line = drop 64 okm\<rparr>))"

definition open_filter_matches :: "open_crypto \<Rightarrow> bytes \<Rightarrow> bytes \<Rightarrow> bool" where
  "open_filter_matches K psk packet =
    (filter_tag K psk (take OPEN_SEALED_LEN packet)
       = take (OPEN_LEN - OPEN_SEALED_LEN) (drop OPEN_SEALED_LEN packet))"

section \<open>The LINE side\<close>

definition open_clear :: "open_crypto \<Rightarrow> bytes \<Rightarrow> u64 \<Rightarrow> bytes \<Rightarrow> bytes \<Rightarrow> bytes" where
  "open_clear K sid timestamp open_nonce ephemeral =
    encode_header Open sid 0 @ u64_be timestamp @ open_nonce @ public_key K ephemeral"

definition seal_open ::
  "open_crypto \<Rightarrow> bytes \<Rightarrow> bytes \<Rightarrow> bytes \<Rightarrow> bytes \<Rightarrow> bytes \<Rightarrow> bytes \<Rightarrow> u64
   \<Rightarrow> udp_packet_error + (bytes \<times> udp_channel)"
where
  "seal_open K sid open_nonce ephemeral psk landing_public user_id timestamp =
    (let clear = open_clear K sid timestamp open_nonce ephemeral
     in and_then (ok_or Authentication (agree K ephemeral landing_public)) (\<lambda>shared.
        and_then (derive_keys K clear shared psk landing_public) (\<lambda>keys.
        and_then (ok_or Crypto (ae_seal (cipher K) (key_open keys) (nonce_for 0) clear user_id)) (\<lambda>(body, tag).
          let sealed = clear @ body @ tag
          in Ok (sealed @ filter_tag K psk sealed,
                 channel_new sid (line_to_landing keys) (landing_to_line keys))))))"

section \<open>The LANDING side\<close>

record landing_keys =
  active_psk :: bytes
  previous_psks :: "bytes list"
  active_secret :: bytes
  previous_secrets :: "bytes list"

definition candidates :: "landing_keys \<Rightarrow> (bytes \<times> bytes) list" where
  "candidates ks =
    concat (map (\<lambda>psk. map (\<lambda>secret. (psk, secret)) (active_secret ks # previous_secrets ks))
      (active_psk ks # previous_psks ks))"

text \<open>The trial loop over the candidates, in order.\<close>

fun try_candidates ::
  "open_crypto \<Rightarrow> bytes list \<Rightarrow> bytes \<Rightarrow> bytes \<Rightarrow> bytes \<Rightarrow> bytes \<Rightarrow> bytes \<Rightarrow> (bytes \<times> bytes) list
   \<Rightarrow> udp_packet_error + (udp_open \<times> udp_channel)"
where
  "try_candidates K admitted clear sid ephemeral body tag [] = Err Authentication"
| "try_candidates K admitted clear sid ephemeral body tag ((psk, secret) # cs) =
    (if psk \<notin> set admitted then try_candidates K admitted clear sid ephemeral body tag cs
     else case agree K secret ephemeral of
       None \<Rightarrow> try_candidates K admitted clear sid ephemeral body tag cs
     | Some shared \<Rightarrow>
        and_then (derive_keys K clear shared psk (public_key K secret)) (\<lambda>derived.
          case ae_open (cipher K) (key_open derived) (nonce_for 0) clear body tag of
            Some user_id \<Rightarrow>
              Ok (\<lparr>open_session_id = sid, open_user_id = user_id\<rparr>,
                  channel_new sid (landing_to_line derived) (line_to_landing derived))
          | None \<Rightarrow> try_candidates K admitted clear sid ephemeral body tag cs))"

text \<open>
  \<open>now\<close> is the wall clock in seconds the timestamp is compared with, \<open>at\<close> the monotonic
  clock the nonce is reserved at.
\<close>

definition accept_open ::
  "open_crypto \<Rightarrow> bytes \<Rightarrow> landing_keys \<Rightarrow> nonce_cache \<Rightarrow> u64 \<Rightarrow> time \<Rightarrow> nat
   \<Rightarrow> (udp_packet_error + (udp_open \<times> udp_channel)) \<times> nonce_cache"
where
  "accept_open K packet ks replay now at maximum_time_difference =
    (if length packet \<noteq> OPEN_LEN then (Err Length, replay)
     else case parse_header packet of
       Inl e \<Rightarrow> (Err e, replay)
     | Inr (packet_type, sid, counter) \<Rightarrow>
        if packet_type \<noteq> Open \<or> counter \<noteq> 0 then (Err Type, replay)
        else
         (let clear = take (HEADER_LEN + OPEN_CLEAR_LEN) packet;
              timestamp = be_u64 (take 8 (drop HEADER_LEN clear))
          in if abs_diff timestamp now > maximum_time_difference then (Err TimeWindow, replay)
             else
              (let admitted = filter (\<lambda>psk. open_filter_matches K psk packet) (map fst (candidates ks))
               in if admitted = [] then (Err Authentication, replay)
                  else
                   (let open_nonce = take OPEN_NONCE_LEN (drop (HEADER_LEN + 8) clear)
                    in case handoff_reserve_at replay open_nonce at of
                         (Inl _, replay') \<Rightarrow> (Err Replay, replay')
                       | (Inr _, replay') \<Rightarrow>
                          (let ephemeral = drop (HEADER_LEN + 8 + OPEN_NONCE_LEN) clear;
                               body = take USER_ID_LEN (drop (HEADER_LEN + OPEN_CLEAR_LEN) packet);
                               tag = take TAG_LEN (drop (OPEN_SEALED_LEN - TAG_LEN) packet)
                           in (try_candidates K admitted clear sid ephemeral body tag (candidates ks),
                               replay'))))))"

section \<open>Runs of a landing\<close>

text \<open>
  The landing's admission policy and its OPEN replay cache
  (\<open>src/server/handoff/udp/landing.rs\<close>).
\<close>

definition MAX_OPEN_TIME_DIFFERENCE :: nat where "MAX_OPEN_TIME_DIFFERENCE = 60"
definition OPEN_REPLAY_CAPACITY :: nat where "OPEN_REPLAY_CAPACITY = 65536"
definition OPEN_REPLAY_RETENTION :: time where
  "OPEN_REPLAY_RETENTION = (2 * MAX_OPEN_TIME_DIFFERENCE + 1) * 1000000000"

text \<open>One arriving packet: its bytes, the keys in force, both clocks, and the configured skew.\<close>

record open_arrival =
  ar_packet :: bytes
  ar_keys :: landing_keys
  ar_now :: u64
  ar_mono :: time
  ar_skew :: nat

fun landing_opens ::
  "open_crypto \<Rightarrow> nonce_cache \<Rightarrow> open_arrival list \<Rightarrow> (udp_packet_error + (udp_open \<times> udp_channel)) list"
where
  "landing_opens K replay [] = []"
| "landing_opens K replay (a # as) =
    (let (r, replay') = accept_open K (ar_packet a) (ar_keys a) replay (ar_now a) (ar_mono a)
           (min (ar_skew a) MAX_OPEN_TIME_DIFFERENCE)
     in r # landing_opens K replay' as)"

section \<open>What an accepted OPEN implies\<close>

definition packet_nonce :: "bytes \<Rightarrow> nonce" where
  "packet_nonce packet = take 16 (drop 26 packet)"

definition packet_timestamp :: "bytes \<Rightarrow> u64" where
  "packet_timestamp packet = be_u64 (take 8 (drop 18 packet))"

lemma clear_fields:
  "take OPEN_NONCE_LEN (drop (HEADER_LEN + 8) (take (HEADER_LEN + OPEN_CLEAR_LEN) packet)) = packet_nonce packet"
  "be_u64 (take 8 (drop HEADER_LEN (take (HEADER_LEN + OPEN_CLEAR_LEN) packet))) = packet_timestamp packet"
  by (simp_all add: open_consts packet_nonce_def packet_timestamp_def drop_take)

lemma accept_open_Ok:
  assumes "accept_open K packet ks replay now at d = (Ok r, replay')"
  shows "abs_diff (packet_timestamp packet) now \<le> d
    \<and> fst (handoff_reserve_at replay (packet_nonce packet) at) = Ok ()
    \<and> replay' = snd (handoff_reserve_at replay (packet_nonce packet) at)
    \<and> (\<exists>psk \<in> fst ` set (candidates ks). open_filter_matches K psk packet)"
  using assms
  by (simp add: accept_open_def Let_def clear_fields filter_empty_conv split: if_splits sum.splits prod.splits)

lemma accept_open_cache:
  "snd (accept_open K packet ks replay now at d) = replay
   \<or> snd (accept_open K packet ks replay now at d) = snd (handoff_reserve_at replay (packet_nonce packet) at)"
  by (simp add: accept_open_def Let_def clear_fields split: sum.split prod.split)

text \<open>The OPEN packet is a timed admission over the Handoff cache.\<close>

definition admit_open ::
  "open_crypto \<Rightarrow> nonce_cache \<Rightarrow> open_arrival \<Rightarrow> (udp_packet_error + (udp_open \<times> udp_channel)) \<times> nonce_cache"
where
  "admit_open K c a = accept_open K (ar_packet a) (ar_keys a) c (ar_now a) (ar_mono a)
     (min (ar_skew a) MAX_OPEN_TIME_DIFFERENCE)"

interpretation udp_admission: timed_admission handoff_reserve_at cache_ok remembered retention "admit_open K"
  "\<lambda>a. packet_nonce (ar_packet a)" "\<lambda>a. packet_timestamp (ar_packet a)" ar_now ar_mono MAX_OPEN_TIME_DIFFERENCE
  for K
proof (unfold_locales, goal_cases)
  case (1 s a r s')
  then show ?case
    using accept_open_Ok [OF 1 [unfolded admit_open_def]] by auto
next
  case (2 s a)
  then show ?case
    unfolding admit_open_def by (rule accept_open_cache)
qed

lemma landing_opens_Cons:
  "landing_opens K c (a # as) = fst (admit_open K c a) # landing_opens K (snd (admit_open K c a)) as"
  by (simp add: admit_open_def case_prod_beta Let_def)

lemma landing_opens_admissions: "landing_opens K c as = udp_admission.admissions K c as"
  by (induction as arbitrary: c) (simp_all add: landing_opens_Cons del: landing_opens.simps(2))

lemma length_landing_opens [simp]: "length (landing_opens K c as) = length as"
  by (simp add: landing_opens_admissions)

text \<open>
  Within the run both clocks advance together: the monotonic clock is never more than the
  rounding of one second ahead of the wall clock.
\<close>

definition clocks_agree :: "open_arrival list \<Rightarrow> bool" where
  "clocks_agree as \<longleftrightarrow> (\<forall>i j. i < j \<and> j < length as \<longrightarrow>
     ar_mono (as ! j) - ar_mono (as ! i)
       < (unat (ar_now (as ! j)) - unat (ar_now (as ! i)) + 1) * 1000000000)"

lemma landing_opens_once:
  assumes "cache_ok c" and "retention c = OPEN_REPLAY_RETENTION" and "sorted (map ar_mono as)"
    and "clocks_agree as" and "i < j" and "j < length as" and "ar_packet (as ! i) = ar_packet (as ! j)"
    and "landing_opens K c as ! i = Ok r"
  shows "\<exists>e. landing_opens K c as ! j = Err e"
  using udp_admission.admitted_once [OF assms(1) _ assms(3) _ assms(5,6)] assms(2,4,7,8)
  unfolding landing_opens_admissions udp_admission.clocks_ok_def clocks_agree_def OPEN_REPLAY_RETENTION_def
  by (metis le_refl)

section \<open>Establishing a session\<close>

text \<open>
  What both ends rely on of the primitives: the AEAD is correct, key agreement is symmetric,
  and keys, tags and derived material have their fixed lengths.
\<close>

definition crypto_ok :: "open_crypto \<Rightarrow> bool" where
  "crypto_ok K \<longleftrightarrow> aead_ok (cipher K)
     \<and> (\<forall>a. length (public_key K a) = 32)
     \<and> (\<forall>a b. agree K a (public_key K b) = agree K b (public_key K a))
     \<and> (\<forall>psk bs. length (filter_tag K psk bs) = 16)"

lemma seal_open_Ok:
  assumes K: "crypto_ok K" and s: "seal_open K sid n eph psk landing_public user ts = Ok (packet, line)"
  obtains shared keys body tag where
    "agree K eph landing_public = Some shared"
    "derive_keys K (open_clear K sid ts n eph) shared psk landing_public = Ok keys"
    "packet = open_clear K sid ts n eph @ body @ tag
       @ filter_tag K psk (open_clear K sid ts n eph @ body @ tag)"
    "length body = length user" "length tag = 16"
    "ae_open (cipher K) (key_open keys) (nonce_for 0) (open_clear K sid ts n eph) body tag = Some user"
    "line = channel_new sid (line_to_landing keys) (landing_to_line keys)"
proof -
  have ae: "aead_ok (cipher K)"
    using K by (simp add: crypto_ok_def)
  obtain shared keys body tag where st:
    "agree K eph landing_public = Some shared"
    "derive_keys K (open_clear K sid ts n eph) shared psk landing_public = Ok keys"
    "ae_seal (cipher K) (key_open keys) (nonce_for 0) (open_clear K sid ts n eph) user = Some (body, tag)"
    "packet = (open_clear K sid ts n eph @ body @ tag)
       @ filter_tag K psk (open_clear K sid ts n eph @ body @ tag)"
    "line = channel_new sid (line_to_landing keys) (landing_to_line keys)"
    using s by (auto simp: seal_open_def Let_def result_simps)
  obtain body' tag' where
    "ae_seal (cipher K) (key_open keys) (nonce_for 0) (open_clear K sid ts n eph) user = Some (body', tag')"
    "length body' = length user" "length tag' = 16"
    "ae_open (cipher K) (key_open keys) (nonce_for 0) (open_clear K sid ts n eph) body' tag' = Some user"
    using ae by (rule aead_okE)
  then show thesis
    using st that [of shared keys body tag] by simp
qed

lemma open_clear_fields:
  assumes "length sid = 8" and "length n = 16" and "crypto_ok K"
  shows "length (open_clear K sid ts n eph) = 74"
    "drop 42 (open_clear K sid ts n eph) = public_key K eph"
    "packet_timestamp (open_clear K sid ts n eph @ rest) = ts"
    "packet_nonce (open_clear K sid ts n eph @ rest) = n"
  using assms by (simp_all add: open_clear_def packet_timestamp_def packet_nonce_def crypto_ok_def)

lemma accept_open_reserved:
  assumes "length packet = 122" and "parse_header packet = Ok (Open, sid, 0)"
    and "abs_diff (packet_timestamp packet) now \<le> d"
    and "filter (\<lambda>psk. open_filter_matches K psk packet) (map fst (candidates ks)) = adm" and "adm \<noteq> []"
    and "handoff_reserve_at replay (packet_nonce packet) at = (Ok (), replay')"
  shows "accept_open K packet ks replay now at d =
    (try_candidates K adm (take 74 packet) sid (drop 42 (take 74 packet))
       (take 16 (drop 74 packet)) (take 16 (drop 90 packet)) (candidates ks), replay')"
proof -
  have len: "length packet = OPEN_LEN"
    using assms(1) by (simp add: open_consts)
  have k: "HEADER_LEN + OPEN_CLEAR_LEN = 74" "HEADER_LEN + 8 + OPEN_NONCE_LEN = 42"
    "USER_ID_LEN = 16" "TAG_LEN = 16" "OPEN_SEALED_LEN = 106"
    by (simp_all add: open_consts)
  show ?thesis
    using assms(2-6) clear_fields [of packet] len
    unfolding accept_open_def Let_def k by simp
qed

lemma open_accepted:
  assumes K: "crypto_ok K" and len: "length sid = 8" "length n = 16" "length user = 16"
    and s: "seal_open K sid n eph psk (public_key K secret) user ts = Ok (packet, line)"
    and ks: "active_psk ks = psk" "active_secret ks = secret"
    and win: "abs_diff ts now \<le> d"
    and res: "handoff_reserve_at replay n at = (Ok (), replay')"
  shows "\<exists>landing. accept_open K packet ks replay now at d =
      (Ok (\<lparr>open_session_id = sid, open_user_id = user\<rparr>, landing), replay')
    \<and> paired line landing \<and> paired landing line \<and> window line = window_new \<and> window landing = window_new"
proof -
  let ?clear = "open_clear K sid ts n eph"
  obtain shared keys body tag where st: "agree K eph (public_key K secret) = Some shared"
    "derive_keys K ?clear shared psk (public_key K secret) = Ok keys"
    "packet = ?clear @ body @ tag @ filter_tag K psk (?clear @ body @ tag)"
    "length body = length user" "length tag = 16"
    "ae_open (cipher K) (key_open keys) (nonce_for 0) ?clear body tag = Some user"
    "line = channel_new sid (line_to_landing keys) (landing_to_line keys)"
    using K s by (rule seal_open_Ok)
  note f = open_clear_fields [OF len(1,2) K, of ts eph]
  have flen: "length (filter_tag K psk bs) = 16" for bs
    using K by (simp add: crypto_ok_def)
  have parts: "length packet = 122" "take 74 packet = ?clear" "take 16 (drop 74 packet) = body"
    "take 16 (drop 90 packet) = tag" "take 106 packet = ?clear @ body @ tag"
    "take 16 (drop 106 packet) = filter_tag K psk (?clear @ body @ tag)"
    using f(1) st(3,4,5) len(3) flen by simp_all
  have stamps: "packet_timestamp packet = ts" "packet_nonce packet = n"
    unfolding st(3) by (rule f)+
  have hdr: "parse_header packet = Ok (Open, sid, 0)"
    using parse_encode_header [of sid "u64_be ts @ n @ public_key K eph @ body @ tag
        @ filter_tag K psk (?clear @ body @ tag)" Open 0] len st(3,5)
    by (simp add: open_clear_def)
  have "open_filter_matches K psk packet"
    using parts(5,6) by (simp add: open_filter_matches_def open_consts)
  moreover obtain cs where cs: "candidates ks = (psk, secret) # cs"
    using ks by (simp add: candidates_def)
  ultimately obtain adm where adm:
    "filter (\<lambda>psk. open_filter_matches K psk packet) (map fst (candidates ks)) = psk # adm"
    by simp
  have eph: "agree K secret (public_key K eph) = Some shared"
    using st(1) K by (simp add: crypto_ok_def)
  have "accept_open K packet ks replay now at d =
      (try_candidates K (psk # adm) ?clear sid (public_key K eph) body tag (candidates ks), replay')"
    using accept_open_reserved [OF parts(1) hdr _ adm _ , of now d replay at replay'] win res
    unfolding parts(2-4) f(2) stamps by simp
  also have "try_candidates K (psk # adm) ?clear sid (public_key K eph) body tag (candidates ks) =
      Ok (\<lparr>open_session_id = sid, open_user_id = user\<rparr>,
          channel_new sid (landing_to_line keys) (line_to_landing keys))"
    using eph st(2,6) by (simp add: cs)
  finally show ?thesis
    using st(7) len(1) by (auto simp: paired_def channel_new_def)
qed

text \<open>A concrete instance of the primitives, for the witnesses.\<close>

definition plain_crypto :: open_crypto where
  "plain_crypto = \<lparr>public_key = (\<lambda>s. take 32 (s @ replicate 32 0)),
    agree = (\<lambda>s p. Some (map2 (XOR) (take 32 (s @ replicate 32 0)) p)),
    hkdf = (\<lambda>salt ikm info. Some (take 96 (ikm @ replicate 96 0))),
    filter_tag = (\<lambda>psk bs. take 16 (psk @ replicate 16 0)), cipher = null_aead\<rparr>"

lemma map2_xor_sym: "map2 (XOR) (xs :: bytes) ys = map2 (XOR) ys xs"
  by (induction xs ys rule: list_induct2') (simp_all add: xor.commute)

lemma plain_crypto_ok: "crypto_ok plain_crypto"
proof -
  have "length (take n (xs @ replicate n 0)) = n" for n and xs :: bytes
    by simp
  then show ?thesis
    using map2_xor_sym by (simp add: crypto_ok_def plain_crypto_def null_aead_ok del: length_take)
qed

text \<open>The keys and the packet fields of the witnesses.\<close>

definition demo_keys :: landing_keys where
  "demo_keys = \<lparr>active_psk = replicate 32 5, previous_psks = [replicate 32 6],
                active_secret = replicate 32 9, previous_secrets = []\<rparr>"

lemma demo_seal_open:
  obtains packet line where "seal_open plain_crypto (replicate 8 7) (replicate 16 1) (replicate 32 3)
    (replicate 32 5) (public_key plain_crypto (replicate 32 9)) (replicate 16 4) 1000 = Ok (packet, line)"
  by (simp add: seal_open_def plain_crypto_def derive_keys_def null_aead_def result_simps Let_def)

section \<open>Properties\<close>

text \<open>
  C26.  No OPEN packet opens two sessions: over any run of arrivals at a landing with a fresh
  replay cache, whatever keys, skews and packets, once a packet has been accepted every later
  arrival of the same bytes is refused -- inside the retention by the cache, after it by the
  timestamp window -- provided the monotonic clock does not run ahead of the wall clock by
  more than the rounding of a second.
\<close>

theorem open_never_replayed:
  assumes "cache_new OPEN_REPLAY_CAPACITY OPEN_REPLAY_RETENTION = Ok c"
    and "sorted (map ar_mono as)" and "clocks_agree as"
    and "i < j" and "j < length as" and "ar_packet (as ! i) = ar_packet (as ! j)"
    and "landing_opens K c as ! i = Ok r"
  shows "\<exists>e. landing_opens K c as ! j = Err e"
proof (rule landing_opens_once [OF cache_ok_new [OF assms(1)] _ assms(2-7)])
  show "retention c = OPEN_REPLAY_RETENTION"
    using assms(1) by (auto simp: cache_new_def split: if_splits)
qed

text \<open>
  C27.  OPEN establishes a session: a packet the LINE seals under the landing's active PSK and
  public key, with a timestamp inside the window and a nonce the cache grants, is accepted;
  the landing learns the session id and user the LINE sent, and the two fresh channels are
  paired in both directions.
\<close>

theorem open_establishes:
  assumes "crypto_ok K" and "length sid = 8" and "length n = 16" and "length user = 16"
    and "seal_open K sid n eph (active_psk ks) (public_key K (active_secret ks)) user ts = Ok (packet, line)"
    and "abs_diff ts now \<le> d" and "handoff_reserve_at replay n at = (Ok (), replay')"
  shows "\<exists>landing. accept_open K packet ks replay now at d =
      (Ok (\<lparr>open_session_id = sid, open_user_id = user\<rparr>, landing), replay')
    \<and> paired line landing \<and> paired landing line \<and> window line = window_new \<and> window landing = window_new"
  using open_accepted [OF assms(1-5) refl refl assms(6,7)] .

theorem open_establishes_witness:
  "\<exists>packet line landing c c'.
     seal_open plain_crypto (replicate 8 7) (replicate 16 1) (replicate 32 3)
       (active_psk demo_keys) (public_key plain_crypto (active_secret demo_keys)) (replicate 16 4) 1000
       = Ok (packet, line)
   \<and> cache_new OPEN_REPLAY_CAPACITY OPEN_REPLAY_RETENTION = Ok c
   \<and> accept_open plain_crypto packet demo_keys c 1030 5 60 =
      (Ok (\<lparr>open_session_id = replicate 8 7, open_user_id = replicate 16 4\<rparr>, landing), c')
   \<and> paired line landing \<and> paired landing line"
proof -
  obtain packet line where s: "seal_open plain_crypto (replicate 8 7) (replicate 16 1) (replicate 32 3)
      (active_psk demo_keys) (public_key plain_crypto (active_secret demo_keys)) (replicate 16 4) 1000
      = Ok (packet, line)"
    by (rule demo_seal_open) (simp add: demo_keys_def)
  obtain c where c: "cache_new OPEN_REPLAY_CAPACITY OPEN_REPLAY_RETENTION = Ok c"
    by (simp add: cache_new_def OPEN_REPLAY_CAPACITY_def OPEN_REPLAY_RETENTION_def)
  have "abs_diff 1000 1030 \<le> 60"
    by (simp add: abs_diff_def)
  with open_establishes [OF plain_crypto_ok _ _ _ s _ cache_new_reserve [OF c, of "replicate 16 1" 5], of 1030 60]
  show ?thesis
    using s c by fastforce
qed

theorem open_never_replayed_witness:
  "\<exists>packet line c r e.
     seal_open plain_crypto (replicate 8 7) (replicate 16 1) (replicate 32 3)
       (replicate 32 5) (public_key plain_crypto (replicate 32 9)) (replicate 16 4) 1000 = Ok (packet, line)
   \<and> cache_new OPEN_REPLAY_CAPACITY OPEN_REPLAY_RETENTION = Ok c
   \<and> landing_opens plain_crypto c
       [\<lparr>ar_packet = packet, ar_keys = demo_keys, ar_now = 1000, ar_mono = 5, ar_skew = 60\<rparr>,
        \<lparr>ar_packet = packet, ar_keys = demo_keys, ar_now = 1010, ar_mono = 10000000005, ar_skew = 60\<rparr>] = [Ok r, Err e]"
proof -
  obtain packet line where s: "seal_open plain_crypto (replicate 8 7) (replicate 16 1) (replicate 32 3)
      (replicate 32 5) (public_key plain_crypto (replicate 32 9)) (replicate 16 4) 1000 = Ok (packet, line)"
    by (rule demo_seal_open)
  obtain c where c: "cache_new OPEN_REPLAY_CAPACITY OPEN_REPLAY_RETENTION = Ok c"
    by (simp add: cache_new_def OPEN_REPLAY_CAPACITY_def OPEN_REPLAY_RETENTION_def)
  let ?as = "[\<lparr>ar_packet = packet, ar_keys = demo_keys, ar_now = 1000, ar_mono = 5, ar_skew = 60\<rparr>,
    \<lparr>ar_packet = packet, ar_keys = demo_keys, ar_now = 1010, ar_mono = 10000000005, ar_skew = 60\<rparr>]"
  obtain r where r: "landing_opens plain_crypto c ?as ! 0 = Ok r"
    using open_accepted [OF plain_crypto_ok _ _ _ s _ _ _ cache_new_reserve [OF c, of "replicate 16 1" 5],
        of demo_keys 1000 60]
    by (auto simp: landing_opens_Cons admit_open_def demo_keys_def abs_diff_def MAX_OPEN_TIME_DIFFERENCE_def
        simp del: landing_opens.simps(2))
  have "\<exists>e. landing_opens plain_crypto c ?as ! 1 = Err e"
    by (rule open_never_replayed [OF c _ _ _ _ _ r])
       (auto simp: clocks_agree_def less_Suc_eq)
  then obtain e where e: "landing_opens plain_crypto c ?as ! 1 = Err e"
    by blast
  have "landing_opens plain_crypto c ?as = [Ok r, Err e]"
    using r e by (intro nth_equalityI) (auto simp: less_Suc_eq simp del: landing_opens.simps(2))
  then show ?thesis
    using s c by blast
qed

end
