(* ===== verification/Stream_Decoder.thy ===== *)
theory Stream_Decoder
  imports Net_Types
begin

text \<open>
  Decoders over a growing buffer.  A decoder reads fields off the front of a slice through a
  cursor and returns the value with the unread rest; the cursor is represented by that rest
  (\<open>input[position..]\<close>).  A decoder is run again whenever more bytes have arrived, so what its
  callers rely on is a contract: a decision, once taken, does not change when bytes are
  appended, and enough bytes always lead to a decision.
\<close>

section \<open>Cursors\<close>

type_synonym ('e, 'a) decoder = "bytes \<Rightarrow> 'e + ('a \<times> bytes)"

text \<open>Threading a mutable cursor through two steps, with the early return of \<open>?\<close>.\<close>

definition chain :: "('e, 'a) decoder \<Rightarrow> ('a \<Rightarrow> ('e, 'b) decoder) \<Rightarrow> ('e, 'b) decoder" where
  "chain p f bs = (case p bs of Inl e \<Rightarrow> Err e | Inr (x, rest) \<Rightarrow> f x rest)"

definition yield :: "'a \<Rightarrow> ('e, 'a) decoder" where
  "yield x bs = Ok (x, bs)"

definition refuse :: "'e \<Rightarrow> ('e, 'a) decoder" where
  "refuse e bs = Err e"

text \<open>A step that does not touch the cursor.\<close>

definition lift_result :: "'e + 'a \<Rightarrow> ('e, 'a) decoder" where
  "lift_result r bs = (case r of Inl e \<Rightarrow> Err e | Inr x \<Rightarrow> Ok (x, bs))"

text \<open>\<open>short needed remaining\<close> is the error for a field that is not complete yet.\<close>

definition cursor_take :: "(nat \<Rightarrow> nat \<Rightarrow> 'e) \<Rightarrow> nat \<Rightarrow> ('e, bytes) decoder" where
  "cursor_take short n bs =
    (if length bs < n then Err (short n (length bs)) else Ok (take n bs, drop n bs))"

named_theorems decoder_simps \<open>running a decoder on a buffer\<close>

lemma chain_run [decoder_simps]:
  "p bs = Ok (x, rest) \<Longrightarrow> chain p f bs = f x rest"
  "p bs = Err e \<Longrightarrow> chain p f bs = Err e"
  by (simp_all add: chain_def)

lemma yield_run [decoder_simps]: "yield x bs = Ok (x, bs)"
  by (simp add: yield_def)

lemma refuse_run [decoder_simps]: "refuse e bs = Err e"
  by (simp add: refuse_def)

lemma lift_run [decoder_simps]:
  "lift_result (Inr x) bs = Ok (x, bs)" "lift_result (Inl e) bs = Err e"
  by (simp_all add: lift_result_def)

lemma take_run [decoder_simps]: "length as = n \<Longrightarrow> cursor_take short n (as @ bs) = Ok (as, bs)"
  by (auto simp: cursor_take_def)

lemma chain_Ok_iff [result_simps]:
  "chain p f bs = Ok r \<longleftrightarrow> (\<exists>x rest. p bs = Ok (x, rest) \<and> f x rest = Ok r)"
  by (auto simp: chain_def split: sum.split)

lemma yield_Ok_iff [result_simps]: "yield x bs = Ok (y, rest) \<longleftrightarrow> y = x \<and> rest = bs"
  by (auto simp: yield_def)

lemma refuse_Ok_iff [result_simps]: "refuse e bs = Ok r \<longleftrightarrow> False"
  by (simp add: refuse_def)

lemma lift_Ok_iff [result_simps]: "lift_result v bs = Ok (x, rest) \<longleftrightarrow> v = Ok x \<and> rest = bs"
  by (auto simp: lift_result_def split: sum.split)

lemma if_Ok_iff [result_simps]:
  "(if c then p else q) bs = Ok r \<longleftrightarrow> c \<and> p bs = Ok r \<or> \<not> c \<and> q bs = Ok r"
  by simp

lemma take_Ok_iff [result_simps]:
  "cursor_take short n bs = Ok (as, rest) \<longleftrightarrow> bs = as @ rest \<and> length as = n"
  by (auto simp: cursor_take_def)

section \<open>The contract\<close>

locale stream_decoder =
  fixes dec :: "bytes \<Rightarrow> 'e + ('a \<times> bytes)"
    and incomplete :: "'e \<Rightarrow> bool"
  assumes dec_more: "dec bs = Ok (x, rest) \<Longrightarrow> dec (bs @ ext) = Ok (x, rest @ ext)"
    and dec_final: "dec bs = Err e \<Longrightarrow> \<not> incomplete e \<Longrightarrow> dec (bs @ ext) = Err e"
    and dec_front: "dec bs = Ok (x, rest) \<Longrightarrow> \<exists>used. bs = used @ rest"
begin

text \<open>A buffer that is still undecided stays so on all its prefixes.\<close>

lemma undecided_prefix:
  assumes "dec (bs @ ext) = Err e" and "incomplete e"
  shows "\<exists>e'. dec bs = Err e' \<and> incomplete e'"
proof (cases "dec bs")
  case (Inl e')
  then show ?thesis
    using dec_final assms by (cases "incomplete e'") fastforce+
next
  case (Inr r)
  then show ?thesis
    using dec_more assms by (cases r) fastforce
qed

end

locale bounded_decoder = stream_decoder +
  fixes limit :: nat
  assumes enough: "limit \<le> length bs \<Longrightarrow> dec bs = Err e \<Longrightarrow> \<not> incomplete e"
    and uses_at_most: "dec bs = Ok (x, rest) \<Longrightarrow> length bs \<le> length rest + limit"
begin

lemma undecided_short: "dec bs = Err e \<Longrightarrow> incomplete e \<Longrightarrow> length bs < limit"
  using enough by (meson not_le)

end

section \<open>Contracts of composed decoders\<close>

lemma bounded_weaken: "bounded_decoder p inc a \<Longrightarrow> a \<le> b \<Longrightarrow> bounded_decoder p inc b"
  unfolding bounded_decoder_def bounded_decoder_axioms_def by (meson add_left_mono le_trans)

lemma bounded_yield: "bounded_decoder (yield x) inc n"
  by unfold_locales (simp_all add: yield_def)

lemma bounded_refuse: "\<not> inc e \<Longrightarrow> bounded_decoder (refuse e) inc n"
  by unfold_locales (simp_all add: refuse_def)

lemma bounded_lift: "(\<And>e. r = Err e \<Longrightarrow> \<not> inc e) \<Longrightarrow> bounded_decoder (lift_result r) inc n"
  by unfold_locales (auto simp: lift_result_def split: sum.splits)

lemma bounded_if:
  "\<lbrakk>c \<Longrightarrow> bounded_decoder p inc n; \<not> c \<Longrightarrow> bounded_decoder q inc n\<rbrakk> \<Longrightarrow> bounded_decoder (if c then p else q) inc n"
  by simp

lemma bounded_take:
  assumes "\<And>r. inc (short k r)" and "k \<le> n"
  shows "bounded_decoder (cursor_take short k) inc n"
proof (rule bounded_weaken [OF _ assms(2)])
  show "bounded_decoder (cursor_take short k) inc k"
    using assms(1) by unfold_locales (auto simp: cursor_take_def split: if_splits intro: append_take_drop_id [symmetric])
qed

lemma bounded_chain:
  assumes p: "bounded_decoder p inc a" and f: "\<And>x bs rest. p bs = Ok (x, rest) \<Longrightarrow> bounded_decoder (f x) inc b"
  shows "bounded_decoder (chain p f) inc (a + b)"
proof -
  note P = bounded_decoder.axioms(1) [OF p] and B = bounded_decoder.uses_at_most [OF p]
  note F = bounded_decoder.axioms(1) [OF f]
  show ?thesis
  proof (unfold_locales, goal_cases)
    case (1 bs r rest ext)
    then obtain x mid where x: "p bs = Ok (x, mid)" "f x mid = Ok (r, rest)"
      by (auto simp: result_simps)
    then show ?case
      using stream_decoder.dec_more [OF P] stream_decoder.dec_more [OF F [OF x(1)]] by (simp add: chain_def)
  next
    case (2 bs e ext)
    show ?case
    proof (cases "p bs")
      case (Inr r)
      then show ?thesis
        using 2 stream_decoder.dec_more [OF P] stream_decoder.dec_final [OF F] by (cases r) (simp add: chain_def)
    qed (use 2 stream_decoder.dec_final [OF P] in \<open>simp add: chain_def\<close>)
  next
    case (3 bs r rest)
    then obtain x mid where x: "p bs = Ok (x, mid)" "f x mid = Ok (r, rest)"
      by (auto simp: result_simps)
    then obtain u v where "bs = u @ mid" "mid = v @ rest"
      using stream_decoder.dec_front [OF P] stream_decoder.dec_front [OF F [OF x(1)]] by blast
    then show ?case
      by (metis append.assoc)
  next
    case (4 bs e)
    show ?case
    proof (cases "p bs")
      case (Inr r)
      then obtain x mid where x: "p bs = Ok (x, mid)"
        by (cases r) auto
      then have "b \<le> length mid"
        using 4(1) B by fastforce
      then show ?thesis
        using 4 x bounded_decoder.enough [OF f [OF x]] by (simp add: chain_def)
    qed (use 4 bounded_decoder.enough [OF p, of bs] in \<open>auto simp: chain_def\<close>)
  next
    case (5 bs r rest)
    then obtain x mid where x: "p bs = Ok (x, mid)" "f x mid = Ok (r, rest)"
      by (auto simp: result_simps)
    then show ?case
      using B bounded_decoder.uses_at_most [OF f [OF x(1)]] by fastforce
  qed
qed

lemma bounded_chainI:
  assumes "bounded_decoder p inc a" and "\<And>x bs rest. p bs = Ok (x, rest) \<Longrightarrow> bounded_decoder (f x) inc b" and "a + b = n"
  shows "bounded_decoder (chain p f) inc n"
  using bounded_chain [OF assms(1,2)] assms(3) by simp

lemmas bounded_intros = bounded_yield bounded_refuse bounded_lift bounded_if

section \<open>Reading a stream\<close>

text \<open>
  A byte stream is the list of segments its reads return; a read with room for \<open>n\<close> bytes
  returns at most that many and leaves the rest, and an empty result is the end of the
  stream.
\<close>

fun read_some :: "nat \<Rightarrow> bytes list \<Rightarrow> bytes \<times> bytes list" where
  "read_some n [] = ([], [])"
| "read_some n (seg # segs) =
    (if length seg \<le> n then (seg, segs) else (take n seg, drop n seg # segs))"

lemma length_read_some: "length (fst (read_some n segs)) \<le> n"
  by (cases segs) auto

lemma concat_read_some: "fst (read_some n segs) @ concat (snd (read_some n segs)) = concat segs"
  by (cases segs) (auto simp flip: append_assoc)

lemma read_some_nonempty:
  assumes "[] \<notin> set segs" and "0 < n"
  shows "fst (read_some n segs) = [] \<longleftrightarrow> segs = []" and "[] \<notin> set (snd (read_some n segs))"
  using assms by (cases segs; auto)+

end
