(* ===== verification/Vless_Addons.thy ===== *)
theory Vless_Addons
  imports Stream_Decoder
begin

text \<open>
  The bounded parser of the Addons protobuf carried in VLESS headers
  (\<open>src/protocol/vless/addons.rs\<close>).  The cursor is the unread rest of the input; a flow is a
  byte string that passed \<open>str::from_utf8\<close>.
\<close>

unbundle bit_operations_syntax

section \<open>UTF-8\<close>

definition continuation_byte :: "byte \<Rightarrow> bool" where
  "continuation_byte b \<longleftrightarrow> 0x80 \<le> b \<and> b \<le> 0xBF"

text \<open>Well-formed byte sequences of the Unicode standard, as \<open>str::from_utf8\<close> checks them.\<close>

fun valid_utf8 :: "bytes \<Rightarrow> bool" where
  "valid_utf8 [] = True"
| "valid_utf8 (a # bs) =
    (if a < 0x80 then valid_utf8 bs
     else if 0xC2 \<le> a \<and> a \<le> 0xDF then
       (case bs of b # rest \<Rightarrow> continuation_byte b \<and> valid_utf8 rest | _ \<Rightarrow> False)
     else if 0xE0 \<le> a \<and> a \<le> 0xEF then
       (case bs of
          b # c # rest \<Rightarrow> continuation_byte b \<and> continuation_byte c
            \<and> (a = 0xE0 \<longrightarrow> 0xA0 \<le> b) \<and> (a = 0xED \<longrightarrow> b \<le> 0x9F) \<and> valid_utf8 rest
        | _ \<Rightarrow> False)
     else if 0xF0 \<le> a \<and> a \<le> 0xF4 then
       (case bs of
          b # c # d # rest \<Rightarrow> continuation_byte b \<and> continuation_byte c \<and> continuation_byte d
            \<and> (a = 0xF0 \<longrightarrow> 0x90 \<le> b) \<and> (a = 0xF4 \<longrightarrow> b \<le> 0x8F) \<and> valid_utf8 rest
        | _ \<Rightarrow> False)
     else False)"

lemma ascii_utf8: "\<forall>b \<in> set bs. b < 0x80 \<Longrightarrow> valid_utf8 bs"
  by (induction bs) auto

section \<open>The parser\<close>

definition VISION_FLOW :: bytes where "VISION_FLOW = ascii ''xtls-rprx-vision''"

record addons =
  flow :: "bytes option"
  seed :: "bytes option"

definition addons_default :: addons where
  "addons_default = \<lparr>flow = None, seed = None\<rparr>"

datatype addons_error =
  VarintOverflow | Truncated | InvalidFieldNumber | InvalidFlowUtf8 | UnsupportedWireType byte

fun read_varint_from :: "nat list \<Rightarrow> u64 \<Rightarrow> (addons_error, u64) decoder" where
  "read_varint_from [] value bs = Err VarintOverflow"
| "read_varint_from (shift # shifts) value [] = Err Truncated"
| "read_varint_from (shift # shifts) value (b # bs) =
    (if shift = 63 \<and> b > 1 then Err VarintOverflow
     else
      (let value' = value OR push_bit shift (ucast (b AND 0x7F))
       in if b AND 0x80 = 0 then Ok (value', bs) else read_varint_from shifts value' bs))"

definition read_varint :: "(addons_error, u64) decoder" where
  "read_varint = read_varint_from (map (\<lambda>i. 7 * i) [0..<10]) 0"

definition read_length_delimited :: "(addons_error, bytes) decoder" where
  "read_length_delimited =
    chain read_varint (\<lambda>len. cursor_take (\<lambda>_ _. Truncated) (unat len))"

definition skip_bytes :: "nat \<Rightarrow> (addons_error, unit) decoder" where
  "skip_bytes n bs = (if length bs < n then Err Truncated else Ok ((), drop n bs))"

definition skip_field :: "byte \<Rightarrow> (addons_error, unit) decoder" where
  "skip_field wire_type =
    (if wire_type = 0 then chain read_varint (\<lambda>_. yield ())
     else if wire_type = 1 then skip_bytes 8
     else if wire_type = 2 then chain read_length_delimited (\<lambda>_. yield ())
     else if wire_type = 5 then skip_bytes 4
     else refuse (UnsupportedWireType wire_type))"

text \<open>One round of the parse loop: a key and its field.\<close>

definition parse_value :: "addons \<Rightarrow> u64 \<Rightarrow> byte \<Rightarrow> (addons_error, addons) decoder" where
  "parse_value a field wire_type =
    (if field = 1 \<and> wire_type = 2 then
       chain read_length_delimited (\<lambda>v.
         if valid_utf8 v then yield (a\<lparr>flow := Some v\<rparr>) else refuse InvalidFlowUtf8)
     else if field = 2 \<and> wire_type = 2 then
       chain read_length_delimited (\<lambda>v. yield (a\<lparr>seed := Some v\<rparr>))
     else chain (skip_field wire_type) (\<lambda>_. yield a))"

definition parse_field :: "addons \<Rightarrow> (addons_error, addons) decoder" where
  "parse_field a =
    chain read_varint (\<lambda>key.
      let field = drop_bit 3 key; wire_type = ucast (key AND 7)
      in if field = 0 then refuse InvalidFieldNumber else parse_value a field wire_type)"

lemma read_varint_from_shorter:
  "read_varint_from shifts v bs = Ok (x, rest) \<Longrightarrow> length rest < length bs"
  by (induction shifts v bs rule: read_varint_from.induct) (auto simp: Let_def split: if_splits)

lemma read_length_delimited_shorter:
  "read_length_delimited bs = Ok (x, rest) \<Longrightarrow> length rest < length bs"
  unfolding read_length_delimited_def read_varint_def
  by (auto simp: result_simps dest: read_varint_from_shorter)

lemma skip_field_shorter: "skip_field w bs = Ok (x, rest) \<Longrightarrow> length rest \<le> length bs"
  unfolding skip_field_def read_varint_def
  by (auto simp: result_simps yield_def refuse_def skip_bytes_def split: if_splits
      dest: read_varint_from_shorter read_length_delimited_shorter)

lemma parse_field_shorter:
  assumes "parse_field a bs = Ok (a', rest)"
  shows "length rest < length bs"
proof -
  obtain key mid where k: "read_varint bs = Ok (key, mid)" and f: "length rest \<le> length mid"
    using assms unfolding parse_field_def parse_value_def
    by (auto simp: result_simps Let_def yield_def refuse_def split: if_splits
        dest!: read_length_delimited_shorter skip_field_shorter)
  from k have "length mid < length bs"
    unfolding read_varint_def by (rule read_varint_from_shorter)
  with f show ?thesis
    by simp
qed

function parse_from :: "addons \<Rightarrow> bytes \<Rightarrow> addons_error + addons" where
  "parse_from a bs =
    (if bs = [] then Ok a
     else case parse_field a bs of Inl e \<Rightarrow> Err e | Inr (a', rest) \<Rightarrow> parse_from a' rest)"
  by auto
termination
  by (relation "measure (\<lambda>(a, bs). length bs)") (auto dest: parse_field_shorter)

declare parse_from.simps [simp del]

definition parse :: "bytes \<Rightarrow> addons_error + addons" where
  "parse input = parse_from addons_default input"

section \<open>The protobuf wire format\<close>

text \<open>The canonical encoding of the format the parser reads.\<close>

fun put_varint :: "nat \<Rightarrow> bytes" where
  "put_varint n = (if n < 128 then [of_nat n] else of_nat (128 + n mod 128) # put_varint (n div 128))"

declare put_varint.simps [simp del]

datatype addons_field =
    VarintField nat nat
  | Fixed64Field nat bytes
  | BytesField nat bytes
  | Fixed32Field nat bytes

fun put_field :: "addons_field \<Rightarrow> bytes" where
  "put_field (VarintField f v) = put_varint (8 * f) @ put_varint v"
| "put_field (Fixed64Field f v) = put_varint (8 * f + 1) @ v"
| "put_field (BytesField f v) = put_varint (8 * f + 2) @ put_varint (length v) @ v"
| "put_field (Fixed32Field f v) = put_varint (8 * f + 5) @ v"

definition field_number_ok :: "nat \<Rightarrow> bool" where
  "field_number_ok f \<longleftrightarrow> 0 < f \<and> f < 2 ^ 61"

fun field_ok :: "addons_field \<Rightarrow> bool" where
  "field_ok (VarintField f v) = (field_number_ok f \<and> v < 2 ^ 64)"
| "field_ok (Fixed64Field f v) = (field_number_ok f \<and> length v = 8)"
| "field_ok (BytesField f v) = (field_number_ok f \<and> length v < 2 ^ 64 \<and> (f = 1 \<longrightarrow> valid_utf8 v))"
| "field_ok (Fixed32Field f v) = (field_number_ok f \<and> length v = 4)"

text \<open>What a field means: the last flow and the last seed count, anything else is skipped.\<close>

fun apply_field :: "addons \<Rightarrow> addons_field \<Rightarrow> addons" where
  "apply_field a (BytesField f v) =
    (if f = 1 then a\<lparr>flow := Some v\<rparr> else if f = 2 then a\<lparr>seed := Some v\<rparr> else a)"
| "apply_field a (VarintField f v) = a"
| "apply_field a (Fixed64Field f v) = a"
| "apply_field a (Fixed32Field f v) = a"

section \<open>Reading back varints\<close>

lemma low_bits:
  assumes "n < 128"
  shows "(of_nat n :: byte) AND 0x7F = of_nat n" "(of_nat n :: byte) AND 0x80 = 0"
    "(of_nat (128 + n) :: byte) AND 0x7F = of_nat n" "(of_nat (128 + n) :: byte) AND 0x80 \<noteq> 0"
proof -
  have 1: "(of_nat m :: byte) AND 0x7F = of_nat (m mod 128)" for m
    using take_bit_eq_mask [of 7 "of_nat m :: byte"] take_bit_of_nat [of 7 m, where 'a = byte]
    by (simp add: mask_eq_exp_minus_1 take_bit_eq_mod)
  show "(of_nat n :: byte) AND 0x7F = of_nat n" "(of_nat (128 + n) :: byte) AND 0x7F = of_nat n"
    using assms 1 [of n] 1 [of "128 + n"] by simp_all
  have 2: "(of_nat m :: byte) AND 0x80 = 0 \<longleftrightarrow> \<not> bit m 7" for m :: nat
    using and_exp_eq_0_iff_not_bit [of "of_nat m :: byte" 7] by (simp add: bit_of_nat_iff)
  show "(of_nat n :: byte) AND 0x80 = 0" "(of_nat (128 + n) :: byte) AND 0x80 \<noteq> 0"
    using assms 2 [of n] 2 [of "128 + n"] div_add_self1 [of 128 n] by (simp_all add: bit_iff_odd)
qed

lemma or_shifted:
  fixes v w :: u64
  assumes "unat v < 2 ^ s"
  shows "v OR push_bit s w = v + push_bit s w"
proof (rule disjunctive_add [symmetric])
  fix n
  have "v = take_bit s v"
    using assms by (simp add: word_unat_eq_iff unsigned_take_bit_eq take_bit_nat_eq_self)
  then have "bit v n \<Longrightarrow> n < s"
    by (metis bit_take_bit_iff)
  then show "\<not> bit v n \<or> \<not> bit (push_bit s w) n"
    by (auto simp: bit_push_bit_iff)
qed

lemma ucast_small: "n < 128 \<Longrightarrow> ucast (of_nat n :: byte) = (of_nat n :: u64)"
  by (simp add: unsigned_of_nat take_bit_nat_eq_self)

lemma unat_shifted:
  fixes v :: u64
  assumes "unat v < 2 ^ (7 * i)" and "m < 128" and "i < 9"
  shows "unat (v + push_bit (7 * i) (of_nat m)) < 2 ^ (7 * Suc i)"
proof -
  have "m * 2 ^ (7 * i) + unat v < (m + 1) * 2 ^ (7 * i)"
    using assms(1) by simp
  also have "\<dots> \<le> 128 * 2 ^ (7 * i)"
    using assms(2) by (intro mult_le_mono1) simp
  also have eq: "\<dots> = 2 ^ (7 * Suc i)"
    by (simp add: power_add)
  finally have lt: "m * 2 ^ (7 * i) + unat v < 2 ^ (7 * Suc i)" .
  have "(2 :: nat) ^ (7 * Suc i) \<le> 2 ^ 64"
    using assms(3) by (intro power_increasing) simp_all
  then have "m * 2 ^ (7 * i) < 2 ^ 64" "unat v + m * 2 ^ (7 * i) < 2 ^ 64"
    using lt by linarith+
  moreover have "push_bit (7 * i) (of_nat m :: u64) = of_nat (m * 2 ^ (7 * i))"
    by (simp add: push_bit_eq_mult)
  ultimately have sh: "unat (push_bit (7 * i) (of_nat m :: u64)) = m * 2 ^ (7 * i)"
    "unat v + unat (push_bit (7 * i) (of_nat m :: u64)) < 2 ^ 64"
    by (simp_all only: unat_of_nat len_num0 len_bit0 len_num1 len_bit1 mod_less) simp_all
  then show ?thesis
    using lt by (simp only: unat_word_ariths) simp
qed

lemma read_put_varint_from:
  assumes "n < 2 ^ (64 - 7 * i)" and "i < 10" and "unat v < 2 ^ (7 * i)"
  shows "read_varint_from (map (\<lambda>i. 7 * i) [i..<10]) v (put_varint n @ rest)
    = Ok (v + push_bit (7 * i) (of_nat n), rest)"
  using assms
proof (induction n arbitrary: i v rule: put_varint.induct)
  case (1 n)
  have shifts: "map (\<lambda>i. 7 * i) [i..<10] = 7 * i # map (\<lambda>i. 7 * i) [Suc i..<10]"
    using 1(3) by (simp add: upt_conv_Cons)
  show ?case
  proof (cases "n < 128")
    case True
    have "of_nat n \<le> (1 :: byte)" if "7 * i = 63"
      using 1(2) that by (auto simp: less_2_cases_iff)
    then show ?thesis
      using True 1(4) low_bits(1,2) [OF True] unfolding shifts
      by (auto simp: put_varint.simps [of n] ucast_small or_shifted)
  next
    case False
    have i: "i < 9"
    proof (rule ccontr)
      assume "\<not> i < 9"
      then have "i = 9"
        using 1(3) by simp
      then show False
        using 1(2) False by simp
    qed
    let ?v = "v + push_bit (7 * i) (of_nat (n mod 128))"
    have step: "n div 128 < 2 ^ (64 - 7 * Suc i)"
    proof (rule less_mult_imp_div_less)
      have "(2 :: nat) ^ (64 - 7 * i) = 2 ^ (64 - 7 * Suc i + 7)"
        using i by (intro arg_cong [where f = "(^) 2"]) simp
      then show "n < 2 ^ (64 - 7 * Suc i) * 128"
        using 1(2) by (simp add: power_add)
    qed
    have "unat ?v < 2 ^ (7 * Suc i)"
      using 1(4) i by (intro unat_shifted) simp_all
    then have ih: "read_varint_from (map (\<lambda>i. 7 * i) [Suc i..<10]) ?v (put_varint (n div 128) @ rest)
        = Ok (?v + push_bit (7 * Suc i) (of_nat (n div 128)), rest)"
      using 1(1) [OF False step] i by simp
    have "(of_nat n :: u64) = of_nat (n mod 128 + n div 128 * 128)"
      by simp
    then have "?v + push_bit (7 * Suc i) (of_nat (n div 128)) = v + push_bit (7 * i) (of_nat n)"
      unfolding push_bit_eq_mult of_nat_add of_nat_mult by (simp add: algebra_simps power_add)
    then show ?thesis
      using ih i False 1(4) low_bits(3,4) [of "n mod 128"] unfolding shifts
      by (simp add: put_varint.simps [of n] ucast_small or_shifted)
  qed
qed

lemma read_put_varint [decoder_simps]:
  "n < 2 ^ 64 \<Longrightarrow> read_varint (put_varint n @ rest) = Ok (of_nat n, rest)"
  using read_put_varint_from [of n 0 0 rest] by (simp add: read_varint_def)

section \<open>Reading back fields\<close>

lemma key_parts:
  assumes "f < 2 ^ 61" and "w < 8"
  shows "drop_bit 3 (of_nat (8 * f + w) :: u64) = of_nat f"
    "ucast ((of_nat (8 * f + w) :: u64) AND 7) = (of_nat w :: byte)"
proof -
  have u: "unat (of_nat (8 * f + w) :: u64) = 8 * f + w"
    using assms by (intro unat_of_nat_small) simp
  have "unat (drop_bit 3 (of_nat (8 * f + w) :: u64)) = (8 * f + w) div 8"
    unfolding unsigned_drop_bit_eq u using assms by (simp add: drop_bit_eq_div take_bit_nat_eq_self)
  also have "\<dots> = unat (of_nat f :: u64)"
    using assms by (simp add: unat_of_nat)
  finally show "drop_bit 3 (of_nat (8 * f + w) :: u64) = of_nat f"
    by (simp only: word_unat_eq_iff)
  have "(of_nat (8 * f + w) :: u64) AND 7 = of_nat (take_bit 3 (8 * f + w))"
    using take_bit_eq_mask [of 3 "of_nat (8 * f + w) :: u64"] take_bit_of_nat [of 3 "8 * f + w", where 'a = u64]
    by (simp add: mask_eq_exp_minus_1)
  also have "take_bit 3 (8 * f + w) = w"
    using assms(2) by (simp add: take_bit_eq_mod)
  finally show "ucast ((of_nat (8 * f + w) :: u64) AND 7) = (of_nat w :: byte)"
    using assms(2) by (simp add: unsigned_of_nat take_bit_nat_eq_self)
qed

lemma field_numbers:
  assumes "field_number_ok f"
  shows "(of_nat f :: u64) = 0 \<longleftrightarrow> False" "(of_nat f :: u64) = 1 \<longleftrightarrow> f = 1" "(of_nat f :: u64) = 2 \<longleftrightarrow> f = 2"
  using assms of_nat_word_eq_iff [of f 0, where 'a = 64] of_nat_word_eq_iff [of f 1, where 'a = 64]
    of_nat_word_eq_iff [of f 2, where 'a = 64]
  by (auto simp: field_number_ok_def)

lemma parse_field_key:
  assumes "field_number_ok f" and "w < 8"
  shows "parse_field a (put_varint (8 * f + w) @ rest) = parse_value a (of_nat f) (of_nat w) rest"
proof -
  have f: "f < 2 ^ 61"
    using assms(1) by (simp add: field_number_ok_def)
  have "read_varint (put_varint (8 * f + w) @ rest) = Ok (of_nat (8 * f + w), rest)"
    using f assms(2) by (intro read_put_varint) simp
  then show ?thesis
    unfolding parse_field_def
    by (simp only: chain_run key_parts [OF f assms(2)] Let_def field_numbers [OF assms(1)] if_False)
qed

lemma read_put_bytes [decoder_simps]:
  "length v < 2 ^ 64 \<Longrightarrow> read_length_delimited (put_varint (length v) @ v @ rest) = Ok (v, rest)"
  by (simp add: read_length_delimited_def chain_def read_put_varint take_run unat_of_nat_small)

lemma skip_bytes_run [decoder_simps]: "length v = n \<Longrightarrow> skip_bytes n (v @ rest) = Ok ((), rest)"
  by (simp add: skip_bytes_def)

lemma parse_put_field:
  assumes "field_ok x"
  shows "parse_field a (put_field x @ rest) = Ok (apply_field a x, rest)"
proof (cases x)
  case (VarintField f v)
  then show ?thesis
    using assms parse_field_key [of f 0] by (simp add: parse_value_def skip_field_def decoder_simps)
next
  case (Fixed64Field f v)
  then show ?thesis
    using assms parse_field_key [of f 1] by (simp add: parse_value_def skip_field_def decoder_simps)
next
  case (BytesField f v)
  then show ?thesis
    using assms parse_field_key [of f 2] field_numbers(2,3) [of f]
    by (simp add: parse_value_def skip_field_def decoder_simps)
next
  case (Fixed32Field f v)
  then show ?thesis
    using assms parse_field_key [of f 5] by (simp add: parse_value_def skip_field_def decoder_simps)
qed

lemma put_field_nonempty: "put_field x \<noteq> []"
  by (cases x) (simp_all add: put_varint.simps)

lemma parse_fields:
  "\<forall>x \<in> set fs. field_ok x \<Longrightarrow> parse_from a (concat (map put_field fs)) = Ok (foldl apply_field a fs)"
proof (induction fs arbitrary: a)
  case Nil
  then show ?case
    by (simp add: parse_from.simps)
next
  case (Cons x fs)
  then show ?case
    using put_field_nonempty by (subst parse_from.simps) (simp add: parse_put_field)
qed

section \<open>Properties\<close>

text \<open>
  C30.  Addons are parsed with forward compatibility: any sequence of well-formed protobuf
  fields, of whatever numbers and wire types in whatever order, parses to the last flow and
  the last seed among them, every other field being skipped.
\<close>

theorem addons_forward_compatible:
  assumes "\<forall>x \<in> set fs. field_ok x"
  shows "parse (concat (map put_field fs)) = Ok (foldl apply_field addons_default fs)"
  unfolding parse_def using assms by (rule parse_fields)

theorem addons_forward_compatible_witness:
  "parse (concat (map put_field [VarintField 9 300, BytesField 2 [7, 7], Fixed32Field 77 [1, 2, 3, 4],
      BytesField 1 [120, 121]])) = Ok \<lparr>flow = Some [120, 121], seed = Some [7, 7]\<rparr>"
  using addons_forward_compatible [of "[VarintField 9 300, BytesField 2 [7, 7],
      Fixed32Field 77 [1, 2, 3, 4], BytesField 1 [120, 121]]"]
  by (simp add: field_number_ok_def addons_default_def)

end
