(* ===== verification/Vless_Decode.thy ===== *)
theory Vless_Decode
  imports Vless_Addons
begin

text \<open>
  The VLESS request header: its types (\<open>src/protocol/vless/types.rs\<close>) and its two decoders
  (\<open>src/protocol/vless/decode.rs\<close>), the owning one and the borrowing one of the production
  path.  A domain string is its bytes.
\<close>

section \<open>Types\<close>

definition VERSION :: byte where "VERSION = 0"

datatype command = Tcp | Udp | Mux | Reverse

fun as_byte :: "command \<Rightarrow> byte" where
  "as_byte Tcp = 1" | "as_byte Udp = 2" | "as_byte Mux = 3" | "as_byte Reverse = 4"

fun requires_destination :: "command \<Rightarrow> bool" where
  "requires_destination Tcp = True"
| "requires_destination Udp = True"
| "requires_destination Mux = False"
| "requires_destination Reverse = False"

datatype address = Ipv4 u32 | DomainName bytes | Ipv6 u128

record destination =
  dst_address :: address
  dst_port :: u16

record request_header =
  rh_version :: byte
  rh_user_id :: bytes
  rh_addons :: bytes
  rh_command :: command
  rh_destination :: "destination option"

datatype address_ref = Ipv4Ref u32 | DomainRef bytes | Ipv6Ref u128

record destination_ref =
  dr_address :: address_ref
  dr_port :: u16

record request_ref =
  rr_version :: byte
  rr_user_id :: bytes
  rr_addons :: bytes
  rr_command :: command
  rr_destination :: "destination_ref option"

fun owned_address :: "address_ref \<Rightarrow> address" where
  "owned_address (Ipv4Ref a) = Ipv4 a"
| "owned_address (DomainRef d) = DomainName d"
| "owned_address (Ipv6Ref a) = Ipv6 a"

definition into_owned :: "destination_ref \<Rightarrow> destination" where
  "into_owned d = \<lparr>dst_address = owned_address (dr_address d), dst_port = dr_port d\<rparr>"

datatype decode_error =
    UnexpectedEnd string nat nat
  | UnsupportedVersion byte
  | UnknownCommand byte
  | UnknownAddressType byte
  | EmptyDomain
  | InvalidDomainName

fun unexpected_end :: "decode_error \<Rightarrow> bool" where
  "unexpected_end (UnexpectedEnd f n r) = True"
| "unexpected_end _ = False"

section \<open>The decoders\<close>

definition ADDRESS_TYPE_IPV4 :: byte where "ADDRESS_TYPE_IPV4 = 1"
definition ADDRESS_TYPE_DOMAIN :: byte where "ADDRESS_TYPE_DOMAIN = 2"
definition ADDRESS_TYPE_IPV6 :: byte where "ADDRESS_TYPE_IPV6 = 3"

lemmas address_types = ADDRESS_TYPE_IPV4_def ADDRESS_TYPE_DOMAIN_def ADDRESS_TYPE_IPV6_def

definition is_ascii_alphanumeric :: "byte \<Rightarrow> bool" where
  "is_ascii_alphanumeric b \<longleftrightarrow> (48 \<le> b \<and> b \<le> 57) \<or> (65 \<le> b \<and> b \<le> 90) \<or> (97 \<le> b \<and> b \<le> 122)"

definition is_domain_byte :: "byte \<Rightarrow> bool" where
  "is_domain_byte b \<longleftrightarrow> is_ascii_alphanumeric b \<or> b = 45 \<or> b = 46 \<or> b = 95"

definition take_field :: "string \<Rightarrow> nat \<Rightarrow> (decode_error, bytes) decoder" where
  "take_field field n = cursor_take (UnexpectedEnd field) n"

definition read_u8 :: "string \<Rightarrow> (decode_error, byte) decoder" where
  "read_u8 field = chain (take_field field 1) (\<lambda>b. yield (b ! 0))"

definition read_u16 :: "string \<Rightarrow> (decode_error, u16) decoder" where
  "read_u16 field = chain (take_field field 2) (\<lambda>b. yield (be_u16 b))"

definition decode_command :: "byte \<Rightarrow> decode_error + command" where
  "decode_command v =
    (if v = 1 then Ok Tcp else if v = 2 then Ok Udp else if v = 3 then Ok Mux
     else if v = 4 then Ok Reverse else Err (UnknownCommand v))"

definition decode_domain_owned :: "(decode_error, address) decoder" where
  "decode_domain_owned =
    chain (read_u8 ''domain length'') (\<lambda>len.
      if len = 0 then refuse EmptyDomain
      else chain (take_field ''domain'' (unat len)) (\<lambda>bs.
        if \<not> list_all is_domain_byte bs then refuse InvalidDomainName
        else if \<not> valid_utf8 bs then refuse InvalidDomainName
        else yield (DomainName bs)))"

definition decode_domain_ref :: "(decode_error, address_ref) decoder" where
  "decode_domain_ref =
    chain (read_u8 ''domain length'') (\<lambda>len.
      if len = 0 then refuse EmptyDomain
      else chain (take_field ''domain'' (unat len)) (\<lambda>bs.
        if \<not> list_all is_domain_byte bs then refuse InvalidDomainName
        else if \<not> valid_utf8 bs then refuse InvalidDomainName
        else yield (DomainRef bs)))"

definition decode_destination_owned :: "(decode_error, destination) decoder" where
  "decode_destination_owned =
    chain (read_u16 ''destination port'') (\<lambda>port.
    chain (read_u8 ''address type'') (\<lambda>address_type.
    chain
      (if address_type = ADDRESS_TYPE_IPV4 then
         chain (take_field ''IPv4 address'' 4) (\<lambda>b. yield (Ipv4 (be_u32 b)))
       else if address_type = ADDRESS_TYPE_DOMAIN then decode_domain_owned
       else if address_type = ADDRESS_TYPE_IPV6 then
         chain (take_field ''IPv6 address'' 16) (\<lambda>b. yield (Ipv6 (be_u128 b)))
       else refuse (UnknownAddressType address_type))
      (\<lambda>address. yield \<lparr>dst_address = address, dst_port = port\<rparr>)))"

definition decode_destination_ref :: "(decode_error, destination_ref) decoder" where
  "decode_destination_ref =
    chain (read_u16 ''destination port'') (\<lambda>port.
    chain (read_u8 ''address type'') (\<lambda>address_type.
    chain
      (if address_type = ADDRESS_TYPE_IPV4 then
         chain (take_field ''IPv4 address'' 4) (\<lambda>b. yield (Ipv4Ref (be_u32 b)))
       else if address_type = ADDRESS_TYPE_DOMAIN then decode_domain_ref
       else if address_type = ADDRESS_TYPE_IPV6 then
         chain (take_field ''IPv6 address'' 16) (\<lambda>b. yield (Ipv6Ref (be_u128 b)))
       else refuse (UnknownAddressType address_type))
      (\<lambda>address. yield \<lparr>dr_address = address, dr_port = port\<rparr>)))"

definition decode_request :: "(decode_error, request_header) decoder" where
  "decode_request =
    chain (read_u8 ''protocol version'') (\<lambda>version.
      if version \<noteq> VERSION then refuse (UnsupportedVersion version)
      else
        chain (take_field ''user ID'' 16) (\<lambda>user_id.
        chain (read_u8 ''addons length'') (\<lambda>addons_length.
        chain (take_field ''addons'' (unat addons_length)) (\<lambda>addons.
        chain (read_u8 ''command'') (\<lambda>b.
        chain (lift_result (decode_command b)) (\<lambda>command.
        chain
          (if requires_destination command then chain decode_destination_owned (\<lambda>d. yield (Some d))
           else yield None)
          (\<lambda>destination.
             yield \<lparr>rh_version = version, rh_user_id = user_id, rh_addons = addons,
                    rh_command = command, rh_destination = destination\<rparr>)))))))"

definition decode_request_ref :: "(decode_error, request_ref) decoder" where
  "decode_request_ref =
    chain (read_u8 ''protocol version'') (\<lambda>version.
      if version \<noteq> VERSION then refuse (UnsupportedVersion version)
      else
        chain (take_field ''user ID'' 16) (\<lambda>user_id.
        chain (read_u8 ''addons length'') (\<lambda>addons_length.
        chain (take_field ''addons'' (unat addons_length)) (\<lambda>addons.
        chain (read_u8 ''command'') (\<lambda>b.
        chain (lift_result (decode_command b)) (\<lambda>command.
        chain
          (if requires_destination command then chain decode_destination_ref (\<lambda>d. yield (Some d))
           else yield None)
          (\<lambda>destination.
             yield \<lparr>rr_version = version, rr_user_id = user_id, rr_addons = addons,
                    rr_command = command, rr_destination = destination\<rparr>)))))))"

section \<open>The wire format\<close>

fun address_bytes :: "address \<Rightarrow> bytes" where
  "address_bytes (Ipv4 a) = 1 # u32_be a"
| "address_bytes (DomainName d) = 2 # of_nat (length d) # d"
| "address_bytes (Ipv6 a) = 3 # u128_be a"

fun address_ok :: "address \<Rightarrow> bool" where
  "address_ok (Ipv4 a) = True"
| "address_ok (DomainName d) = (d \<noteq> [] \<and> length d \<le> 255 \<and> list_all is_domain_byte d)"
| "address_ok (Ipv6 a) = True"

definition destination_bytes :: "destination \<Rightarrow> bytes" where
  "destination_bytes d = u16_be (dst_port d) @ address_bytes (dst_address d)"

definition header_bytes :: "request_header \<Rightarrow> bytes" where
  "header_bytes h =
    rh_version h # rh_user_id h @ of_nat (length (rh_addons h)) # rh_addons h @ as_byte (rh_command h)
      # (case rh_destination h of None \<Rightarrow> [] | Some d \<Rightarrow> destination_bytes d)"

definition header_ok :: "request_header \<Rightarrow> bool" where
  "header_ok h \<longleftrightarrow> rh_version h = VERSION \<and> length (rh_user_id h) = 16 \<and> length (rh_addons h) \<le> 255
     \<and> (case rh_destination h of
           None \<Rightarrow> \<not> requires_destination (rh_command h)
         | Some d \<Rightarrow> requires_destination (rh_command h) \<and> address_ok (dst_address d))"

section \<open>Fields\<close>

lemma take_field_Ok_iff [result_simps]:
  "take_field f n bs = Ok (as, rest) \<longleftrightarrow> bs = as @ rest \<and> length as = n"
  by (simp add: take_field_def result_simps)

lemma read_u8_Ok_iff [result_simps]: "read_u8 f bs = Ok (b, rest) \<longleftrightarrow> bs = b # rest"
  by (auto simp: read_u8_def result_simps length_Suc_conv)

lemma read_u16_Ok_iff [result_simps]: "read_u16 f bs = Ok (x, rest) \<longleftrightarrow> bs = u16_be x @ rest"
  by (auto simp: read_u16_def result_simps be_simps)

lemma domain_byte_ascii: "is_domain_byte b \<Longrightarrow> b < 0x80"
  by (auto simp: is_domain_byte_def is_ascii_alphanumeric_def word_less_nat_alt word_le_nat_alt)

lemma domain_utf8: "list_all is_domain_byte d \<Longrightarrow> valid_utf8 d"
  by (auto simp: list_all_iff intro!: ascii_utf8 domain_byte_ascii)

lemma length_byte:
  "length xs = unat (b :: byte) \<longleftrightarrow> b = of_nat (length xs) \<and> length xs \<le> 255"
proof
  assume l: "length xs = unat b"
  then show "b = of_nat (length xs) \<and> length xs \<le> 255"
    using unat_byte_less [of b] by (simp del: unat_byte_less)
qed (simp add: unat_of_nat_small)

lemma decode_domain_Ok_iff [result_simps]:
  "decode_domain_owned bs = Ok (a, rest) \<longleftrightarrow>
    (\<exists>d. a = DomainName d \<and> address_ok a \<and> bs = of_nat (length d) # d @ rest)"
proof -
  have zero: "of_nat (length d) = (0 :: byte) \<longleftrightarrow> d = []" if "length d \<le> 255" for d :: bytes
    using of_nat_word_eq_iff [of "length d" 0, where 'a = 8] that by simp
  show ?thesis
    unfolding decode_domain_owned_def
    by (auto simp: result_simps length_byte zero domain_utf8)
qed

lemma decode_destination_Ok_iff [result_simps]:
  "decode_destination_owned bs = Ok (d, rest) \<longleftrightarrow>
    address_ok (dst_address d) \<and> bs = destination_bytes d @ rest"
proof (cases d)
  case (fields address port)
  then show ?thesis
    unfolding decode_destination_owned_def destination_bytes_def
    by (cases address) (auto simp: result_simps address_types be_simps)
qed

lemma decode_command_Ok_iff [result_simps]: "decode_command v = Ok c \<longleftrightarrow> v = as_byte c"
  by (cases c) (auto simp: decode_command_def)

lemma decode_request_Ok_iff:
  "decode_request bs = Ok (h, rest) \<longleftrightarrow> header_ok h \<and> bs = header_bytes h @ rest"
proof (cases h)
  case (fields version user addons command dest)
  then show ?thesis
    unfolding decode_request_def header_ok_def header_bytes_def
    by (cases dest) (auto simp: result_simps length_byte)
qed

section \<open>The decoder over a growing buffer\<close>

lemma bounded_take_field: "k \<le> n \<Longrightarrow> bounded_decoder (take_field f k) unexpected_end n"
  unfolding take_field_def by (rule bounded_take) simp_all

lemma bounded_read_u8: "bounded_decoder (read_u8 f) unexpected_end 1"
  unfolding read_u8_def
  by (rule bounded_chainI [where a = 1 and b = 0 and n = 1]) (simp_all add: bounded_take_field bounded_yield)

lemma bounded_read_u16: "bounded_decoder (read_u16 f) unexpected_end 2"
  unfolding read_u16_def
  by (rule bounded_chainI [where a = 2 and b = 0 and n = 2]) (simp_all add: bounded_take_field bounded_yield)

lemma bounded_decode_domain: "bounded_decoder decode_domain_owned unexpected_end 256"
proof -
  have le: "unat (b :: byte) \<le> 255" for b
    using unat_byte_less [of b] by linarith
  show ?thesis
    unfolding decode_domain_owned_def
    by (rule bounded_chainI [where a = 1 and b = 255 and n = 256], rule bounded_read_u8)
       (auto intro!: bounded_intros bounded_chainI [where a = 255 and b = 0 and n = 255] bounded_take_field le)
qed

lemma bounded_decode_destination: "bounded_decoder decode_destination_owned unexpected_end 259"
proof -
  have fixed: "bounded_decoder (chain (take_field f k) (\<lambda>b. yield (g b))) unexpected_end 256"
    if "k \<le> 256" for f k and g :: "bytes \<Rightarrow> address"
    using that by (intro bounded_chainI [where a = 256 and b = 0 and n = 256] bounded_take_field bounded_yield) simp_all
  show ?thesis
    unfolding decode_destination_owned_def
    by (intro bounded_chainI [where a = 2 and b = 257 and n = 259] bounded_chainI [where a = 1 and b = 256 and n = 257]
        bounded_chainI [where a = 256 and b = 0 and n = 256] bounded_read_u16 bounded_read_u8 bounded_intros
        bounded_decode_domain fixed) simp_all
qed

definition MAX_REQUEST_HEADER_SIZE :: nat where "MAX_REQUEST_HEADER_SIZE = 533"

lemma bounded_decode_request: "bounded_decoder decode_request unexpected_end 533"
proof -
  have le: "unat (b :: byte) \<le> 255" for b
    using unat_byte_less [of b] by linarith
  have dest: "bounded_decoder (if c then chain decode_destination_owned (\<lambda>d. yield (Some d)) else yield None)
      unexpected_end 259" for c
    by (intro bounded_if bounded_chainI [where a = 259 and b = 0 and n = 259] bounded_decode_destination bounded_yield) simp
  have cmd: "bounded_decoder (lift_result (decode_command b)) unexpected_end 0" for b
    by (intro bounded_lift) (auto simp: decode_command_def split: if_splits)
  show ?thesis
    unfolding decode_request_def
    by (intro bounded_chainI [where a = 1 and b = 532 and n = 533] bounded_if bounded_refuse
        bounded_chainI [where a = 16 and b = 516 and n = 532] bounded_chainI [where a = 1 and b = 515 and n = 516]
        bounded_chainI [where a = 255 and b = 260 and n = 515] bounded_chainI [where a = 1 and b = 259 and n = 260]
        bounded_chainI [where a = 0 and b = 259 and n = 259] bounded_chainI [where a = 259 and b = 0 and n = 259]
        bounded_read_u8 bounded_take_field le cmd dest bounded_yield) simp_all
qed

interpretation vless_request: bounded_decoder decode_request unexpected_end MAX_REQUEST_HEADER_SIZE
  unfolding MAX_REQUEST_HEADER_SIZE_def by (rule bounded_decode_request)

section \<open>The borrowing decoder\<close>

definition owned_request :: "request_ref \<Rightarrow> request_header" where
  "owned_request r = \<lparr>rh_version = rr_version r, rh_user_id = rr_user_id r, rh_addons = rr_addons r,
     rh_command = rr_command r, rh_destination = map_option into_owned (rr_destination r)\<rparr>"

definition map_decoded :: "('a \<Rightarrow> 'b) \<Rightarrow> 'e + ('a \<times> bytes) \<Rightarrow> 'e + ('b \<times> bytes)" where
  "map_decoded g r = map_sum id (map_prod g id) r"

lemma chain_map_decoded:
  assumes "p bs = map_decoded h (q bs)" and "\<And>x rest. f (h x) rest = map_decoded g (f' x rest)"
  shows "chain p f bs = map_decoded g (chain q f' bs)"
  using assms by (auto simp: chain_def map_decoded_def split: sum.split)

lemma map_decoded_steps [simp]:
  "map_decoded g (yield x bs) = yield (g x) bs"
  "map_decoded g (refuse e bs) = refuse e bs"
  by (auto simp: map_decoded_def yield_def refuse_def)

lemma borrow_step:
  assumes "\<And>x rest. f x rest = map_decoded g (f' x rest)"
  shows "chain p f bs = map_decoded g (chain p f' bs)"
  using assms by (auto simp: chain_def map_decoded_def split: sum.split)

lemma decode_domain_borrowed: "decode_domain_owned bs = map_decoded owned_address (decode_domain_ref bs)"
  unfolding decode_domain_owned_def decode_domain_ref_def
  by (intro borrow_step) (auto intro!: borrow_step)

lemma decode_destination_borrowed:
  "decode_destination_owned bs = map_decoded into_owned (decode_destination_ref bs)"
  unfolding decode_destination_owned_def decode_destination_ref_def
  by (intro borrow_step chain_map_decoded [where h = owned_address])
     (auto intro!: borrow_step simp: decode_domain_borrowed into_owned_def)

lemma decode_request_owned: "decode_request bs = map_decoded owned_request (decode_request_ref bs)"
proof -
  have dest: "(if c then chain decode_destination_owned (\<lambda>d. yield (Some d)) else yield None) bs
      = map_decoded (map_option into_owned)
          ((if c then chain decode_destination_ref (\<lambda>d. yield (Some d)) else yield None) bs)" for c bs
    by (auto intro!: chain_map_decoded [where h = into_owned] simp: decode_destination_borrowed)
  show ?thesis
    unfolding decode_request_def decode_request_ref_def
    by (rule borrow_step)
       (auto intro!: borrow_step chain_map_decoded [OF dest] simp: owned_request_def simp del: if_split)
qed

lemma inj_owned_request: "owned_request r = owned_request r' \<longleftrightarrow> r = r'"
proof -
  have "owned_address a = owned_address a' \<longleftrightarrow> a = a'" for a a'
    by (cases a; cases a') auto
  then have "into_owned d = into_owned d' \<longleftrightarrow> d = d'" for d d'
    by (auto simp: into_owned_def intro: destination_ref.equality)
  then have "map_option into_owned d = map_option into_owned d' \<longleftrightarrow> d = d'" for d d'
    by (cases d; cases d') auto
  then show ?thesis
    by (auto simp: owned_request_def intro: request_ref.equality)
qed

lemma decode_request_ref_iff:
  "decode_request_ref bs = Ok (r, rest) \<longleftrightarrow> decode_request bs = Ok (owned_request r, rest)"
  "decode_request_ref bs = Err e \<longleftrightarrow> decode_request bs = Err e"
  unfolding decode_request_owned
  by (cases "decode_request_ref bs"; auto simp: map_decoded_def inj_owned_request)+

interpretation vless_request_ref: bounded_decoder decode_request_ref unexpected_end MAX_REQUEST_HEADER_SIZE
  using vless_request.dec_more vless_request.dec_final vless_request.dec_front vless_request.enough
    vless_request.uses_at_most
  by unfold_locales (simp_all add: decode_request_ref_iff)

section \<open>Properties\<close>

text \<open>
  C28.  The request decoder accepts precisely the wire format: it returns a header and a
  payload if and only if the header is well-formed and the input is the header's unique
  encoding followed by the payload.
\<close>

theorem decode_request_exact:
  "decode_request bs = Ok (h, payload) \<longleftrightarrow> header_ok h \<and> bs = header_bytes h @ payload"
  by (rule decode_request_Ok_iff)

text \<open>
  C29.  The borrowing decoder of the production path agrees with the owning one on every
  input: same header, same payload, same error.
\<close>

theorem decode_request_ref_agrees:
  "decode_request bs =
    (case decode_request_ref bs of Inl e \<Rightarrow> Err e | Inr (r, payload) \<Rightarrow> Ok (owned_request r, payload))"
  by (auto simp: decode_request_owned map_decoded_def split: sum.split)

end
