(* ===== verification/Vless_Client.thy ===== *)
theory Vless_Client
  imports Vless_Decode
begin

text \<open>
  The client half of VLESS (\<open>src/protocol/vless/client.rs\<close>), the server's response header
  (\<open>src/protocol/vless/response.rs\<close>) and the authorization of decoded requests
  (\<open>src/protocol/vless/validate.rs\<close>).  The encoders write into a caller's buffer; their model
  returns the buffer as it is afterwards.
\<close>

section \<open>Writing into a buffer\<close>

text \<open>\<open>output[at..at + n].copy_from_slice(bs)\<close>\<close>

definition write_at :: "nat \<Rightarrow> bytes \<Rightarrow> bytes \<Rightarrow> bytes" where
  "write_at at bs buf = take at buf @ bs @ drop (at + length bs) buf"

lemma write_at_front: "write_at 0 bs buf = bs @ drop (length bs) buf"
  by (simp add: write_at_def)

lemma write_at_append: "length as = at \<Longrightarrow> write_at at bs (as @ buf) = (as @ bs) @ drop (length bs) buf"
  by (simp add: write_at_def)

section \<open>Requests\<close>

datatype request_encode_error = ZeroPort | InvalidDomain | BufferTooSmall nat

definition address_len :: "address \<Rightarrow> request_encode_error + nat" where
  "address_len a =
    (case a of
       Ipv4 _ \<Rightarrow> Ok 5
     | Ipv6 _ \<Rightarrow> Ok 17
     | DomainName d \<Rightarrow>
        if d = [] \<or> length d > 255 \<or> \<not> list_all is_domain_byte d then Err InvalidDomain
        else Ok (2 + length d))"

text \<open>The writes both requests share: version, user, Addons and command.\<close>

definition write_prefix :: "bytes \<Rightarrow> command \<Rightarrow> bytes \<Rightarrow> bytes" where
  "write_prefix user command =
    write_at (20 + length VISION_FLOW) [as_byte command]
    \<circ> write_at 20 VISION_FLOW
    \<circ> write_at 19 [of_nat (length VISION_FLOW)]
    \<circ> write_at 18 [0x0A]
    \<circ> write_at 17 [of_nat (2 + length VISION_FLOW)]
    \<circ> write_at 1 user
    \<circ> write_at 0 [VERSION]"

definition write_address :: "nat \<Rightarrow> address \<Rightarrow> bytes \<Rightarrow> bytes" where
  "write_address at a =
    (case a of
       Ipv4 x \<Rightarrow> write_at (at + 1) (u32_be x) \<circ> write_at at [1]
     | Ipv6 x \<Rightarrow> write_at (at + 1) (u128_be x) \<circ> write_at at [3]
     | DomainName d \<Rightarrow>
        write_at (at + 2) d \<circ> write_at (at + 1) [of_nat (length d)] \<circ> write_at at [2])"

definition encode_vision_tcp_request ::
  "bytes \<Rightarrow> destination \<Rightarrow> bytes \<Rightarrow> (request_encode_error + nat) \<times> bytes"
where
  "encode_vision_tcp_request user d output =
    (if dst_port d = 0 then (Err ZeroPort, output)
     else case address_len (dst_address d) of
       Inl e \<Rightarrow> (Err e, output)
     | Inr alen \<Rightarrow>
        (let prefix_len = 1 + 16 + 1 + 2 + length VISION_FLOW + 1 + 2;
             needed = prefix_len + alen
         in if length output < needed then (Err (BufferTooSmall needed), output)
            else (Ok needed,
                  write_address prefix_len (dst_address d)
                    (write_at (20 + length VISION_FLOW + 1) (u16_be (dst_port d))
                      (write_prefix user Tcp output)))))"

definition encode_vision_xudp_request :: "bytes \<Rightarrow> bytes \<Rightarrow> (request_encode_error + nat) \<times> bytes" where
  "encode_vision_xudp_request user output =
    (let needed = 1 + 16 + 1 + 2 + length VISION_FLOW + 1
     in if length output < needed then (Err (BufferTooSmall needed), output)
        else (Ok needed, write_prefix user Mux output))"

section \<open>Responses\<close>

definition MAX_ADDONS_LENGTH :: nat where "MAX_ADDONS_LENGTH = 255"

datatype response_encode_error = AddonsTooLong nat nat

definition encode_response_header :: "request_header \<Rightarrow> bytes \<Rightarrow> response_encode_error + bytes" where
  "encode_response_header request addons =
    (if length addons > 255 then Err (AddonsTooLong (length addons) MAX_ADDONS_LENGTH)
     else Ok (rh_version request # of_nat (length addons) # addons))"

datatype response_decode_error =
  Incomplete nat | ResponseVersion byte | InvalidAddons addons_error

definition decode_response :: "(response_decode_error, addons) decoder" where
  "decode_response input =
    (case input of
       [] \<Rightarrow> Err (Incomplete 1)
     | version # rest \<Rightarrow>
        if version \<noteq> VERSION then Err (ResponseVersion version)
        else case rest of
          [] \<Rightarrow> Err (Incomplete 2)
        | len # _ \<Rightarrow>
           (let needed = 2 + unat len
            in if length input < needed then Err (Incomplete needed)
               else case parse (take (needed - 2) (drop 2 input)) of
                 Inl e \<Rightarrow> Err (InvalidAddons e)
               | Inr addons \<Rightarrow> Ok (addons, drop needed input)))"

section \<open>Authorization\<close>

datatype request_validation_error =
    UnauthorizedUser
  | ShortIdOwnerMismatch
  | UnsupportedAddons nat
  | AddonsError addons_error
  | VisionFlowRequired
  | UnsupportedCommand command
  | MissingDestination
  | UnexpectedMuxDestination

definition authorize_authenticated_vision_xudp ::
  "request_header \<Rightarrow> bytes \<Rightarrow> request_validation_error + unit"
where
  "authorize_authenticated_vision_xudp request authenticated =
    (if rh_user_id request \<noteq> authenticated then Err ShortIdOwnerMismatch
     else and_then (map_err AddonsError (parse (rh_addons request))) (\<lambda>addons.
       if flow addons \<noteq> Some VISION_FLOW then Err VisionFlowRequired
       else if rh_command request \<noteq> Mux then Err (UnsupportedCommand (rh_command request))
       else if rh_destination request \<noteq> None then Err UnexpectedMuxDestination
       else Ok ()))"

definition validate_authenticated_vision_fields ::
  "bytes \<Rightarrow> bytes \<Rightarrow> command \<Rightarrow> bool \<Rightarrow> bytes \<Rightarrow> request_validation_error + unit"
where
  "validate_authenticated_vision_fields request_user addons_bytes command has_destination authenticated =
    (if request_user \<noteq> authenticated then Err ShortIdOwnerMismatch
     else and_then (map_err AddonsError (parse addons_bytes)) (\<lambda>addons.
       if flow addons \<noteq> Some VISION_FLOW then Err VisionFlowRequired
       else if command \<noteq> Tcp then Err (UnsupportedCommand command)
       else if \<not> has_destination then Err MissingDestination
       else Ok ()))"

definition authorize_authenticated_vision_tcp ::
  "request_header \<Rightarrow> bytes \<Rightarrow> request_validation_error + destination"
where
  "authorize_authenticated_vision_tcp request authenticated =
    and_then (validate_authenticated_vision_fields (rh_user_id request) (rh_addons request)
        (rh_command request) (rh_destination request \<noteq> None) authenticated)
      (\<lambda>_. ok_or MissingDestination (rh_destination request))"

section \<open>What the encoders write\<close>

definition flow_addons :: bytes where
  "flow_addons = 0x0A # 16 # VISION_FLOW"

definition vision_header :: "bytes \<Rightarrow> command \<Rightarrow> destination option \<Rightarrow> request_header" where
  "vision_header user command d = \<lparr>rh_version = VERSION, rh_user_id = user, rh_addons = flow_addons,
     rh_command = command, rh_destination = d\<rparr>"

lemma length_VISION_FLOW [simp]: "length VISION_FLOW = 16"
  by (simp add: VISION_FLOW_def ascii_def)

lemma valid_VISION_FLOW: "valid_utf8 VISION_FLOW"
  by (rule ascii_utf8) (simp add: VISION_FLOW_def ascii_def)

lemma flow_addons_put: "flow_addons = put_field (BytesField 1 VISION_FLOW)"
  by (simp add: flow_addons_def put_varint.simps)

lemma parse_flow_addons: "parse flow_addons = Ok \<lparr>flow = Some VISION_FLOW, seed = None\<rparr>"
  using parse_fields [of "[BytesField 1 VISION_FLOW]" addons_default]
  by (simp add: parse_def flow_addons_put valid_VISION_FLOW field_number_ok_def addons_default_def)

lemma write_prefix_eq:
  assumes "length user = 16"
  shows "write_prefix user c output
    = (VERSION # user @ 18 # flow_addons @ [as_byte c]) @ drop 37 output"
proof -
  have "write_prefix user c output =
      ((((((([VERSION] @ user) @ [18]) @ [0x0A]) @ [16]) @ VISION_FLOW) @ [as_byte c]) @ drop 37 output)"
    unfolding write_prefix_def comp_apply write_at_front
    using assms by (simp add: write_at_append drop_drop del: append_assoc append_Cons)
  then show ?thesis
    by (simp add: flow_addons_def)
qed

lemma vision_header_bytes:
  "header_bytes (vision_header user c d) = VERSION # user @ 18 # flow_addons @ as_byte c
     # (case d of None \<Rightarrow> [] | Some d \<Rightarrow> destination_bytes d)"
  by (simp add: header_bytes_def vision_header_def flow_addons_def)

lemma write_address_eq:
  assumes "length as = at"
  shows "write_address at a (as @ buf) = as @ address_bytes a @ drop (length (address_bytes a)) buf"
proof (cases a)
  case (DomainName d)
  have "write_address at a (as @ buf) =
      ((as @ [2]) @ [of_nat (length d)]) @ d @ drop (Suc (Suc (length d))) buf"
    using DomainName assms write_at_append [of "as @ [2]" "at + 1"]
      write_at_append [of "(as @ [2]) @ [of_nat (length d)]" "at + 2" d]
    by (simp add: write_address_def write_at_append drop_drop del: append_assoc append_Cons)
  then show ?thesis
    using DomainName by simp
next
  case (Ipv4 x)
  then show ?thesis
    using assms write_at_append [of "as @ [1]" "at + 1" "u32_be x"]
    by (simp add: write_address_def write_at_append drop_drop)
next
  case (Ipv6 x)
  then show ?thesis
    using assms write_at_append [of "as @ [3]" "at + 1" "u128_be x"]
    by (simp add: write_address_def write_at_append drop_drop)
qed

lemma address_len_Ok:
  "address_len a = Ok n \<longleftrightarrow> address_ok a \<and> n = length (address_bytes a)"
  by (cases a) (auto simp: address_len_def not_less)

lemma encode_vision_tcp_request_Ok:
  assumes "encode_vision_tcp_request user d output = (Ok n, output')" and "length user = 16"
  shows "dst_port d \<noteq> 0 \<and> n \<le> length output \<and> header_ok (vision_header user Tcp (Some d))
    \<and> n = length (header_bytes (vision_header user Tcp (Some d)))
    \<and> output' = header_bytes (vision_header user Tcp (Some d)) @ drop n output"
proof -
  let ?a = "address_bytes (dst_address d)"
  have ok: "dst_port d \<noteq> 0" "address_ok (dst_address d)" "n = 39 + length ?a" "n \<le> length output"
    "output' = write_address 39 (dst_address d) (write_at 37 (u16_be (dst_port d)) (write_prefix user Tcp output))"
    using assms(1)
    by (auto simp: encode_vision_tcp_request_def address_len_Ok Let_def not_less split: if_splits sum.splits)
  let ?p = "VERSION # user @ 18 # flow_addons @ [as_byte Tcp]"
  have len: "length ?p = 37"
    using assms(2) by (simp add: flow_addons_def)
  have "write_at 37 (u16_be (dst_port d)) (write_prefix user Tcp output)
      = (?p @ u16_be (dst_port d)) @ drop 39 output"
    unfolding write_prefix_eq [OF assms(2)] using write_at_append [OF len] by (simp add: drop_drop)
  moreover have "length (?p @ u16_be (dst_port d)) = 39"
    using len by simp
  ultimately have "output' = (?p @ u16_be (dst_port d)) @ ?a @ drop n output"
    using ok(3,5) write_address_eq [of "?p @ u16_be (dst_port d)" 39 "dst_address d" "drop 39 output"]
    by (simp add: drop_drop add.commute)
  moreover have "header_ok (vision_header user Tcp (Some d))"
    using ok(2) assms(2) by (simp add: header_ok_def vision_header_def flow_addons_def)
  ultimately show ?thesis
    using ok assms(2) by (simp add: vision_header_bytes destination_bytes_def flow_addons_def)
qed

lemma encode_vision_xudp_request_Ok:
  assumes "encode_vision_xudp_request user output = (Ok n, output')" and "length user = 16"
  shows "n \<le> length output \<and> header_ok (vision_header user Mux None)
    \<and> n = length (header_bytes (vision_header user Mux None))
    \<and> output' = header_bytes (vision_header user Mux None) @ drop n output"
  using assms
  by (auto simp: encode_vision_xudp_request_def Let_def write_prefix_eq header_bytes_def header_ok_def
      vision_header_def flow_addons_def split: if_splits)

section \<open>The response decoder over a growing buffer\<close>

fun response_incomplete :: "response_decode_error \<Rightarrow> bool" where
  "response_incomplete (Incomplete n) = True"
| "response_incomplete _ = False"

lemma decode_response_split:
  "decode_response input =
    (if input = [] then Err (Incomplete 1)
     else if hd input \<noteq> VERSION then Err (ResponseVersion (hd input))
     else if length input < 2 then Err (Incomplete 2)
     else if length input < 2 + unat (input ! 1) then Err (Incomplete (2 + unat (input ! 1)))
     else case parse (take (unat (input ! 1)) (drop 2 input)) of
       Inl e \<Rightarrow> Err (InvalidAddons e)
     | Inr addons \<Rightarrow> Ok (addons, drop (2 + unat (input ! 1)) input))"
  unfolding decode_response_def Let_def by (cases input; cases "tl input") (auto split: sum.split)

interpretation vless_response: bounded_decoder decode_response response_incomplete 257
proof
  fix bs x rest ext
  assume "decode_response bs = Ok (x, rest)"
  then have ok: "bs \<noteq> []" "hd bs = VERSION" "2 + unat (bs ! 1) \<le> length bs"
    "parse (take (unat (bs ! 1)) (drop 2 bs)) = Ok x" "rest = drop (2 + unat (bs ! 1)) bs"
    by (auto simp: decode_response_split not_less split: if_splits sum.splits)
  then show "decode_response (bs @ ext) = Ok (x, rest @ ext)"
    by (simp add: decode_response_split nth_append)
  show "\<exists>used. bs = used @ rest"
    using ok(5) by (metis append_take_drop_id)
  show "length bs \<le> length rest + 257"
    using ok(3,5) unat_byte_less [of "bs ! 1"] by (simp del: unat_byte_less)
next
  fix bs e ext
  assume "decode_response bs = Err e" and "\<not> response_incomplete e"
  then show "decode_response (bs @ ext) = Err e"
    by (auto simp: decode_response_split nth_append not_less split: if_splits sum.splits)
next
  fix bs :: bytes and e
  assume "257 \<le> length bs" and "decode_response bs = Err e"
  then show "\<not> response_incomplete e"
    using unat_byte_less [of "bs ! 1"]
    by (auto simp: decode_response_split simp del: unat_byte_less split: if_splits sum.splits)
qed

lemma response_roundtrip:
  assumes "rh_version h = VERSION" and "encode_response_header h bs = Ok response" and "parse bs = Ok a"
  shows "decode_response (response @ payload) = Ok (a, payload)"
  using assms by (auto simp: encode_response_header_def decode_response_split unat_of_nat_small split: if_splits)

end
