(* ===== verification/Vless_Read.thy ===== *)
theory Vless_Read
  imports Vless_Client
begin

text \<open>
  Reading a VLESS request off a connection: the plain reader of
  \<open>src/protocol/vless/read.rs\<close>, which reads a byte stream, and the production reader of
  \<open>src/server/vision/request.rs\<close>, which reads the application records of an authenticated TLS
  session and authorizes the request.  Allocation failure is not modelled.
\<close>

section \<open>The plain reader\<close>

text \<open>
  The stream is the list of segments its reads return; \<open>fails\<close> says whether it then ends in an
  I/O error instead of the end of the stream.
\<close>

datatype read_error =
  ReadIo | ReadDecode decode_error | UnexpectedEof decode_error | HeaderTooLarge nat

function read_request_from ::
  "bool \<Rightarrow> bytes \<Rightarrow> bytes list \<Rightarrow> (read_error + (request_header \<times> bytes)) \<times> bytes list"
where
  "read_request_from fails buffer segs =
    (case decode_request buffer of
       Inr (header, payload) \<Rightarrow> (Ok (header, payload), segs)
     | Inl e \<Rightarrow>
        if unexpected_end e then
          (if length buffer \<ge> MAX_REQUEST_HEADER_SIZE
           then (Err (HeaderTooLarge MAX_REQUEST_HEADER_SIZE), segs)
           else
             (let (chunk, segs') = read_some (MAX_REQUEST_HEADER_SIZE - length buffer) segs
              in if chunk = [] then (Err (if fails then ReadIo else UnexpectedEof e), segs')
                 else read_request_from fails (buffer @ chunk) segs'))
        else (Err (ReadDecode e), segs))"
  by pat_completeness auto
termination
proof (relation "measure (\<lambda>(fails, buffer, segs). MAX_REQUEST_HEADER_SIZE - length buffer)", goal_cases)
  case (2 fails buffer segs e p chunk segs')
  then show ?case
    by (cases chunk) auto
qed simp

declare read_request_from.simps [simp del]

definition read_request ::
  "bool \<Rightarrow> bytes list \<Rightarrow> (read_error + (request_header \<times> bytes)) \<times> bytes list"
where
  "read_request fails segs = read_request_from fails [] segs"

section \<open>The production reader\<close>

definition MAX_PLAINTEXT_LEN :: nat where "MAX_PLAINTEXT_LEN = 2 ^ 14"
definition MAX_REQUEST_BUFFER_SIZE :: nat where
  "MAX_REQUEST_BUFFER_SIZE = MAX_REQUEST_HEADER_SIZE + MAX_PLAINTEXT_LEN"

datatype accepted_vision_request =
    AcceptedTcp bytes destination bytes "nat \<times> nat"
  | AcceptedXudp bytes bytes "nat \<times> nat"

datatype vision_request_error =
    SessionDecode decode_error
  | SessionValidate request_validation_error
  | RequestTooLarge nat
  | SessionTimeout
  | SessionTls

text \<open>
  What the next \<open>read_application\<close> does: it returns a record, fails, or the operation deadline
  passes first.  After the last event nothing arrives any more and the deadline passes.
\<close>

datatype tls_event = Record bytes | TlsFailed | Elapsed

text \<open>The \<open>Ok(decoded)\<close> branch: authorization of a complete request.\<close>

definition accept_request ::
  "bytes \<Rightarrow> bytes \<Rightarrow> request_ref \<Rightarrow> bytes \<Rightarrow> vision_request_error + accepted_vision_request"
where
  "accept_request authenticated buffer decoded payload =
    (let prefetched = (length buffer - length payload, length buffer)
     in case rr_command decoded of
       Tcp \<Rightarrow>
         and_then (map_err SessionValidate
             (validate_authenticated_vision_fields (rr_user_id decoded) (rr_addons decoded)
               (rr_command decoded) (rr_destination decoded \<noteq> None) authenticated)) (\<lambda>_.
         and_then (ok_or (SessionValidate MissingDestination)
             (map_option into_owned (rr_destination decoded))) (\<lambda>d.
           Ok (AcceptedTcp (rr_user_id decoded) d buffer prefetched)))
     | Mux \<Rightarrow>
         and_then (map_err SessionDecode (decode_request buffer)) (\<lambda>(header, _).
         and_then (map_err SessionValidate
             (authorize_authenticated_vision_xudp header authenticated)) (\<lambda>_.
           Ok (AcceptedXudp (rr_user_id decoded) buffer prefetched)))
     | other \<Rightarrow> Err (SessionValidate (UnsupportedCommand other)))"

fun read_vision_request_from ::
  "bytes \<Rightarrow> bytes \<Rightarrow> tls_event list \<Rightarrow> vision_request_error + accepted_vision_request"
where
  "read_vision_request_from authenticated buffer events =
    (case decode_request_ref buffer of
       Inr (decoded, payload) \<Rightarrow> accept_request authenticated buffer decoded payload
     | Inl e \<Rightarrow>
        if \<not> unexpected_end e then Err (SessionDecode e)
        else if length buffer \<ge> MAX_REQUEST_HEADER_SIZE
        then Err (RequestTooLarge MAX_REQUEST_HEADER_SIZE)
        else (case events of
            [] \<Rightarrow> Err SessionTimeout
          | Elapsed # _ \<Rightarrow> Err SessionTimeout
          | TlsFailed # _ \<Rightarrow> Err SessionTls
          | Record rec # rest \<Rightarrow>
              if length buffer + length rec > MAX_REQUEST_BUFFER_SIZE
              then Err (RequestTooLarge MAX_REQUEST_BUFFER_SIZE)
              else read_vision_request_from authenticated (buffer @ rec) rest))"

declare read_vision_request_from.simps [simp del]

definition read_vision_request ::
  "bytes \<Rightarrow> tls_event list \<Rightarrow> vision_request_error + accepted_vision_request"
where
  "read_vision_request authenticated events = read_vision_request_from authenticated [] events"

section \<open>What the plain reader decides\<close>

lemma read_request_from_decides:
  assumes "[] \<notin> set segs"
  shows "case decode_request (buffer @ concat segs) of
      Inr (h, payload) \<Rightarrow>
        \<exists>pre rest. read_request_from fails buffer segs = (Ok (h, pre), rest) \<and> pre @ concat rest = payload
    | Inl e \<Rightarrow> fst (read_request_from fails buffer segs) =
        Err (if \<not> unexpected_end e then ReadDecode e else if fails then ReadIo else UnexpectedEof e)"
  using assms
proof (induction fails buffer segs rule: read_request_from.induct)
  case (1 fails buffer segs)
  show ?case
  proof (cases "decode_request buffer")
    case (Inr r)
    then obtain h p where "decode_request buffer = Ok (h, p)"
      by (cases r) auto
    then show ?thesis
      using vless_request.dec_more [of buffer h p "concat segs"]
      by (subst (1) read_request_from.simps) simp
  next
    case (Inl e)
    show ?thesis
    proof (cases "unexpected_end e")
      case False
      then show ?thesis
        using Inl vless_request.dec_final [OF Inl False, of "concat segs"]
        by (simp add: read_request_from.simps [of fails buffer segs])
    next
      case True
      have short: "length buffer < MAX_REQUEST_HEADER_SIZE"
        using vless_request.undecided_short [OF Inl True] .
      obtain chunk segs' where r: "read_some (MAX_REQUEST_HEADER_SIZE - length buffer) segs = (chunk, segs')"
        by fastforce
      have split: "chunk @ concat segs' = concat segs"
        using concat_read_some [of "MAX_REQUEST_HEADER_SIZE - length buffer" segs] r by simp
      have more: "chunk = [] \<longleftrightarrow> segs = []" "[] \<notin> set segs'"
        using read_some_nonempty [OF "1.prems", of "MAX_REQUEST_HEADER_SIZE - length buffer"] r short by auto
      show ?thesis
      proof (cases "chunk = []")
        case True
        then show ?thesis
          using Inl \<open>unexpected_end e\<close> short r more
          by (simp add: read_request_from.simps [of _ buffer "[]"])
      next
        case False
        have step: "read_request_from fails buffer segs = read_request_from fails (buffer @ chunk) segs'"
          using Inl \<open>unexpected_end e\<close> short r False
          by (simp add: read_request_from.simps [of fails buffer segs])
        show ?thesis
          using "1.IH" [OF Inl True _ r [symmetric] refl False more(2)] short
          unfolding step append_assoc split by simp
      qed
    qed
  qed
qed

section \<open>What the production reader decides\<close>

lemma read_vision_request_records:
  assumes "\<forall>r \<in> set recs. length r \<le> MAX_PLAINTEXT_LEN"
  shows "case decode_request_ref (buffer @ concat recs) of
      Inr (r, payload) \<Rightarrow> \<exists>k pre. k \<le> length recs
        \<and> read_vision_request_from auth buffer (map Record recs @ es)
            = accept_request auth (buffer @ concat (take k recs)) r pre
        \<and> decode_request_ref (buffer @ concat (take k recs)) = Ok (r, pre)
        \<and> pre @ concat (drop k recs) = payload
    | Inl e \<Rightarrow> read_vision_request_from auth buffer (map Record recs @ es) =
        (if unexpected_end e then read_vision_request_from auth (buffer @ concat recs) es
         else Err (SessionDecode e))"
  using assms
proof (induction recs arbitrary: buffer)
  case Nil
  show ?case
    by (auto simp: read_vision_request_from.simps [of auth buffer es] split: sum.split)
next
  case (Cons rec recs)
  show ?case
  proof (cases "decode_request_ref buffer")
    case (Inr r)
    then obtain h p where d: "decode_request_ref buffer = Ok (h, p)"
      by (cases r) auto
    then show ?thesis
      using vless_request_ref.dec_more [OF d, of "concat (rec # recs)"]
      by (auto simp: read_vision_request_from.simps [of auth buffer] intro!: exI [of _ "0 :: nat"])
  next
    case (Inl e)
    show ?thesis
    proof (cases "unexpected_end e")
      case False
      then show ?thesis
        using Inl vless_request_ref.dec_final [OF Inl False, of "concat (rec # recs)"]
        by (simp add: read_vision_request_from.simps [of auth buffer])
    next
      case True
      have short: "length buffer < MAX_REQUEST_HEADER_SIZE"
        using vless_request_ref.undecided_short [OF Inl True] .
      have step: "read_vision_request_from auth buffer (map Record (rec # recs) @ es)
          = read_vision_request_from auth (buffer @ rec) (map Record recs @ es)"
        using Inl True short Cons.prems
        by (subst read_vision_request_from.simps) (simp add: MAX_REQUEST_BUFFER_SIZE_def)
      show ?thesis
        using Cons.IH [of "buffer @ rec"] Cons.prems unfolding step
        by (auto split: sum.splits intro: exI [of _ "Suc k" for k])
    qed
  qed
qed

lemma vision_request_ref:
  assumes "header_ok (vision_header user c d)"
  obtains r where "owned_request r = vision_header user c d"
    "decode_request_ref (header_bytes (vision_header user c d) @ payload) = Ok (r, payload)"
proof -
  have "decode_request (header_bytes (vision_header user c d) @ payload) = Ok (vision_header user c d, payload)"
    using assms by (simp add: decode_request_Ok_iff)
  then show thesis
    using decode_request_ref_iff that unfolding decode_request_owned
    by (cases "decode_request_ref (header_bytes (vision_header user c d) @ payload)")
       (auto simp: map_decoded_def)
qed

lemma accept_vision_tcp:
  assumes "owned_request r = vision_header user Tcp (Some d)"
  shows "accept_request user buffer r pre
    = Ok (AcceptedTcp user d buffer (length buffer - length pre, length buffer))"
  using assms
  by (auto simp: accept_request_def owned_request_def vision_header_def validate_authenticated_vision_fields_def
      parse_flow_addons)

lemma accept_vision_xudp:
  assumes "owned_request r = vision_header user Mux None" and "decode_request buffer = Ok (owned_request r, pre)"
  shows "accept_request user buffer r pre
    = Ok (AcceptedXudp user buffer (length buffer - length pre, length buffer))"
  using assms
  by (auto simp: accept_request_def owned_request_def vision_header_def authorize_authenticated_vision_xudp_def
      parse_flow_addons)

text \<open>What a reader may take from a stream that starts with a client's request.\<close>

definition request_prefix :: "bytes list \<Rightarrow> nat \<Rightarrow> bytes \<Rightarrow> bytes \<Rightarrow> bool" where
  "request_prefix recs n payload buffer \<longleftrightarrow>
    (\<exists>k \<le> length recs. buffer = concat (take k recs) \<and> n \<le> length buffer
       \<and> drop n buffer @ concat (drop k recs) = payload)"

lemma vision_request_read:
  assumes ok: "header_ok (vision_header user c d)"
    and recs: "concat recs = header_bytes (vision_header user c d) @ payload"
    and size: "\<forall>r \<in> set recs. length r \<le> MAX_PLAINTEXT_LEN"
    and n: "n = length (header_bytes (vision_header user c d))"
  obtains r buffer where "owned_request r = vision_header user c d" and "request_prefix recs n payload buffer"
    and "decode_request buffer = Ok (owned_request r, drop n buffer)"
    and "read_vision_request auth (map Record recs @ es) = accept_request auth buffer r (drop n buffer)"
proof -
  obtain r where r: "owned_request r = vision_header user c d"
    "decode_request_ref (concat recs) = Ok (r, payload)"
    using vision_request_ref [OF ok, of payload] unfolding recs by blast
  then obtain k pre where k: "k \<le> length recs"
    "read_vision_request_from auth [] (map Record recs @ es) = accept_request auth (concat (take k recs)) r pre"
    "decode_request_ref (concat (take k recs)) = Ok (r, pre)" "pre @ concat (drop k recs) = payload"
    using read_vision_request_records [OF size, where buffer = "[]" and auth = auth and es = es] by auto
  have d: "decode_request (concat (take k recs)) = Ok (owned_request r, pre)"
    using k(3) by (simp add: decode_request_ref_iff)
  then have "concat (take k recs) = header_bytes (vision_header user c d) @ pre"
    using r(1) by (simp add: decode_request_Ok_iff)
  then have "pre = drop n (concat (take k recs))" "n \<le> length (concat (take k recs))"
    using n by simp_all
  then show thesis
    using that [OF r(1), of "concat (take k recs)"] k d
    unfolding request_prefix_def read_vision_request_def by blast
qed

text \<open>What an accepted request says of the decoded header, on both branches.\<close>

lemma accept_request_authorized:
  assumes "accept_request auth buffer r pre = Ok acc"
    and "decode_request buffer = Ok (owned_request r, pre)"
  shows "rh_user_id (owned_request r) = auth
    \<and> (\<exists>a. parse (rh_addons (owned_request r)) = Ok a \<and> flow a = Some VISION_FLOW)
    \<and> ((\<exists>d. rh_command (owned_request r) = Tcp \<and> rh_destination (owned_request r) = Some d
          \<and> acc = AcceptedTcp auth d buffer (length buffer - length pre, length buffer))
      \<or> rh_command (owned_request r) = Mux \<and> rh_destination (owned_request r) = None
          \<and> acc = AcceptedXudp auth buffer (length buffer - length pre, length buffer))"
  using assms
  by (cases "rr_command r")
     (auto simp: accept_request_def validate_authenticated_vision_fields_def authorize_authenticated_vision_xudp_def
        owned_request_def Let_def result_simps split: if_splits)

lemma read_vision_request_accepts:
  assumes "read_vision_request_from auth buffer events = Ok acc"
  shows "\<exists>buffer' r pre. decode_request_ref buffer' = Ok (r, pre) \<and> accept_request auth buffer' r pre = Ok acc"
  using assms
proof (induction auth buffer events rule: read_vision_request_from.induct)
  case (1 auth buffer events)
  show ?case
  proof (cases "decode_request_ref buffer")
    case (Inr r)
    then show ?thesis
      using "1.prems" by (cases r) (auto simp: read_vision_request_from.simps [of auth buffer])
  next
    case (Inl e)
    then obtain rec rest where more: "unexpected_end e" "length buffer < MAX_REQUEST_HEADER_SIZE"
      "events = Record rec # rest" "length buffer + length rec \<le> MAX_REQUEST_BUFFER_SIZE"
      "read_vision_request_from auth (buffer @ rec) rest = Ok acc"
      using "1.prems"
      by (auto simp: read_vision_request_from.simps [of auth buffer] not_le
          split: if_splits list.splits tls_event.splits)
    then show ?thesis
      using "1.IH" [OF Inl] by simp
  qed
qed

section \<open>Properties\<close>

text \<open>
  C31.  A client's request is understood end to end: whatever a client encodes for a user and
  destination, followed by any payload and cut into any records of at most 16384 bytes, the
  server's reader -- authenticated for that user -- accepts it as a TCP request for that user
  and destination, and the prefetched range together with the records it has not read is
  precisely the payload.
\<close>

theorem vision_request_end_to_end:
  assumes "length user = 16" and "encode_vision_tcp_request user d output = (Ok n, output')"
    and "concat recs = take n output' @ payload" and "\<forall>r \<in> set recs. length r \<le> MAX_PLAINTEXT_LEN"
  shows "\<exists>buffer. read_vision_request user (map Record recs @ es) = Ok (AcceptedTcp user d buffer (n, length buffer))
    \<and> request_prefix recs n payload buffer"
proof -
  note enc = encode_vision_tcp_request_Ok [OF assms(2,1)]
  then have "concat recs = header_bytes (vision_header user Tcp (Some d)) @ payload"
    using assms(3) by simp
  then obtain r buffer where b: "owned_request r = vision_header user Tcp (Some d)"
    "request_prefix recs n payload buffer"
    "read_vision_request user (map Record recs @ es) = accept_request user buffer r (drop n buffer)"
    using vision_request_read [OF _ _ assms(4)] enc by metis
  then show ?thesis
    using accept_vision_tcp [OF b(1)] by (auto simp: request_prefix_def)
qed

definition demo_destination :: destination where
  "demo_destination = \<lparr>dst_address = Ipv4 0x7F000001, dst_port = 443\<rparr>"

theorem vision_request_end_to_end_witness:
  "\<exists>out' buffer recs.
     encode_vision_tcp_request (replicate 16 5) demo_destination (replicate 64 0) = (Ok 44, out')
   \<and> recs = [take 30 out', drop 30 (take 44 out') @ [9, 9]]
   \<and> read_vision_request (replicate 16 5) (map Record recs @ [Elapsed])
       = Ok (AcceptedTcp (replicate 16 5) demo_destination buffer (44, length buffer))
   \<and> request_prefix recs 44 [9, 9] buffer"
proof -
  let ?u = "replicate 16 5 :: bytes"
  obtain out' where enc: "encode_vision_tcp_request ?u demo_destination (replicate 64 0) = (Ok 44, out')"
    by (simp add: encode_vision_tcp_request_def demo_destination_def address_len_def)
  have len: "length out' = 64"
    using encode_vision_tcp_request_Ok [OF enc] by simp
  let ?recs = "[take 30 out', drop 30 (take 44 out') @ [9, 9]]"
  have "concat ?recs = take 44 out' @ [9, 9]"
    using append_take_drop_id [of 30 "take 44 out'"] by (simp add: min_def)
  moreover have "\<forall>r \<in> set ?recs. length r \<le> MAX_PLAINTEXT_LEN"
    using len by (simp add: MAX_PLAINTEXT_LEN_def)
  ultimately show ?thesis
    using vision_request_end_to_end [OF _ enc, of ?recs "[9, 9]" "[Elapsed]"] enc by auto
qed

text \<open>
  C32.  Only authorized requests are accepted: whatever records arrive, an accepted request, TCP or
  XUDP, is a well-formed VLESS header that names the user REALITY authenticated and carries the
  Vision flow, followed by the prefetched bytes.  A TCP request carries the destination that is
  returned; an XUDP request is a multiplexed one without a destination.
\<close>

theorem vision_request_authorized:
  assumes "read_vision_request auth events = Ok accepted"
  shows "\<exists>h a buffer. header_ok h \<and> rh_user_id h = auth \<and> parse (rh_addons h) = Ok a \<and> flow a = Some VISION_FLOW
    \<and> buffer = header_bytes h @ drop (length (header_bytes h)) buffer
    \<and> (case accepted of
         AcceptedTcp u d b prefetched \<Rightarrow> u = auth \<and> rh_command h = Tcp \<and> rh_destination h = Some d
           \<and> b = buffer \<and> prefetched = (length (header_bytes h), length buffer)
       | AcceptedXudp u b prefetched \<Rightarrow> u = auth \<and> rh_command h = Mux \<and> rh_destination h = None
           \<and> b = buffer \<and> prefetched = (length (header_bytes h), length buffer))"
proof -
  obtain b r pre where r: "decode_request_ref b = Ok (r, pre)" "accept_request auth b r pre = Ok accepted"
    using read_vision_request_accepts assms unfolding read_vision_request_def by blast
  let ?h = "owned_request r"
  have d: "decode_request b = Ok (?h, pre)"
    using r(1) by (simp add: decode_request_ref_iff)
  then have dec: "header_ok ?h" "b = header_bytes ?h @ pre"
    by (simp_all add: decode_request_Ok_iff)
  have "drop (length (header_bytes ?h)) b = pre" "length b - length pre = length (header_bytes ?h)"
    using dec(2) by simp_all
  then show ?thesis
    using accept_request_authorized [OF r(2) d] dec by (intro exI [of _ ?h] exI [of _ b]) auto
qed

theorem vision_request_authorized_witness:
  "\<exists>buffer h a. read_vision_request (replicate 16 5) [Record (header_bytes (vision_header (replicate 16 5) Mux None))]
       = Ok (AcceptedXudp (replicate 16 5) buffer (length (header_bytes h), length buffer))
   \<and> rh_user_id h = replicate 16 5 \<and> parse (rh_addons h) = Ok a \<and> flow a = Some VISION_FLOW
   \<and> rh_command h = Mux \<and> rh_destination h = None"
proof -
  let ?u = "replicate 16 5 :: bytes"
  let ?h = "vision_header ?u Mux None"
  have ok: "header_ok ?h"
    by (simp add: header_ok_def vision_header_def flow_addons_def)
  have size: "\<forall>r \<in> set [header_bytes ?h]. length r \<le> MAX_PLAINTEXT_LEN"
    by (simp add: header_bytes_def vision_header_def flow_addons_def MAX_PLAINTEXT_LEN_def)
  have recs: "concat [header_bytes ?h] = header_bytes ?h @ []"
    by simp
  obtain r buffer where r: "owned_request r = ?h"
    "decode_request buffer = Ok (owned_request r, drop (length (header_bytes ?h)) buffer)"
    "read_vision_request ?u (map Record [header_bytes ?h] @ [])
      = accept_request ?u buffer r (drop (length (header_bytes ?h)) buffer)"
    using vision_request_read [OF ok recs size refl] by blast
  let ?e = "[Record (header_bytes ?h)]"
  have acc: "read_vision_request ?u ?e = Ok (AcceptedXudp ?u buffer
      (length buffer - length (drop (length (header_bytes ?h)) buffer), length buffer))"
    using accept_vision_xudp [OF r(1,2)] r(3) by simp
  from vision_request_authorized [OF this] show ?thesis
    unfolding acc by auto
qed

text \<open>
  C33.  The plain reader is independent of how the stream is cut: with any non-empty segments it
  returns the header the whole stream starts with, having lost no byte of the payload; the
  decoder's error if the stream is malformed; and the end of the stream or its I/O error if it
  is too short.  The limit on the header size is never what ends it.
\<close>

theorem read_request_exact:
  assumes "[] \<notin> set segs"
  shows "case decode_request (concat segs) of
      Inr (h, payload) \<Rightarrow> \<exists>pre rest. read_request fails segs = (Ok (h, pre), rest) \<and> pre @ concat rest = payload
    | Inl e \<Rightarrow> fst (read_request fails segs) =
        Err (if \<not> unexpected_end e then ReadDecode e else if fails then ReadIo else UnexpectedEof e)"
  using read_request_from_decides [OF assms, where buffer = "[]" and fails = fails]
  unfolding read_request_def append_Nil .

theorem read_request_exact_witness:
  "fst (read_request True [[0, 1], [2]]) = Err ReadIo \<and> fst (read_request False [[0], [1]]) \<noteq> Err ReadIo
   \<and> fst (read_request False [[7], [1]]) = Err (ReadDecode (UnsupportedVersion 7))"
proof -
  have "decode_request [0, 1, 2] = Err (UnexpectedEnd ''user ID'' 16 2)"
    "decode_request [0, 1] = Err (UnexpectedEnd ''user ID'' 16 1)"
    "decode_request [7, 1] = Err (UnsupportedVersion 7)"
    by (simp_all add: decode_request_def read_u8_def take_field_def cursor_take_def chain_def yield_def
        refuse_def VERSION_def)
  then show ?thesis
    using read_request_exact [of "[[0, 1], [2]]" True] read_request_exact [of "[[0], [1]]" False]
      read_request_exact [of "[[7], [1]]" False]
    by simp
qed

end
