(* ===== verification/Vision_Decode.thy ===== *)
theory Vision_Decode
  imports Vless_Client
begin

text \<open>
  The Vision padding decoder of \<open>src/protocol/vless/vision.rs\<close>.  The code strips padding blocks
  from fragments that may be cut at any byte, moving over each fragment in runs as long as the
  current field allows; the loop is a partial function, so that not returning is \<open>None\<close>.  The
  reference it is compared with looks at one byte at a time.  Failure to reserve output
  storage is not modelled.
\<close>

section \<open>State\<close>

definition VISION_FRAME_SIZE :: nat where "VISION_FRAME_SIZE = 8 * 1024"
definition UUID_SIZE :: nat where "UUID_SIZE = 16"
definition HEADER_SIZE :: nat where "HEADER_SIZE = 5"

lemmas vision_consts = VISION_FRAME_SIZE_def UUID_SIZE_def HEADER_SIZE_def

datatype vision_command = Continue | End | Direct

datatype vision_mode = Framed | Raw | DirectMode

datatype vision_decode_error =
  UserIdMismatch | VisionUnknownCommand byte | FrameTooLarge nat nat | DecoderFailed

definition vision_try_from :: "byte \<Rightarrow> vision_decode_error + vision_command" where
  "vision_try_from v =
    (if v = 0 then Ok Continue else if v = 1 then Ok End else if v = 2 then Ok Direct
     else Err (VisionUnknownCommand v))"

fun vision_command_byte :: "vision_command \<Rightarrow> byte" where
  "vision_command_byte Continue = 0"
| "vision_command_byte End = 1"
| "vision_command_byte Direct = 2"

record vision_decoder =
  vd_user_id :: bytes
  vd_first_frame :: bool
  uuid_read :: nat
  vd_header :: bytes
  header_read :: nat
  content_remaining :: nat
  padding_remaining :: nat
  vd_command :: "vision_command option"
  vd_mode :: vision_mode
  vd_failed :: bool

definition vision_decoder_new :: "bytes \<Rightarrow> vision_decoder" where
  "vision_decoder_new user = \<lparr>vd_user_id = user, vd_first_frame = True, uuid_read = 0,
     vd_header = replicate HEADER_SIZE 0, header_read = 0, content_remaining = 0,
     padding_remaining = 0, vd_command = None, vd_mode = Framed, vd_failed = False\<rparr>"

section \<open>Frames\<close>

definition start_frame :: "vision_decoder \<Rightarrow> vision_decode_error + vision_decoder" where
  "start_frame d =
    and_then (vision_try_from (vd_header d ! 0)) (\<lambda>command.
      let content_length = unat (be_u16 [vd_header d ! 1, vd_header d ! 2]);
          padding_length = unat (be_u16 [vd_header d ! 3, vd_header d ! 4]);
          prefix_length = HEADER_SIZE + (if vd_first_frame d then UUID_SIZE else 0)
      in if prefix_length + content_length + padding_length > VISION_FRAME_SIZE
         then Err (FrameTooLarge content_length padding_length)
         else Ok (d\<lparr>vd_command := Some command, content_remaining := content_length,
                    padding_remaining := padding_length\<rparr>))"

definition frame_complete :: "vision_decoder \<Rightarrow> bool" where
  "frame_complete d \<longleftrightarrow> header_read d = HEADER_SIZE \<and> content_remaining d = 0
     \<and> padding_remaining d = 0 \<and> vd_command d \<noteq> None"

fun mode_after :: "vision_command \<Rightarrow> vision_mode" where
  "mode_after Continue = Framed"
| "mode_after End = Raw"
| "mode_after Direct = DirectMode"

definition finish_frame :: "vision_decoder \<Rightarrow> vision_decoder" where
  "finish_frame d =
    (case vd_command d of
       None \<Rightarrow> d
     | Some command \<Rightarrow>
        d\<lparr>vd_command := None, vd_mode := mode_after command, vd_first_frame := False,
          header_read := 0, vd_header := replicate HEADER_SIZE 0\<rparr>)"

section \<open>Decoding a fragment\<close>

text \<open>The loop of \<open>decode_inner\<close>; the cursor is the unread rest of the fragment.\<close>

partial_function (option) decode_loop ::
  "vision_decoder \<Rightarrow> bytes \<Rightarrow> bytes \<Rightarrow> ((vision_decode_error + unit) \<times> vision_decoder \<times> bytes) option"
where
  "decode_loop d bs out =
    (if bs = [] then Some (Ok (), d, out)
     else if vd_first_frame d \<and> uuid_read d < UUID_SIZE then
       (let n = min (length bs) (UUID_SIZE - uuid_read d)
        in if take n bs \<noteq> take n (drop (uuid_read d) (vd_user_id d)) then Some (Err UserIdMismatch, d, out)
           else decode_loop (d\<lparr>uuid_read := uuid_read d + n\<rparr>) (drop n bs) out)
     else if header_read d < HEADER_SIZE then
       (let n = min (length bs) (HEADER_SIZE - header_read d);
            d' = d\<lparr>vd_header := write_at (header_read d) (take n bs) (vd_header d),
                   header_read := header_read d + n\<rparr>
        in if header_read d' = HEADER_SIZE
           then (case start_frame d' of
                   Inl e \<Rightarrow> Some (Err e, d', out)
                 | Inr d'' \<Rightarrow> decode_loop d'' (drop n bs) out)
           else decode_loop d' (drop n bs) out)
     else if content_remaining d > 0 then
       (let n = min (length bs) (content_remaining d)
        in decode_loop (d\<lparr>content_remaining := content_remaining d - n\<rparr>) (drop n bs) (out @ take n bs))
     else if padding_remaining d > 0 then
       (let n = min (length bs) (padding_remaining d)
        in decode_loop (d\<lparr>padding_remaining := padding_remaining d - n\<rparr>) (drop n bs) out)
     else
       (let d' = finish_frame d
        in if vd_mode d' \<noteq> Framed then Some (Ok (), d', out @ bs) else decode_loop d' bs out))"

definition decode_inner ::
  "vision_decoder \<Rightarrow> bytes \<Rightarrow> bytes
   \<Rightarrow> ((vision_decode_error + vision_mode) \<times> vision_decoder \<times> bytes) option"
where
  "decode_inner d input out =
    (if vd_mode d \<noteq> Framed then Some (Ok (vd_mode d), d, out @ input)
     else
       Option.bind (decode_loop d input out) (\<lambda>(r, d', out').
         case r of
           Inl e \<Rightarrow> Some (Err e, d', out')
         | Inr _ \<Rightarrow>
            (let d'' = (if frame_complete d' then finish_frame d' else d')
             in Some (Ok (vd_mode d''), d'', out'))))"

definition decode_append ::
  "vision_decoder \<Rightarrow> bytes \<Rightarrow> bytes
   \<Rightarrow> ((vision_decode_error + vision_mode) \<times> vision_decoder \<times> bytes) option"
where
  "decode_append d input out =
    (if vd_failed d then Some (Err DecoderFailed, d, out)
     else
       Option.bind (decode_inner d input out) (\<lambda>(r, d', out').
         Some (r, if is_ok r then d' else d'\<lparr>vd_failed := True\<rparr>, out')))"

definition vision_decode ::
  "vision_decoder \<Rightarrow> bytes \<Rightarrow> bytes
   \<Rightarrow> ((vision_decode_error + vision_mode) \<times> vision_decoder \<times> bytes) option"
where
  "vision_decode d input out = decode_append d input []"

text \<open>A payload is borrowed from the fragment once padding has ended.\<close>

datatype vision_payload = Borrowed bytes | Staged

definition decode_borrowed_append ::
  "vision_decoder \<Rightarrow> bytes \<Rightarrow> bytes
   \<Rightarrow> ((vision_decode_error + (vision_mode \<times> vision_payload)) \<times> vision_decoder \<times> bytes) option"
where
  "decode_borrowed_append d input out =
    (if \<not> vd_failed d \<and> vd_mode d \<noteq> Framed then Some (Ok (vd_mode d, Borrowed input), d, out)
     else
       Option.bind (decode_append d input out) (\<lambda>(r, d', out').
         Some (and_then r (\<lambda>mode. Ok (mode, Staged)), d', out')))"

definition decode_borrowed ::
  "vision_decoder \<Rightarrow> bytes \<Rightarrow> bytes
   \<Rightarrow> ((vision_decode_error + (vision_mode \<times> vision_payload)) \<times> vision_decoder \<times> bytes) option"
where
  "decode_borrowed d input out =
    (if \<not> vd_failed d \<and> vd_mode d \<noteq> Framed then Some (Ok (vd_mode d, Borrowed input), d, out)
     else
       Option.bind (vision_decode d input out) (\<lambda>(r, d', out').
         Some (and_then r (\<lambda>mode. Ok (mode, Staged)), d', out')))"

section \<open>The byte-at-a-time reference\<close>

definition settle :: "vision_decoder \<Rightarrow> vision_decoder" where
  "settle d = (if frame_complete d then finish_frame d else d)"

definition byte_step :: "vision_decoder \<Rightarrow> byte \<Rightarrow> vision_decode_error + (vision_decoder \<times> bytes)" where
  "byte_step d b =
    (if vd_mode d \<noteq> Framed then Ok (d, [b])
     else if vd_first_frame d \<and> uuid_read d < UUID_SIZE then
       (if b = vd_user_id d ! uuid_read d then Ok (d\<lparr>uuid_read := uuid_read d + 1\<rparr>, [])
        else Err UserIdMismatch)
     else if header_read d < HEADER_SIZE then
       (let d' = d\<lparr>vd_header := (vd_header d)[header_read d := b], header_read := header_read d + 1\<rparr>
        in if header_read d' = HEADER_SIZE then and_then (start_frame d') (\<lambda>d''. Ok (settle d'', []))
           else Ok (d', []))
     else if content_remaining d > 0 then
       Ok (settle (d\<lparr>content_remaining := content_remaining d - 1\<rparr>), [b])
     else Ok (settle (d\<lparr>padding_remaining := padding_remaining d - 1\<rparr>), []))"

fun run_bytes :: "vision_decoder \<Rightarrow> bytes \<Rightarrow> bytes \<Rightarrow> vision_decode_error + (vision_decoder \<times> bytes)" where
  "run_bytes d [] out = Ok (d, out)"
| "run_bytes d (b # bs) out =
    (case byte_step d b of Inl e \<Rightarrow> Err e | Inr (d', w) \<Rightarrow> run_bytes d' bs (out @ w))"

lemma run_bytes_append:
  "run_bytes d (xs @ ys) out =
    (case run_bytes d xs out of Inl e \<Rightarrow> Err e | Inr (d', out') \<Rightarrow> run_bytes d' ys out')"
  by (induction d xs out rule: run_bytes.induct) (auto split: sum.split)

lemma run_bytes_out:
  "run_bytes d bs out = map_sum id (map_prod id ((@) out)) (run_bytes d bs [])"
proof (induction bs arbitrary: d out)
  case (Cons b bs)
  show ?case
  proof (cases "byte_step d b")
    case (Inr r)
    obtain d' w where "r = (d', w)"
      by fastforce
    then show ?thesis
      using Inr Cons.IH [of d' "out @ w"] Cons.IH [of d' w]
      by (cases "run_bytes d' bs []") (auto simp: map_prod_def)
  qed simp
qed simp

text \<open>The invariant of the decoder, at every point of the loop.\<close>

definition uuid_pending :: "vision_decoder \<Rightarrow> bool" where
  "uuid_pending d \<longleftrightarrow> vd_first_frame d \<and> uuid_read d < UUID_SIZE"

definition decoder_ok :: "vision_decoder \<Rightarrow> bool" where
  "decoder_ok d \<longleftrightarrow> length (vd_user_id d) = 16 \<and> length (vd_header d) = 5
     \<and> header_read d \<le> 5 \<and> uuid_read d \<le> 16
     \<and> (header_read d = 5 \<longleftrightarrow> vd_command d \<noteq> None)
     \<and> (uuid_pending d \<longrightarrow> header_read d = 0)
     \<and> (vd_mode d \<noteq> Framed \<longrightarrow> vd_command d = None)"

lemmas byte_step_pending = byte_step_def [folded uuid_pending_def]
lemmas decode_loop_pending = decode_loop.simps [folded uuid_pending_def]

lemma decoder_ok_new: "length user = 16 \<Longrightarrow> decoder_ok (vision_decoder_new user)"
  by (simp add: decoder_ok_def vision_decoder_new_def vision_consts)

lemma settle_Framed [simp]: "\<not> frame_complete d \<Longrightarrow> settle d = d"
  by (simp add: settle_def)

lemma not_complete_finish [simp]: "\<not> frame_complete (finish_frame d)"
  by (auto simp: frame_complete_def finish_frame_def vision_consts split: option.split)

lemma settled_settle [simp]: "\<not> frame_complete (settle d)"
  by (simp add: settle_def)

lemma decoder_ok_finish: "decoder_ok d \<Longrightarrow> decoder_ok (finish_frame d)"
  by (auto simp: decoder_ok_def finish_frame_def vision_consts uuid_pending_def split: option.split)

lemma decoder_ok_settle: "decoder_ok d \<Longrightarrow> decoder_ok (settle d)"
  by (simp add: settle_def decoder_ok_finish)

lemma start_frame_Ok:
  assumes "start_frame d = Ok d'"
  obtains c k p where "d' = d\<lparr>vd_command := Some c, content_remaining := k, padding_remaining := p\<rparr>"
  using assms by (auto simp: start_frame_def Let_def result_simps split: if_splits)

section \<open>Runs of bytes\<close>

lemma run_unframed: "vd_mode d \<noteq> Framed \<Longrightarrow> run_bytes d bs out = Ok (d, out @ bs)"
  by (induction bs arbitrary: out) (simp_all add: byte_step_def)

lemma run_uuid:
  assumes "decoder_ok d" and "vd_mode d = Framed" and "vd_first_frame d" and "uuid_read d + length xs \<le> 16"
  shows "run_bytes d (xs @ bs) out =
    (if xs = take (length xs) (drop (uuid_read d) (vd_user_id d))
     then run_bytes (d\<lparr>uuid_read := uuid_read d + length xs\<rparr>) bs out else Err UserIdMismatch)"
  using assms
proof (induction xs arbitrary: d)
  case (Cons x xs)
  have user: "drop (uuid_read d) (vd_user_id d)
      = vd_user_id d ! uuid_read d # drop (Suc (uuid_read d)) (vd_user_id d)"
    using Cons.prems by (simp add: Cons_nth_drop_Suc decoder_ok_def)
  show ?case
  proof (cases "x = vd_user_id d ! uuid_read d")
    case True
    let ?d = "d\<lparr>uuid_read := uuid_read d + 1\<rparr>"
    have "byte_step d x = Ok (?d, [])"
      using Cons.prems True by (simp add: byte_step_def vision_consts)
    moreover have "decoder_ok ?d"
      using Cons.prems by (auto simp: decoder_ok_def uuid_pending_def vision_consts)
    ultimately show ?thesis
      using Cons.IH [of ?d] Cons.prems True user by simp
  next
    case False
    then have "byte_step d x = Err UserIdMismatch"
      using Cons.prems by (simp add: byte_step_def vision_consts)
    then show ?thesis
      using False user by simp
  qed
qed simp

lemma write_at_Cons:
  assumes "at + length (x # xs) \<le> length buf"
  shows "write_at at (x # xs) buf = write_at (Suc at) xs (buf[at := x])"
proof -
  have "take (Suc at) (buf[at := x]) = take at buf @ [x]"
    using assms by (simp add: take_Suc_conv_app_nth)
  then show ?thesis
    by (simp add: write_at_def)
qed

lemma write_at_Nil: "write_at at [] buf = buf"
  by (simp add: write_at_def)

lemma length_write_at: "at + length bs \<le> length buf \<Longrightarrow> length (write_at at bs buf) = length buf"
  by (simp add: write_at_def)

lemma run_header:
  assumes "decoder_ok d" and "vd_mode d = Framed" and "\<not> uuid_pending d"
    and "header_read d + length xs \<le> 5" and "xs \<noteq> []"
  shows "run_bytes d (xs @ bs) out =
    (let d' = d\<lparr>vd_header := write_at (header_read d) xs (vd_header d), header_read := header_read d + length xs\<rparr>
     in if header_read d' = 5
        then (case start_frame d' of Inl e \<Rightarrow> Err e | Inr d'' \<Rightarrow> run_bytes (settle d'') bs out)
        else run_bytes d' bs out)"
  using assms
proof (induction xs arbitrary: d)
  case (Cons x xs)
  let ?d = "d\<lparr>vd_header := (vd_header d)[header_read d := x], header_read := Suc (header_read d)\<rparr>"
  have hdr: "write_at (header_read d) (x # xs) (vd_header d)
      = write_at (Suc (header_read d)) xs ((vd_header d)[header_read d := x])"
    using Cons.prems by (intro write_at_Cons) (simp add: decoder_ok_def)
  have step: "byte_step d x = (if Suc (header_read d) = 5 then and_then (start_frame ?d) (\<lambda>d''. Ok (settle d'', []))
      else Ok (?d, []))"
    using Cons.prems by (simp add: byte_step_pending vision_consts)
  show ?case
  proof (cases "xs = []")
    case True
    then show ?thesis
      using step hdr by (cases "header_read d = 4"; cases "start_frame ?d") (simp_all add: write_at_Nil)
  next
    case False
    then have short: "Suc (header_read d) < 5"
      using Cons.prems(4) by (cases xs) simp_all
    moreover have "decoder_ok ?d" "\<not> uuid_pending ?d"
      using Cons.prems short by (auto simp: decoder_ok_def uuid_pending_def)
    ultimately show ?thesis
      using Cons.IH [of ?d] Cons.prems False step hdr by (simp add: Let_def)
  qed
qed simp

lemma run_content:
  assumes "vd_mode d = Framed" and "\<not> uuid_pending d" and "header_read d = 5"
    and "\<not> frame_complete d" and "length xs \<le> content_remaining d"
  shows "run_bytes d (xs @ bs) out
    = run_bytes (settle (d\<lparr>content_remaining := content_remaining d - length xs\<rparr>)) bs (out @ xs)"
  using assms
proof (induction xs arbitrary: d out)
  case (Cons x xs)
  let ?d = "d\<lparr>content_remaining := content_remaining d - 1\<rparr>"
  have step: "byte_step d x = Ok (settle ?d, [x])"
    using Cons.prems by (auto simp: byte_step_def uuid_pending_def vision_consts)
  show ?case
  proof (cases "xs = []")
    case False
    then have "\<not> frame_complete ?d"
      using Cons.prems(5) by (cases xs) (auto simp: frame_complete_def)
    then show ?thesis
      using step Cons.IH [of ?d "out @ [x]"] Cons.prems by (simp add: uuid_pending_def)
  qed (use step in simp)
qed simp

lemma run_padding:
  assumes "vd_mode d = Framed" and "\<not> uuid_pending d" and "header_read d = 5" and "content_remaining d = 0"
    and "\<not> frame_complete d" and "length xs \<le> padding_remaining d"
  shows "run_bytes d (xs @ bs) out
    = run_bytes (settle (d\<lparr>padding_remaining := padding_remaining d - length xs\<rparr>)) bs out"
  using assms
proof (induction xs arbitrary: d)
  case (Cons x xs)
  let ?d = "d\<lparr>padding_remaining := padding_remaining d - 1\<rparr>"
  have step: "byte_step d x = Ok (settle ?d, [])"
    using Cons.prems by (auto simp: byte_step_def uuid_pending_def vision_consts)
  show ?case
  proof (cases "xs = []")
    case False
    then have "\<not> frame_complete ?d"
      using Cons.prems(6) by (cases xs) (auto simp: frame_complete_def)
    then show ?thesis
      using step Cons.IH [of ?d] Cons.prems by (simp add: uuid_pending_def)
  qed (use step in simp)
qed simp

section \<open>The loop refines the reference\<close>

definition loop_agrees ::
  "((vision_decode_error + unit) \<times> vision_decoder \<times> bytes) option
   \<Rightarrow> vision_decode_error + (vision_decoder \<times> bytes) \<Rightarrow> bool"
where
  "loop_agrees l r \<longleftrightarrow> (\<exists>v d out. l = Some (v, d, out)
     \<and> (case r of Inl e \<Rightarrow> v = Err e | Inr (d', out') \<Rightarrow> v = Ok () \<and> settle d = d' \<and> out = out'))"

abbreviation refines :: "vision_decoder \<Rightarrow> bytes \<Rightarrow> bytes \<Rightarrow> bool" where
  "refines d bs out \<equiv> loop_agrees (decode_loop d bs out) (run_bytes (settle d) bs out)"

text \<open>The laws of one iteration; \<open>IH\<close> is the rest of the loop.\<close>

lemma loop_uuid:
  assumes ok: "decoder_ok d" "vd_mode d = Framed" and pend: "uuid_pending d" and bs: "bs \<noteq> []"
    and IH: "\<And>d' bs' out'. decoder_ok d' \<Longrightarrow> vd_mode d' = Framed \<Longrightarrow> length bs' < length bs \<Longrightarrow> refines d' bs' out'"
  shows "refines d bs out"
proof -
  let ?n = "min (length bs) (16 - uuid_read d)"
  let ?d = "d\<lparr>uuid_read := uuid_read d + ?n\<rparr>"
  have n: "0 < ?n" "uuid_read d + ?n \<le> 16"
    using pend bs by (auto simp: uuid_pending_def vision_consts)
  have settled: "\<not> frame_complete d" "\<not> frame_complete ?d"
    using ok pend by (auto simp: frame_complete_def decoder_ok_def vision_consts)
  have run: "run_bytes (settle d) bs out = (if take ?n bs = take ?n (drop (uuid_read d) (vd_user_id d))
      then run_bytes ?d (drop ?n bs) out else Err UserIdMismatch)"
    using run_uuid [of d "take ?n bs" "drop ?n bs" out] ok pend n settled
    unfolding length_take min.absorb2 [OF min.cobounded1] append_take_drop_id by (simp add: uuid_pending_def)
  have loop: "decode_loop d bs out = (if take ?n bs \<noteq> take ?n (drop (uuid_read d) (vd_user_id d))
      then Some (Err UserIdMismatch, d, out) else decode_loop ?d (drop ?n bs) out)"
    using pend bs by (subst decode_loop_pending) (simp add: vision_consts Let_def)
  have "refines ?d (drop ?n bs) out"
    using ok n pend bs by (intro IH) (auto simp: decoder_ok_def uuid_pending_def vision_consts)
  then show ?thesis
    unfolding run loop using settled by (simp add: loop_agrees_def)
qed

lemma loop_header:
  assumes ok: "decoder_ok d" "vd_mode d = Framed" and pend: "\<not> uuid_pending d" "header_read d < 5" and bs: "bs \<noteq> []"
    and IH: "\<And>d' bs' out'. decoder_ok d' \<Longrightarrow> vd_mode d' = Framed \<Longrightarrow> length bs' < length bs \<Longrightarrow> refines d' bs' out'"
  shows "refines d bs out"
proof -
  let ?n = "min (length bs) (5 - header_read d)"
  let ?d = "d\<lparr>vd_header := write_at (header_read d) (take ?n bs) (vd_header d), header_read := header_read d + ?n\<rparr>"
  have n: "0 < ?n" "header_read d + ?n \<le> 5" "take ?n bs \<noteq> []"
    using pend bs by auto
  have len: "length (vd_header ?d) = 5"
    using ok n(2) by (simp add: decoder_ok_def length_write_at)
  have settled: "\<not> frame_complete d"
    using pend by (simp add: frame_complete_def vision_consts)
  have run: "run_bytes (settle d) bs out = (if header_read ?d = 5
      then (case start_frame ?d of Inl e \<Rightarrow> Err e | Inr d'' \<Rightarrow> run_bytes (settle d'') (drop ?n bs) out)
      else run_bytes ?d (drop ?n bs) out)"
    using run_header [of d "take ?n bs" "drop ?n bs" out] ok pend n settled by (simp add: Let_def)
  have loop: "decode_loop d bs out = (if header_read ?d = 5
      then (case start_frame ?d of Inl e \<Rightarrow> Some (Err e, ?d, out) | Inr d'' \<Rightarrow> decode_loop d'' (drop ?n bs) out)
      else decode_loop ?d (drop ?n bs) out)"
    using pend bs by (subst decode_loop_pending) (simp add: vision_consts Let_def)
  show ?thesis
  proof (cases "header_read ?d = 5")
    case True
    have "refines d'' (drop ?n bs) out" if "start_frame ?d = Ok d''" for d''
      using that
      by (rule start_frame_Ok)
         (use ok pend n True len bs in \<open>auto simp: decoder_ok_def uuid_pending_def intro!: IH\<close>)
    then show ?thesis
      unfolding run loop using True by (cases "start_frame ?d") (auto simp: loop_agrees_def)
  next
    case False
    have "refines ?d (drop ?n bs) out"
      using ok pend n False len bs by (intro IH) (auto simp: decoder_ok_def uuid_pending_def)
    moreover have "\<not> frame_complete ?d"
      using False by (simp add: frame_complete_def vision_consts)
    ultimately show ?thesis
      unfolding run loop using False by simp
  qed
qed

lemma loop_body:
  assumes ok: "decoder_ok d" "vd_mode d = Framed" and pend: "\<not> uuid_pending d" "header_read d = 5"
    and open_frame: "\<not> frame_complete d" and bs: "bs \<noteq> []"
    and IH: "\<And>d' bs' out'. decoder_ok d' \<Longrightarrow> vd_mode d' = Framed \<Longrightarrow> length bs' < length bs \<Longrightarrow> refines d' bs' out'"
  shows "refines d bs out"
proof (cases "content_remaining d = 0")
  case False
  let ?n = "min (length bs) (content_remaining d)"
  let ?d = "d\<lparr>content_remaining := content_remaining d - ?n\<rparr>"
  have run: "run_bytes (settle d) bs out = run_bytes (settle ?d) (drop ?n bs) (out @ take ?n bs)"
    using run_content [of d "take ?n bs" "drop ?n bs" out] ok pend open_frame by simp
  have loop: "decode_loop d bs out = decode_loop ?d (drop ?n bs) (out @ take ?n bs)"
    using pend bs False
    by (subst decode_loop_pending) (simp add: vision_consts Let_def)
  have "refines ?d (drop ?n bs) (out @ take ?n bs)"
    using ok pend False bs by (intro IH) (auto simp: decoder_ok_def uuid_pending_def)
  then show ?thesis
    unfolding run loop .
next
  case True
  let ?n = "min (length bs) (padding_remaining d)"
  let ?d = "d\<lparr>padding_remaining := padding_remaining d - ?n\<rparr>"
  have pad: "0 < padding_remaining d"
    using open_frame pend ok True by (auto simp: frame_complete_def decoder_ok_def vision_consts)
  have run: "run_bytes (settle d) bs out = run_bytes (settle ?d) (drop ?n bs) out"
    using run_padding [of d "take ?n bs" "drop ?n bs" out] ok pend open_frame True by simp
  have loop: "decode_loop d bs out = decode_loop ?d (drop ?n bs) out"
    using pend bs True pad
    by (subst decode_loop_pending) (simp add: vision_consts Let_def)
  have "refines ?d (drop ?n bs) out"
    using ok pend pad bs by (intro IH) (auto simp: decoder_ok_def uuid_pending_def)
  then show ?thesis
    unfolding run loop .
qed

lemma loop_complete:
  assumes "decoder_ok d" and "frame_complete d" and "bs \<noteq> []"
    and "vd_mode (finish_frame d) = Framed \<Longrightarrow> refines (finish_frame d) bs out"
  shows "refines d bs out"
proof -
  have pend: "\<not> uuid_pending d" "header_read d = 5" "content_remaining d = 0" "padding_remaining d = 0"
    using assms(1,2) by (auto simp: decoder_ok_def frame_complete_def vision_consts)
  have "decode_loop d bs out =
      (if vd_mode (finish_frame d) \<noteq> Framed then Some (Ok (), finish_frame d, out @ bs)
       else decode_loop (finish_frame d) bs out)"
    using pend assms(3)
    by (subst decode_loop_pending) (simp add: vision_consts Let_def)
  then show ?thesis
    using assms(2,4) run_unframed [of "finish_frame d" bs out]
    by (auto simp: loop_agrees_def settle_def)
qed

lemma decode_loop_refines:
  assumes "decoder_ok d" and "vd_mode d = Framed"
  shows "refines d bs out"
  using assms
proof (induction "length bs" arbitrary: d bs out rule: less_induct)
  case less
  note IH = less.hyps
  have settled: "refines d bs out" if "decoder_ok d" "vd_mode d = Framed" "\<not> frame_complete d" "bs \<noteq> []" for d
  proof (cases "uuid_pending d \<or> header_read d < 5")
    case True
    then show ?thesis
      using loop_uuid [OF that(1,2) _ that(4) IH] loop_header [OF that(1,2) _ _ that(4) IH] by blast
  next
    case False
    moreover have "header_read d \<le> 5"
      using that(1) by (simp add: decoder_ok_def)
    ultimately have "header_read d = 5"
      by simp
    then show ?thesis
      using False loop_body [OF that(1,2) _ _ that(3,4) IH] by blast
  qed
  show ?case
  proof (cases "bs = []")
    case True
    then show ?thesis
      by (simp add: loop_agrees_def decode_loop.simps [of _ "[]"])
  next
    case False
    show ?thesis
    proof (cases "frame_complete d")
      case True
      then show ?thesis
        using loop_complete [OF less.prems(1) True False] settled decoder_ok_finish [OF less.prems(1)] False
        by (metis not_complete_finish)
    qed (use settled less.prems False in blast)
  qed
qed

section \<open>Whole fragments\<close>

definition vision_decoder_ok :: "vision_decoder \<Rightarrow> bool" where
  "vision_decoder_ok d \<longleftrightarrow> decoder_ok d \<and> \<not> frame_complete d \<and> \<not> vd_failed d"

lemma vision_decoder_ok_new: "length user = 16 \<Longrightarrow> vision_decoder_ok (vision_decoder_new user)"
  by (simp add: vision_decoder_ok_def decoder_ok_new) (simp add: vision_decoder_new_def frame_complete_def)

lemma byte_step_failed: "byte_step d b = Ok (d', w) \<Longrightarrow> vd_failed d' = vd_failed d"
  by (auto simp: byte_step_def settle_def finish_frame_def Let_def result_simps split: if_splits option.splits
      elim!: start_frame_Ok)

lemma byte_step_ok:
  assumes step: "byte_step d b = Ok (d', w)" and ok: "decoder_ok d" and "\<not> frame_complete d"
  shows "decoder_ok d' \<and> \<not> frame_complete d'"
proof -
  note simps = byte_step_pending decoder_ok_def uuid_pending_def frame_complete_def vision_consts
  consider "vd_mode d \<noteq> Framed" | "vd_mode d = Framed" "uuid_pending d"
    | "vd_mode d = Framed" "\<not> uuid_pending d" "header_read d < 5"
    | "vd_mode d = Framed" "\<not> uuid_pending d" "header_read d = 5"
    using ok by (auto simp: decoder_ok_def nat_less_le)
  then show ?thesis
  proof cases
    case 3
    let ?d = "d\<lparr>vd_header := (vd_header d)[header_read d := b], header_read := Suc (header_read d)\<rparr>"
    show ?thesis
    proof (cases "Suc (header_read d) = 5")
      case True
      then obtain d'' where d: "start_frame ?d = Ok d''" "d' = settle d''"
        using step 3 by (auto simp: byte_step_pending vision_consts result_simps)
      have "decoder_ok d''"
        using d(1) by (rule start_frame_Ok) (use 3 ok True in \<open>auto simp: decoder_ok_def uuid_pending_def\<close>)
      then show ?thesis
        unfolding d(2) by (simp add: decoder_ok_settle)
    qed (use step 3 ok in \<open>auto simp: simps\<close>)
  next
    case 4
    then have "d' = settle (d\<lparr>content_remaining := content_remaining d - 1\<rparr>)
        \<or> d' = settle (d\<lparr>padding_remaining := padding_remaining d - 1\<rparr>)"
      using step by (auto simp: byte_step_pending vision_consts split: if_splits)
    moreover have "decoder_ok (d\<lparr>content_remaining := k\<rparr>)" "decoder_ok (d\<lparr>padding_remaining := k\<rparr>)" for k
      using ok by (auto simp: decoder_ok_def uuid_pending_def)
    ultimately show ?thesis
      using decoder_ok_settle by auto
  qed (use assms in \<open>auto simp: simps split: if_splits\<close>)
qed

lemma run_bytes_ok:
  assumes "run_bytes d bs out = Ok (d', out')" and "vision_decoder_ok d"
  shows "vision_decoder_ok d'"
  using assms
proof (induction d bs out rule: run_bytes.induct)
  case (2 d b bs out)
  then obtain d1 w where "byte_step d b = Ok (d1, w)" "run_bytes d1 bs (out @ w) = Ok (d', out')"
    by (auto split: sum.splits)
  then show ?case
    using 2 byte_step_ok byte_step_failed unfolding vision_decoder_ok_def by fastforce
qed simp

lemma decode_append_run:
  assumes "vision_decoder_ok d"
  shows "\<exists>r d' out'. decode_append d bs out = Some (r, d', out')
    \<and> (case run_bytes d bs out of
          Inl e \<Rightarrow> r = Err e \<and> vd_failed d'
        | Inr (d2, out2) \<Rightarrow> r = Ok (vd_mode d2) \<and> d' = d2 \<and> out' = out2)"
proof (cases "vd_mode d = Framed")
  case False
  then show ?thesis
    using assms by (simp add: decode_append_def decode_inner_def vision_decoder_ok_def run_unframed)
next
  case True
  have "loop_agrees (decode_loop d bs out) (run_bytes d bs out)"
    using decode_loop_refines [of d bs out] assms True by (simp add: vision_decoder_ok_def)
  then show ?thesis
    using assms True unfolding decode_append_def decode_inner_def vision_decoder_ok_def loop_agrees_def settle_def Let_def
    by (cases "run_bytes d bs out") fastforce+
qed

text \<open>Feeding the fragments of a stream to a decoder, appending their payloads.\<close>

fun decode_fragments ::
  "vision_decoder \<Rightarrow> bytes list \<Rightarrow> bytes
   \<Rightarrow> ((vision_decode_error + vision_mode) \<times> vision_decoder \<times> bytes) option"
where
  "decode_fragments d [] out = Some (Ok (vd_mode d), d, out)"
| "decode_fragments d (frag # frags) out =
    Option.bind (decode_append d frag out) (\<lambda>(r, d', out').
      if is_ok r then decode_fragments d' frags out' else Some (r, d', out'))"

lemma decode_fragments_run:
  assumes "vision_decoder_ok d"
  shows "\<exists>r d' out'. decode_fragments d frags out = Some (r, d', out')
    \<and> (case run_bytes d (concat frags) out of
          Inl e \<Rightarrow> r = Err e \<and> vd_failed d'
        | Inr (d2, out2) \<Rightarrow> r = Ok (vd_mode d2) \<and> d' = d2 \<and> out' = out2)"
  using assms
proof (induction frags arbitrary: d out)
  case (Cons frag frags)
  obtain r d1 out1 where s: "decode_append d frag out = Some (r, d1, out1)"
    "case run_bytes d frag out of Inl e \<Rightarrow> r = Err e \<and> vd_failed d1
      | Inr (d2, out2) \<Rightarrow> r = Ok (vd_mode d2) \<and> d1 = d2 \<and> out1 = out2"
    using decode_append_run [OF Cons.prems] by blast
  show ?case
  proof (cases "run_bytes d frag out")
    case (Inl e)
    then show ?thesis
      using s by (simp add: run_bytes_append)
  next
    case (Inr v)
    then have "v = (d1, out1)" "r = Ok (vd_mode d1)"
      using s(2) by auto
    then show ?thesis
      using s(1) Inr Cons.IH [OF run_bytes_ok [of d frag out d1 out1]] Cons.prems
      by (simp add: run_bytes_append)
  qed
qed simp

section \<open>Properties\<close>

text \<open>
  C34.  The decoder refines the byte-at-a-time reference: fed any fragments of a stream, it
  always returns, and its outcome is that of the reference on their concatenation -- the same
  error, or the same mode, payload and state -- however the stream was cut.
\<close>

theorem vision_decode_refines_bytes:
  assumes "length user = 16"
  shows "\<exists>r d out. decode_fragments (vision_decoder_new user) frags [] = Some (r, d, out)
    \<and> (case run_bytes (vision_decoder_new user) (concat frags) [] of
          Inl e \<Rightarrow> r = Err e \<and> vd_failed d
        | Inr (d', payload) \<Rightarrow> r = Ok (vd_mode d') \<and> d = d' \<and> out = payload)"
  using assms by (intro decode_fragments_run vision_decoder_ok_new)

definition demo_frame :: bytes where
  "demo_frame = replicate 16 7 @ [1, 0, 2, 0, 1, 65, 66, 0] @ [67]"

theorem vision_decode_refines_bytes_witness:
  "\<exists>d. decode_fragments (vision_decoder_new (replicate 16 7)) [take 18 demo_frame, drop 18 demo_frame] []
     = Some (Ok Raw, d, [65, 66, 67])"
proof -
  have len: "length (replicate 16 (7 :: byte)) = 16"
    by simp
  have "concat [take 18 demo_frame, drop 18 demo_frame] = demo_frame"
    by simp
  moreover have "case run_bytes (vision_decoder_new (replicate 16 7)) demo_frame [] of
      Inl _ \<Rightarrow> False | Inr (d, out) \<Rightarrow> out = [65, 66, 67] \<and> vd_mode d = Raw"
    by code_simp
  ultimately show ?thesis
    using vision_decode_refines_bytes [OF len, of "[take 18 demo_frame, drop 18 demo_frame]"]
    by (auto split: sum.splits)
qed

end
