(* ===== verification/Vision_Padding.thy ===== *)
theory Vision_Padding
  imports Prelude
begin

text \<open>
  The padding-length generator of \<open>src/protocol/vless/padding.rs\<close>.  The ChaCha12 keystream is a
  parameter: \<open>ks seed i\<close> is the \<open>i\<close>-th refill of 256 bytes under a seed; the results the
  operating system's entropy source will give are part of the state.  Native integers are
  little-endian.  Rejection sampling may not end, so \<open>below\<close> is a partial function.
\<close>

section \<open>The generator\<close>

definition BLOCK_BYTES :: nat where "BLOCK_BYTES = 256"
definition RESEED_AFTER_BYTES :: nat where "RESEED_AFTER_BYTES = 2 ^ 20"

datatype entropy_error = EntropyUnavailable

type_synonym keystream = "bytes \<Rightarrow> nat \<Rightarrow> bytes"

record padding_rng =
  rng_seed :: bytes
  rng_block :: nat
  rng_buffer :: bytes
  rng_position :: nat
  rng_issued :: nat
  rng_os :: "bytes option list"

definition from_seed :: "keystream \<Rightarrow> bytes \<Rightarrow> bytes option list \<Rightarrow> padding_rng" where
  "from_seed ks seed os = \<lparr>rng_seed = seed, rng_block = 1, rng_buffer = ks seed 0, rng_position = 0,
     rng_issued = BLOCK_BYTES, rng_os = os\<rparr>"

definition from_os :: "keystream \<Rightarrow> bytes option list \<Rightarrow> (entropy_error + padding_rng) \<times> bytes option list" where
  "from_os ks os =
    (case os of
       Some seed # os' \<Rightarrow> (Ok (from_seed ks seed os'), os')
     | None # os' \<Rightarrow> (Err EntropyUnavailable, os')
     | [] \<Rightarrow> (Err EntropyUnavailable, []))"

definition refill :: "keystream \<Rightarrow> padding_rng \<Rightarrow> (entropy_error + unit) \<times> padding_rng" where
  "refill ks r =
    (if rng_issued r \<ge> RESEED_AFTER_BYTES then
       (case from_os ks (rng_os r) of
          (Inr r', _) \<Rightarrow> (Ok (), r')
        | (Inl e, os') \<Rightarrow> (Err e, r\<lparr>rng_os := os'\<rparr>))
     else
       (Ok (), r\<lparr>rng_buffer := ks (rng_seed r) (rng_block r), rng_block := rng_block r + 1,
                 rng_position := 0, rng_issued := min (2 ^ 64 - 1) (rng_issued r + BLOCK_BYTES)\<rparr>))"

definition next_four :: "keystream \<Rightarrow> padding_rng \<Rightarrow> (entropy_error + bytes) \<times> padding_rng" where
  "next_four ks r =
    (let (ready, r') = (if rng_position r + 4 > BLOCK_BYTES then refill ks r else (Ok (), r))
     in case ready of
          Inl e \<Rightarrow> (Err e, r')
        | Inr _ \<Rightarrow>
           if rng_position r' + 4 > length (rng_buffer r') then (Err EntropyUnavailable, r')
           else (Ok (take 4 (drop (rng_position r') (rng_buffer r'))),
                 r'\<lparr>rng_position := rng_position r' + 4\<rparr>))"

definition from_ne_bytes :: "bytes \<Rightarrow> u32" where
  "from_ne_bytes bs = be_u32 (rev bs)"

definition acceptance_limit :: "u32 \<Rightarrow> u32" where
  "acceptance_limit upper = - 1 - (- 1) mod upper"

partial_function (option) below_loop ::
  "keystream \<Rightarrow> u32 \<Rightarrow> padding_rng \<Rightarrow> ((entropy_error + u32) \<times> padding_rng) option"
where
  "below_loop ks upper r =
    (case next_four ks r of
       (Inl e, r') \<Rightarrow> Some (Err e, r')
     | (Inr bs, r') \<Rightarrow>
        if from_ne_bytes bs < acceptance_limit upper
        then Some (Ok (from_ne_bytes bs mod upper), r')
        else below_loop ks upper r')"

definition below :: "keystream \<Rightarrow> u32 \<Rightarrow> padding_rng \<Rightarrow> ((entropy_error + u32) \<times> padding_rng) option" where
  "below ks upper r = (if upper = 0 then Some (Ok 0, r) else below_loop ks upper r)"

section \<open>Correctness\<close>

definition rng_ok :: "padding_rng \<Rightarrow> bool" where
  "rng_ok r \<longleftrightarrow> length (rng_buffer r) = 256 \<and> rng_position r \<le> 256"

lemma next_four_ok:
  assumes "\<And>seed i. length (ks seed i) = 256" and "rng_ok r"
  shows "rng_ok (snd (next_four ks r))"
  using assms
  by (auto simp: next_four_def refill_def from_os_def from_seed_def rng_ok_def BLOCK_BYTES_def Let_def
      split: sum.split list.split option.split)

lemma next_four_length: "next_four ks r = (Ok bs, r') \<Longrightarrow> length bs = 4"
  by (auto simp: next_four_def Let_def split: prod.splits sum.splits if_splits)

text \<open>The limit is a multiple of the range, so every residue has the same number of preimages.\<close>

lemma acceptance_limit_multiple:
  assumes "0 < upper"
  shows "unat (acceptance_limit upper) = (2 ^ 32 - 1) div unat upper * unat upper"
proof -
  have max: "unat (- 1 :: u32) = 2 ^ 32 - 1"
    by (simp add: unsigned_minus_1_eq_mask mask_eq_exp_minus_1)
  have "unat ((- 1) mod upper) = (2 ^ 32 - 1) mod unat upper"
    by (simp add: unat_mod_distrib max)
  moreover have "(- 1) mod upper \<le> - 1"
    by simp
  ultimately have "unat (acceptance_limit upper) = (2 ^ 32 - 1) - (2 ^ 32 - 1) mod unat upper"
    unfolding acceptance_limit_def by (simp add: unat_sub max)
  then show ?thesis
    by (metis minus_mod_eq_div_mult)
qed

lemma card_residues:
  assumes "k < u"
  shows "card {v. v < q * u \<and> v mod u = k} = (q :: nat)"
proof -
  have "{v. v < q * u \<and> v mod u = k} = (\<lambda>i. i * u + k) ` {..<q}"
  proof (intro equalityI subsetI)
    fix v assume "v \<in> {v. v < q * u \<and> v mod u = k}"
    then have "v = v div u * u + k" "v div u < q"
      using assms div_mult_mod_eq [of v u] by (auto simp: less_mult_imp_div_less)
    then show "v \<in> (\<lambda>i. i * u + k) ` {..<q}"
      by blast
  next
    fix v assume "v \<in> (\<lambda>i. i * u + k) ` {..<q}"
    then obtain i where i: "v = i * u + k" "i < q"
      by blast
    have "i * u + k < Suc i * u"
      using assms by simp
    also have "\<dots> \<le> q * u"
      using i(2) by (intro mult_le_mono1) simp
    finally show "v \<in> {v. v < q * u \<and> v mod u = k}"
      using i assms by simp
  qed
  moreover have "inj_on (\<lambda>i. i * u + k) {..<q}"
    using assms by (auto simp: inj_on_def)
  ultimately show ?thesis
    by (simp add: card_image)
qed

lemma card_accepted:
  assumes "k < upper"
  shows "card {w. w < acceptance_limit upper \<and> w mod upper = k} = (2 ^ 32 - 1) div unat upper"
proof -
  let ?q = "(2 ^ 32 - 1) div unat upper"
  have pos: "0 < upper"
    using assms by (rule le_less_trans [OF word_zero_le])
  note limit = acceptance_limit_multiple [OF pos]
  have k: "unat k < unat upper"
    using assms by (simp add: word_less_nat_alt)
  have "unat ` {w. w < acceptance_limit upper \<and> w mod upper = k} = {v. v < ?q * unat upper \<and> v mod unat upper = unat k}"
  proof (intro equalityI subsetI)
    fix v assume v: "v \<in> {v. v < ?q * unat upper \<and> v mod unat upper = unat k}"
    then have "v < 2 ^ 32"
      using limit unat_bound [of "acceptance_limit upper"] by simp
    then have "v = unat (of_nat v :: u32)"
      by (simp add: unat_of_nat_small)
    then show "v \<in> unat ` {w. w < acceptance_limit upper \<and> w mod upper = k}"
      using v limit by (auto simp: word_less_nat_alt word_unat_eq_iff unat_mod_distrib intro!: image_eqI)
  qed (use limit in \<open>auto simp: word_less_nat_alt unat_mod_distrib\<close>)
  then show ?thesis
    using card_residues [OF k, of ?q] card_image [of unat "{w. w < acceptance_limit upper \<and> w mod upper = k}"]
    by (simp add: inj_on_def word_unat_eq_iff)
qed

lemma below_loop_range:
  "below_loop ks upper r = Some y \<Longrightarrow> 0 < upper \<longrightarrow> (\<forall>v. fst y = Ok v \<longrightarrow> v < upper)"
proof (induction rule: below_loop.raw_induct [rotated, consumes 1, case_names step])
  case (step f ks upper r y)
  obtain a r' where n: "next_four ks r = (a, r')"
    by fastforce
  have "w mod upper < upper" if "0 < upper" for w :: u32
    using that by (simp add: word_less_nat_alt unat_mod_distrib)
  then show ?case
    using step n by (cases a) (auto split: if_splits)
qed

text \<open>Whether sampling ends at a state, and the states it goes through.\<close>

definition draw_ends :: "keystream \<Rightarrow> u32 \<Rightarrow> padding_rng \<Rightarrow> bool" where
  "draw_ends ks upper r =
    (case fst (next_four ks r) of Inl _ \<Rightarrow> True | Inr bs \<Rightarrow> from_ne_bytes bs < acceptance_limit upper)"

definition after_draws :: "keystream \<Rightarrow> nat \<Rightarrow> padding_rng \<Rightarrow> padding_rng" where
  "after_draws ks n r = ((\<lambda>r. snd (next_four ks r)) ^^ n) r"

lemma below_loop_returns:
  "draw_ends ks upper (after_draws ks n r) \<Longrightarrow> \<exists>y. below_loop ks upper r = Some y"
proof (induction n arbitrary: r)
  case 0
  then show ?case
    by (subst below_loop.simps)
       (auto simp: draw_ends_def after_draws_def split: prod.split sum.splits)
next
  case (Suc n)
  have "after_draws ks (Suc n) r = after_draws ks n (snd (next_four ks r))"
    unfolding after_draws_def funpow_Suc_right comp_apply ..
  then have "\<exists>y. below_loop ks upper (snd (next_four ks r)) = Some y"
    using Suc by simp
  then show ?case
    by (subst below_loop.simps) (auto split: prod.split sum.split)
qed

text \<open>The word of the \<open>n\<close>-th draw.\<close>

definition draw_word :: "keystream \<Rightarrow> nat \<Rightarrow> padding_rng \<Rightarrow> entropy_error + u32" where
  "draw_word ks n r = (case fst (next_four ks (after_draws ks n r)) of Inl e \<Rightarrow> Err e | Inr bs \<Rightarrow> Ok (from_ne_bytes bs))"

definition word_rejected :: "u32 \<Rightarrow> entropy_error + u32 \<Rightarrow> bool" where
  "word_rejected upper x = (case x of Inl _ \<Rightarrow> False | Inr w \<Rightarrow> acceptance_limit upper \<le> w)"

lemma after_draws_Suc: "after_draws ks (Suc n) r = after_draws ks n (snd (next_four ks r))"
  unfolding after_draws_def funpow_Suc_right comp_apply ..

lemma after_draws_0 [simp]: "after_draws ks 0 r = r"
  by (simp add: after_draws_def)

lemma draw_word_Suc: "draw_word ks (Suc n) r = draw_word ks n (snd (next_four ks r))"
  by (simp add: draw_word_def after_draws_Suc)

lemma below_loop_first:
  "below_loop ks upper r = Some y \<Longrightarrow>
    \<exists>n. (\<forall>m < n. word_rejected upper (draw_word ks m r)) \<and> \<not> word_rejected upper (draw_word ks n r)
      \<and> y = (map_sum (\<lambda>e. e) (\<lambda>w. w mod upper) (draw_word ks n r), after_draws ks (Suc n) r)"
proof (induction rule: below_loop.raw_induct [rotated, consumes 1, case_names step])
  case (step f ks upper r y)
  obtain x r' where n: "next_four ks r = (x, r')"
    by fastforce
  have word0: "draw_word ks 0 r = (case x of Inl e \<Rightarrow> Err e | Inr bs \<Rightarrow> Ok (from_ne_bytes bs))"
    "after_draws ks (Suc 0) r = r'"
    using n by (simp_all add: draw_word_def after_draws_Suc)
  show ?case
  proof (cases "word_rejected upper (draw_word ks 0 r)")
    case True
    then have "f ks upper r' = Some y"
      using step(2) n word0 by (auto simp: word_rejected_def split: sum.splits if_splits)
    from step(1) [OF this] obtain k where k: "\<forall>m < k. word_rejected upper (draw_word ks m r')"
      "\<not> word_rejected upper (draw_word ks k r')"
      "y = (map_sum (\<lambda>e. e) (\<lambda>w. w mod upper) (draw_word ks k r'), after_draws ks (Suc k) r')"
      by blast
    have "draw_word ks (Suc m) r = draw_word ks m r'" "after_draws ks (Suc (Suc k)) r = after_draws ks (Suc k) r'" for m
      using n draw_word_Suc [of ks m r] after_draws_Suc [of ks "Suc k" r] by simp_all
    then show ?thesis
      using k True by (intro exI [of _ "Suc k"]) (auto simp: less_Suc_eq_0_disj)
  next
    case False
    then have "y = (map_sum (\<lambda>e. e) (\<lambda>w. w mod upper) (draw_word ks 0 r), after_draws ks (Suc 0) r)"
      using step(2) n word0 by (auto simp: word_rejected_def not_le split: sum.splits if_splits)
    then show ?thesis
      using False by (intro exI [of _ 0]) simp
  qed
qed

lemma draw_ends_word: "draw_ends ks upper (after_draws ks n r) \<longleftrightarrow> \<not> word_rejected upper (draw_word ks n r)"
  by (simp add: draw_ends_def draw_word_def word_rejected_def not_le split: sum.split)

lemma below_exact:
  assumes "0 < upper"
  shows "below ks upper r = Some y \<longleftrightarrow>
    (\<exists>n. (\<forall>m < n. word_rejected upper (draw_word ks m r)) \<and> \<not> word_rejected upper (draw_word ks n r)
      \<and> y = (map_sum (\<lambda>e. e) (\<lambda>w. w mod upper) (draw_word ks n r), after_draws ks (Suc n) r))" (is "_ = (\<exists>n. ?first n \<and> ?ends n \<and> y = ?out n)")
proof
  assume "\<exists>n. ?first n \<and> ?ends n \<and> y = ?out n"
  then obtain n where n: "?first n" "?ends n" "y = ?out n"
    by blast
  obtain z where z: "below_loop ks upper r = Some z"
    using below_loop_returns draw_ends_word n(2) by metis
  from below_loop_first [OF this] obtain n' where "?first n'" "?ends n'" "z = ?out n'"
    by blast
  moreover from this n have "n' = n"
    by (meson linorder_neqE_nat)
  ultimately show "below ks upper r = Some y"
    using z n(3) less_imp_neq [OF assms] unfolding below_def by metis
next
  assume "below ks upper r = Some y"
  then have "below_loop ks upper r = Some y"
    using less_imp_neq [OF assms] unfolding below_def by metis
  then show "\<exists>n. ?first n \<and> ?ends n \<and> y = ?out n"
    by (rule below_loop_first)
qed

section \<open>Properties\<close>

text \<open>
  C36.  Padding lengths are drawn without bias.  A draw below a positive \<open>upper\<close> returns \<open>k\<close>
  exactly when the first keystream word below the acceptance limit has the residue \<open>k\<close>, all
  earlier words having been rejected, and it consumes precisely the words up to that one; it
  returns at all exactly when some word is acceptable or reseeding fails; and every \<open>k\<close>
  below \<open>upper\<close> is the residue of the same number of acceptable words.
\<close>

theorem padding_draw_unbiased:
  assumes "k < upper"
  shows "(below ks upper r = Some (Ok k, r') \<longleftrightarrow>
      (\<exists>n w. (\<forall>m < n. \<exists>u. draw_word ks m r = Ok u \<and> acceptance_limit upper \<le> u)
         \<and> draw_word ks n r = Ok w \<and> w < acceptance_limit upper \<and> w mod upper = k \<and> r' = after_draws ks (Suc n) r))
    \<and> ((\<exists>y. below ks upper r = Some y) \<longleftrightarrow> (\<exists>n. draw_ends ks upper (after_draws ks n r)))
    \<and> card {w. w < acceptance_limit upper \<and> w mod upper = k} = (2 ^ 32 - 1) div unat upper"
proof (intro conjI)
  have pos: "0 < upper"
    using assms by (rule le_less_trans [OF word_zero_le])
  have rejected: "word_rejected upper x \<longleftrightarrow> (\<exists>u. x = Ok u \<and> acceptance_limit upper \<le> u)" for x
    by (auto simp: word_rejected_def split: sum.splits)
  have accepted: "\<not> word_rejected upper x \<and> (Ok k, r') = (map_sum (\<lambda>e. e) (\<lambda>w. w mod upper) x, s)
      \<longleftrightarrow> (\<exists>w. x = Ok w \<and> w < acceptance_limit upper \<and> w mod upper = k \<and> r' = s)" for x s
    by (cases x) (auto simp: word_rejected_def not_le)
  show "below ks upper r = Some (Ok k, r') \<longleftrightarrow>
      (\<exists>n w. (\<forall>m < n. \<exists>u. draw_word ks m r = Ok u \<and> acceptance_limit upper \<le> u)
         \<and> draw_word ks n r = Ok w \<and> w < acceptance_limit upper \<and> w mod upper = k \<and> r' = after_draws ks (Suc n) r)"
    unfolding below_exact [OF pos] accepted rejected [symmetric] by blast
  show "(\<exists>y. below ks upper r = Some y) \<longleftrightarrow> (\<exists>n. draw_ends ks upper (after_draws ks n r))"
    using below_loop_returns below_loop_first pos unfolding below_def draw_ends_word by (metis less_irrefl)
  show "card {w. w < acceptance_limit upper \<and> w mod upper = k} = (2 ^ 32 - 1) div unat upper"
    by (rule card_accepted [OF assms])
qed

definition demo_rng :: padding_rng where
  "demo_rng = from_seed (\<lambda>_ _. replicate 256 1) [] []"

theorem padding_draw_unbiased_witness:
  "below (\<lambda>_ _. replicate 256 1) 500 demo_rng = Some (Ok 9, after_draws (\<lambda>_ _. replicate 256 1) 1 demo_rng)
   \<and> card {w. w < acceptance_limit 500 \<and> w mod 500 = 9} = (2 ^ 32 - 1) div 500"
proof -
  have word: "from_ne_bytes (replicate 4 1) = 0x01010101"
  proof -
    have "replicate 4 (1 :: byte) = [1, 1, 1, 1]"
      by (simp add: numeral_eq_Suc)
    then show ?thesis
      by (simp add: from_ne_bytes_def be_u32_def of_be_def)
  qed
  have "unat (acceptance_limit 500) = 4294967000"
    by (simp add: acceptance_limit_multiple)
  then have limit: "0x01010101 < acceptance_limit 500"
    by (simp add: word_less_nat_alt)
  have draw: "draw_word (\<lambda>_ _. replicate 256 1) 0 demo_rng = Ok 0x01010101"
    by (simp add: draw_word_def word next_four_def demo_rng_def from_seed_def BLOCK_BYTES_def)
  have residue: "(0x01010101 :: u32) mod 500 = 9"
    by simp
  have "(9 :: u32) < 500"
    by simp
  note bound = padding_draw_unbiased [OF this, of "\<lambda>_ _. replicate 256 1" demo_rng "after_draws (\<lambda>_ _. replicate 256 1) 1 demo_rng"]
  show ?thesis
  proof
    show "below (\<lambda>_ _. replicate 256 1) 500 demo_rng = Some (Ok 9, after_draws (\<lambda>_ _. replicate 256 1) 1 demo_rng)"
      unfolding bound [THEN conjunct1] using draw limit residue by (intro exI [of _ 0] exI [of _ "0x01010101"]) simp
    show "card {w. w < acceptance_limit 500 \<and> w mod 500 = 9} = (2 ^ 32 - 1) div 500"
      using bound by simp
  qed
qed

end
