(* ===== verification/Vision_Encode.thy ===== *)
theory Vision_Encode
  imports Vision_Decode Vision_Padding
begin

text \<open>
  The Vision padding encoder of \<open>src/protocol/vless/vision.rs\<close>.  Every operation that draws a
  padding length threads the generator and is undefined (\<open>None\<close>) exactly when the draw never
  ends; \<open>ks\<close> is the keystream parameter of the generator.
\<close>

section \<open>Plans\<close>

definition DEFAULT_LONG_PADDING_THRESHOLD :: nat where "DEFAULT_LONG_PADDING_THRESHOLD = 900"
definition DEFAULT_LONG_PADDING_RANGE :: u32 where "DEFAULT_LONG_PADDING_RANGE = 500"
definition DEFAULT_LONG_PADDING_TARGET :: nat where "DEFAULT_LONG_PADDING_TARGET = 900"
definition DEFAULT_SHORT_PADDING_RANGE :: u32 where "DEFAULT_SHORT_PADDING_RANGE = 256"

record vision_frame_plan =
  include_user_id :: bool
  fp_command :: vision_command
  fp_content_length :: u16
  fp_padding_length :: u16

definition wire_len :: "vision_frame_plan \<Rightarrow> nat" where
  "wire_len p = HEADER_SIZE + (if include_user_id p then UUID_SIZE else 0)
     + unat (fp_content_length p) + unat (fp_padding_length p)"

datatype vision_encode_error =
  ContentTooLarge nat nat | PaddingTooLarge nat | VisionEntropy | EncoderFinished

record vision_encoder =
  ve_user_id :: bytes
  ve_first_frame :: bool
  ve_finished :: bool
  ve_padding :: padding_rng

definition vision_encoder_new :: "keystream \<Rightarrow> bytes \<Rightarrow> bytes option list \<Rightarrow> vision_encode_error + vision_encoder" where
  "vision_encoder_new ks user os =
    and_then (map_err (\<lambda>_. VisionEntropy) (fst (from_os ks os))) (\<lambda>rng.
      Ok \<lparr>ve_user_id = user, ve_first_frame = True, ve_finished = False, ve_padding = rng\<rparr>)"

definition prefix_length :: "vision_encoder \<Rightarrow> nat" where
  "prefix_length e = HEADER_SIZE + (if ve_first_frame e then UUID_SIZE else 0)"

definition maximum_frame_padding :: "vision_encoder \<Rightarrow> nat \<Rightarrow> vision_encode_error + nat" where
  "maximum_frame_padding e content_length =
    (if ve_finished e then Err EncoderFinished
     else
      (let maximum_content = VISION_FRAME_SIZE - prefix_length e
       in if content_length > maximum_content \<or> content_length > 65535
          then Err (ContentTooLarge content_length maximum_content)
          else Ok (VISION_FRAME_SIZE - prefix_length e - content_length)))"

definition random_below ::
  "keystream \<Rightarrow> u32 \<Rightarrow> vision_encoder \<Rightarrow> ((vision_encode_error + u32) \<times> vision_encoder) option"
where
  "random_below ks upper e =
    map_option (\<lambda>(r, rng). (map_err (\<lambda>_. VisionEntropy) r, e\<lparr>ve_padding := rng\<rparr>))
      (below ks upper (ve_padding e))"

definition choose_padding_length ::
  "keystream \<Rightarrow> nat \<Rightarrow> bool \<Rightarrow> nat \<Rightarrow> vision_encoder \<Rightarrow> ((vision_encode_error + nat) \<times> vision_encoder) option"
where
  "choose_padding_length ks content_length long_padding maximum e =
    (if content_length < DEFAULT_LONG_PADDING_THRESHOLD \<and> long_padding
     then map_option (\<lambda>(r, e'). (and_then r (\<lambda>v.
            Ok (min (unat v + DEFAULT_LONG_PADDING_TARGET - content_length) maximum)), e'))
          (random_below ks DEFAULT_LONG_PADDING_RANGE e)
     else map_option (\<lambda>(r, e'). (and_then r (\<lambda>v. Ok (min (unat v) maximum)), e'))
          (random_below ks DEFAULT_SHORT_PADDING_RANGE e))"

definition plan_capped ::
  "keystream \<Rightarrow> nat \<Rightarrow> vision_command \<Rightarrow> bool \<Rightarrow> nat \<Rightarrow> vision_encoder
   \<Rightarrow> ((vision_encode_error + vision_frame_plan) \<times> vision_encoder) option"
where
  "plan_capped ks content_length command long_padding maximum_padding e =
    map_option (\<lambda>(r, e'). (and_then r (\<lambda>padding_length.
        if content_length > 65535 then Err (ContentTooLarge content_length content_length)
        else if padding_length > 65535 then Err (PaddingTooLarge padding_length)
        else Ok \<lparr>include_user_id = ve_first_frame e', fp_command = command,
                 fp_content_length = of_nat content_length, fp_padding_length = of_nat padding_length\<rparr>), e'))
      (choose_padding_length ks content_length long_padding maximum_padding e)"

definition plan_frame ::
  "keystream \<Rightarrow> nat \<Rightarrow> vision_command \<Rightarrow> bool \<Rightarrow> vision_encoder
   \<Rightarrow> ((vision_encode_error + vision_frame_plan) \<times> vision_encoder) option"
where
  "plan_frame ks content_length command long_padding e =
    (case maximum_frame_padding e content_length of
       Inl err \<Rightarrow> Some (Err err, e)
     | Inr maximum_padding \<Rightarrow> plan_capped ks content_length command long_padding maximum_padding e)"

definition plan_within ::
  "keystream \<Rightarrow> nat \<Rightarrow> vision_command \<Rightarrow> bool \<Rightarrow> nat \<Rightarrow> vision_encoder
   \<Rightarrow> ((vision_encode_error + vision_frame_plan option) \<times> vision_encoder) option"
where
  "plan_within ks content_length command long_padding record_budget e =
    (case maximum_frame_padding e content_length of
       Inl err \<Rightarrow> Some (Err err, e)
     | Inr maximum_padding \<Rightarrow>
        if record_budget < prefix_length e + content_length then Some (Ok None, e)
        else map_option (\<lambda>(r, e'). (and_then r (\<lambda>p. Ok (Some p)), e'))
               (plan_capped ks content_length command long_padding
                 (min maximum_padding (record_budget - prefix_length e - content_length)) e))"

section \<open>Assembly\<close>

definition assemble_layout :: "vision_encoder \<Rightarrow> vision_frame_plan \<Rightarrow> bytes \<Rightarrow> bytes" where
  "assemble_layout e p output =
    (if length output \<noteq> wire_len p then output
     else
      (let prefix = (if include_user_id p then UUID_SIZE else 0);
           output1 = (if include_user_id p then write_at 0 (ve_user_id e) output else output);
           output2 = write_at prefix
             (vision_command_byte (fp_command p) # u16_be (fp_content_length p) @ u16_be (fp_padding_length p))
             output1;
           body_end = prefix + HEADER_SIZE + unat (fp_content_length p)
       in write_at body_end (replicate (length output - body_end) 0) output2))"

definition assemble :: "vision_encoder \<Rightarrow> vision_frame_plan \<Rightarrow> bytes \<Rightarrow> bytes \<Rightarrow> bytes" where
  "assemble e p content output =
    (if length output \<noteq> wire_len p \<or> length content \<noteq> unat (fp_content_length p) then output
     else
      (let prefix = HEADER_SIZE + (if include_user_id p then UUID_SIZE else 0)
       in assemble_layout e p (write_at prefix content output)))"

definition commit_plan :: "vision_encoder \<Rightarrow> vision_frame_plan \<Rightarrow> vision_encoder" where
  "commit_plan e p = e\<lparr>ve_first_frame := False, ve_finished := (fp_command p \<noteq> Continue)\<rparr>"

definition vision_encode ::
  "keystream \<Rightarrow> bytes \<Rightarrow> vision_command \<Rightarrow> bool \<Rightarrow> vision_encoder
   \<Rightarrow> ((vision_encode_error + bytes) \<times> vision_encoder) option"
where
  "vision_encode ks content command long_padding e =
    map_option (\<lambda>(r, e').
        case r of
          Inl err \<Rightarrow> (Err err, e')
        | Inr p \<Rightarrow> (Ok (assemble e' p content (replicate (wire_len p) 0)), commit_plan e' p))
      (plan_frame ks (length content) command long_padding e)"

section \<open>What a frame looks like\<close>

definition frame_header :: "vision_frame_plan \<Rightarrow> bytes" where
  "frame_header p =
    vision_command_byte (fp_command p) # u16_be (fp_content_length p) @ u16_be (fp_padding_length p)"

definition frame_bytes :: "bytes \<Rightarrow> vision_frame_plan \<Rightarrow> bytes \<Rightarrow> bytes" where
  "frame_bytes user p content = (if include_user_id p then user else []) @ frame_header p @ content
     @ replicate (unat (fp_padding_length p)) 0"

lemma length_frame_header [simp]: "length (frame_header p) = 5"
  by (simp add: frame_header_def)

lemma length_frame_bytes:
  "length user = 16 \<Longrightarrow> length content = unat (fp_content_length p) \<Longrightarrow> length (frame_bytes user p content) = wire_len p"
  by (simp add: frame_bytes_def wire_len_def vision_consts)

text \<open>Whatever the storage held, assembly overwrites all of it.\<close>

lemma write_at_mid: "length as = at \<Longrightarrow> length bs = length bs' \<Longrightarrow> write_at at bs' (as @ bs @ cs) = as @ bs' @ cs"
  by (simp add: write_at_def)

lemma split_lengths:
  assumes "length xs = a + b + c + d"
  obtains u h m z where "xs = u @ h @ m @ z" "length u = a" "length h = b" "length m = c" "length z = d"
proof
  show "xs = take a xs @ take b (drop a xs) @ take c (drop (a + b) xs) @ drop (a + b + c) xs"
    by (metis append_take_drop_id drop_drop add.commute add.assoc)
qed (use assms in auto)

lemma assemble_eq:
  assumes "length (ve_user_id e) = 16" and "length content = unat (fp_content_length p)" and "length output = wire_len p"
  shows "assemble e p content output = frame_bytes (ve_user_id e) p content"
proof -
  let ?n = "if include_user_id p then 16 else 0 :: nat"
  let ?u = "if include_user_id p then ve_user_id e else []"
  let ?c = "unat (fp_content_length p)" and ?q = "unat (fp_padding_length p)"
  have "length output = ?n + 5 + ?c + ?q"
    using assms(3) by (simp add: wire_len_def vision_consts)
  then obtain u h m z where out: "output = u @ h @ m @ z" and
    len: "length u = ?n" "length h = 5" "length m = ?c" "length z = ?q"
    by (rule split_lengths)
  have body: "write_at (5 + ?n) content output = u @ h @ content @ z"
    using write_at_mid [of "u @ h" "5 + ?n" m content z] len assms(2) by (simp add: out add.commute)
  have user: "(if include_user_id p then write_at 0 (ve_user_id e) (u @ h @ content @ z) else u @ h @ content @ z)
      = ?u @ h @ content @ z"
    using write_at_mid [of "[]" 0 u "ve_user_id e"] len(1) assms(1) by auto
  have header: "write_at ?n (frame_header p) (?u @ h @ content @ z) = ?u @ frame_header p @ content @ z"
    using write_at_mid [of ?u ?n h "frame_header p"] len(2) assms(1) by auto
  have padding: "write_at (?n + 5 + ?c) (replicate ?q 0) (?u @ frame_header p @ content @ z)
      = ?u @ frame_header p @ content @ replicate ?q 0"
    using write_at_mid [of "?u @ frame_header p @ content" "?n + 5 + ?c" z "replicate ?q 0" "[]"] len(4) assms(1,2)
    by auto
  have "length (u @ h @ content @ z) = wire_len p" "wire_len p - (?n + 5 + ?c) = ?q"
    using len assms(2) by (simp_all add: wire_len_def vision_consts)
  then have "assemble e p content output = write_at (?n + 5 + ?c) (replicate ?q 0)
      (write_at ?n (frame_header p)
        (if include_user_id p then write_at 0 (ve_user_id e) (u @ h @ content @ z) else u @ h @ content @ z))"
    using assms(2,3) unfolding assemble_def assemble_layout_def Let_def vision_consts body frame_header_def
    by simp
  then show ?thesis
    unfolding user header padding frame_bytes_def .
qed

section \<open>What a plan promises\<close>

definition plan_fits :: "vision_encoder \<Rightarrow> nat \<Rightarrow> vision_command \<Rightarrow> nat \<Rightarrow> vision_frame_plan \<Rightarrow> bool" where
  "plan_fits e n c budget p \<longleftrightarrow> include_user_id p = ve_first_frame e \<and> fp_command p = c
     \<and> unat (fp_content_length p) = n \<and> wire_len p \<le> budget"

text \<open>Planning changes nothing of the encoder but its generator.\<close>

definition same_but_padding :: "vision_encoder \<Rightarrow> vision_encoder \<Rightarrow> bool" where
  "same_but_padding e e' \<longleftrightarrow> e' = e\<lparr>ve_padding := ve_padding e'\<rparr>"

lemma same_but_padding_fields:
  assumes "same_but_padding e e'"
  shows "ve_user_id e' = ve_user_id e" "ve_first_frame e' = ve_first_frame e" "ve_finished e' = ve_finished e"
  using assms by (cases e; cases e'; simp add: same_but_padding_def)+

lemma choose_padding_length_Some:
  assumes "choose_padding_length ks n long maximum e = Some (r, e')"
  shows "same_but_padding e e'" "r = Ok k \<Longrightarrow> k \<le> maximum"
  using assms
  by (auto simp: choose_padding_length_def random_below_def same_but_padding_def result_simps split: if_splits)

lemma plan_capped_Some:
  assumes "plan_capped ks n c long maximum e = Some (r, e')" and "n + maximum \<le> 65535"
  shows "same_but_padding e e'" "r = Ok p \<Longrightarrow> plan_fits e n c (prefix_length e + n + maximum) p"
proof -
  obtain v where v: "choose_padding_length ks n long maximum e = Some (v, e')"
    "r = and_then v (\<lambda>k. if n > 65535 then Err (ContentTooLarge n n) else if k > 65535 then Err (PaddingTooLarge k)
       else Ok \<lparr>include_user_id = ve_first_frame e', fp_command = c, fp_content_length = of_nat n,
                fp_padding_length = of_nat k\<rparr>)"
    using assms(1) by (auto simp: plan_capped_def)
  note cp = choose_padding_length_Some [OF v(1)]
  show "same_but_padding e e'"
    by (rule cp)
  assume "r = Ok p"
  then obtain k where "v = Ok k" and p: "k \<le> 65535" "n \<le> 65535" "p = \<lparr>include_user_id = ve_first_frame e',
      fp_command = c, fp_content_length = of_nat n, fp_padding_length = of_nat k\<rparr>"
    using v(2) by (auto simp: result_simps not_less split: if_splits)
  then show "plan_fits e n c (prefix_length e + n + maximum) p"
    using cp(2) [of k] same_but_padding_fields(2) [OF cp(1)]
    by (auto simp: plan_fits_def wire_len_def prefix_length_def unat_of_nat_small)
qed

lemma maximum_frame_padding_Ok:
  "maximum_frame_padding e n = Ok m \<longleftrightarrow> \<not> ve_finished e \<and> prefix_length e + n \<le> 8192 \<and> m = 8192 - prefix_length e - n"
  by (auto simp: maximum_frame_padding_def prefix_length_def vision_consts Let_def)

lemma plan_frame_Some:
  assumes "plan_frame ks n c long e = Some (r, e')"
  shows "same_but_padding e e'" "r = Ok p \<Longrightarrow> \<not> ve_finished e \<and> plan_fits e n c 8192 p"
  using assms plan_capped_Some [of ks n c long "8192 - prefix_length e - n" e r e']
  by (auto simp: plan_frame_def maximum_frame_padding_Ok same_but_padding_def split: sum.splits)

lemma plan_within_Some:
  assumes "plan_within ks n c long budget e = Some (r, e')"
  shows "same_but_padding e e'"
    "r = Ok (Some p) \<Longrightarrow> \<not> ve_finished e \<and> plan_fits e n c (min 8192 budget) p"
    "r = Ok None \<Longrightarrow> budget < prefix_length e + n"
proof -
  let ?m = "min (8192 - prefix_length e - n) (budget - prefix_length e - n)"
  consider err where "maximum_frame_padding e n = Err err" "r = Err err" "e' = e"
    | m where "maximum_frame_padding e n = Ok m" "budget < prefix_length e + n" "r = Ok None" "e' = e"
    | v where "maximum_frame_padding e n = Ok (8192 - prefix_length e - n)" "prefix_length e + n \<le> budget"
        "plan_capped ks n c long ?m e = Some (v, e')" "r = and_then v (\<lambda>p. Ok (Some p))"
    using assms by (fastforce simp: plan_within_def maximum_frame_padding_Ok not_less split: sum.splits if_splits)
  then have "same_but_padding e e' \<and> (r = Ok (Some p) \<longrightarrow> \<not> ve_finished e \<and> plan_fits e n c (min 8192 budget) p)
      \<and> (r = Ok None \<longrightarrow> budget < prefix_length e + n)"
  proof cases
    case (3 v)
    then have fits: "\<not> ve_finished e" "prefix_length e + n \<le> 8192"
      by (simp_all add: maximum_frame_padding_Ok)
    then have le: "n + ?m \<le> 65535" and eq: "prefix_length e + n + ?m = min 8192 budget"
      using 3(2) by auto
    show ?thesis
      using plan_capped_Some [OF 3(3) le] 3(4) fits unfolding eq by (auto simp: result_simps)
  qed (auto simp: same_but_padding_def)
  then show "same_but_padding e e'"
    "r = Ok (Some p) \<Longrightarrow> \<not> ve_finished e \<and> plan_fits e n c (min 8192 budget) p"
    "r = Ok None \<Longrightarrow> budget < prefix_length e + n"
    by blast+
qed

section \<open>Decoding a frame\<close>

text \<open>A decoder between two frames.\<close>

definition at_boundary :: "bytes \<Rightarrow> bool \<Rightarrow> vision_decoder \<Rightarrow> bool" where
  "at_boundary user first d \<longleftrightarrow> decoder_ok d \<and> vd_mode d = Framed \<and> vd_user_id d = user
     \<and> vd_first_frame d = first \<and> header_read d = 0 \<and> (first \<longrightarrow> uuid_read d = 0)"

lemma at_boundary_new: "length user = 16 \<Longrightarrow> at_boundary user True (vision_decoder_new user)"
  using decoder_ok_new by (simp add: at_boundary_def) (simp add: vision_decoder_new_def)

lemma run_body:
  assumes ok: "decoder_ok d" "vd_mode d = Framed" and pend: "\<not> uuid_pending d" "header_read d = 5"
    and n: "content_remaining d = length content" "padding_remaining d = n"
  shows "run_bytes (settle d) (content @ replicate n 0 @ rest) out
    = run_bytes (finish_frame (d\<lparr>content_remaining := 0, padding_remaining := 0\<rparr>)) rest (out @ content)"
proof -
  let ?d1 = "d\<lparr>content_remaining := 0\<rparr>"
  have cmd: "vd_command d \<noteq> None"
    using ok(1) pend(2) by (simp add: decoder_ok_def)
  have complete: "frame_complete d \<longleftrightarrow> content = [] \<and> n = 0" "frame_complete ?d1 \<longleftrightarrow> n = 0"
    "frame_complete (?d1\<lparr>padding_remaining := 0\<rparr>)"
    using cmd pend n by (simp_all add: frame_complete_def vision_consts)
  have c: "run_bytes (settle d) (content @ bs) out = run_bytes (settle ?d1) bs (out @ content)" for bs
  proof (cases "content = []")
    case True
    then have "?d1 = d"
      using n(1) by (cases d) simp
    then show ?thesis
      using True by (simp only: append_Nil append_Nil2)
  next
    case False
    then show ?thesis
      using run_content [of d content bs out] ok pend n(1) complete(1) by (simp del: settle_Framed) (simp add: settle_def)
  qed
  have q: "run_bytes (settle ?d1) (replicate n 0 @ rest) out' = run_bytes (finish_frame (?d1\<lparr>padding_remaining := 0\<rparr>)) rest out'"
    for out'
  proof (cases "n = 0")
    case True
    then have "?d1\<lparr>padding_remaining := 0\<rparr> = ?d1"
      using n(2) by (cases d) simp
    moreover have "settle ?d1 = finish_frame ?d1"
      using True complete(2) by (simp only: settle_def simp_thms if_True)
    ultimately show ?thesis
      using True by (simp only: replicate_0 append_Nil)
  next
    case False
    have "settle (?d1\<lparr>padding_remaining := 0\<rparr>) = finish_frame (?d1\<lparr>padding_remaining := 0\<rparr>)"
      using complete(3) by (simp only: settle_def if_True)
    moreover have "run_bytes ?d1 (replicate n 0 @ rest) out' = run_bytes (settle (?d1\<lparr>padding_remaining := 0\<rparr>)) rest out'"
      using run_padding [of ?d1 "replicate n 0" rest out'] ok pend n(2) complete(2) False
      by (simp add: uuid_pending_def del: settle_Framed)
    ultimately show ?thesis
      using False complete(2) by (simp only: settle_def [of ?d1] if_False simp_thms)
  qed
  show ?thesis
    unfolding c q by simp
qed

lemma start_frame_header:
  assumes "vd_header d = frame_header p" and "vd_first_frame d = include_user_id p" and "wire_len p \<le> 8192"
  shows "start_frame d = Ok (d\<lparr>vd_command := Some (fp_command p), content_remaining := unat (fp_content_length p),
    padding_remaining := unat (fp_padding_length p)\<rparr>)"
proof -
  obtain c1 c2 where c: "u16_be (fp_content_length p) = [c1, c2]"
    by (simp add: u16_be_def numeral_2_eq_2)
  obtain p1 p2 where q: "u16_be (fp_padding_length p) = [p1, p2]"
    by (simp add: u16_be_def numeral_2_eq_2)
  have "be_u16 [c1, c2] = fp_content_length p" "be_u16 [p1, p2] = fp_padding_length p"
    using c q by (metis be_u16_u16_be)+
  moreover have "vd_header d = [vision_command_byte (fp_command p), c1, c2, p1, p2]"
    using assms(1) by (simp add: frame_header_def c q)
  moreover have "vision_try_from (vision_command_byte x) = Ok x" for x
    by (cases x) (simp_all add: vision_try_from_def)
  ultimately show ?thesis
    using assms(2,3) by (simp add: start_frame_def wire_len_def vision_consts)
qed

lemma run_frame:
  assumes b: "at_boundary user (include_user_id p) d" and fit: "wire_len p \<le> 8192"
    and len: "length content = unat (fp_content_length p)"
  shows "\<exists>d'. (\<forall>rest out. run_bytes d (frame_bytes user p content @ rest) out = run_bytes d' rest (out @ content))
    \<and> vd_mode d' = mode_after (fp_command p) \<and> (fp_command p = Continue \<longrightarrow> at_boundary user False d')"
proof -
  let ?u = "if include_user_id p then user else []"
  let ?tail = "\<lambda>rest. content @ replicate (unat (fp_padding_length p)) 0 @ rest"
  let ?body = "\<lambda>rest. frame_header p @ ?tail rest"
  have ok: "decoder_ok d" "vd_mode d = Framed" "length user = 16"
    using b by (auto simp: at_boundary_def decoder_ok_def)
  define d1 where "d1 = d\<lparr>uuid_read := uuid_read d + length ?u\<rparr>"
  have uuid: "run_bytes d (?u @ ?body rest) out = run_bytes d1 (?body rest) out" for rest out
    using run_uuid [of d user "?body rest" out] b ok by (auto simp: d1_def at_boundary_def)
  have d1: "decoder_ok d1" "vd_mode d1 = Framed" "\<not> uuid_pending d1" "header_read d1 = 0" "vd_user_id d1 = user"
    "vd_first_frame d1 = include_user_id p"
    using b ok by (auto simp: d1_def at_boundary_def decoder_ok_def uuid_pending_def vision_consts)
  let ?d2 = "d1\<lparr>vd_header := frame_header p, header_read := 5\<rparr>"
  have "write_at 0 (frame_header p) (vd_header d1) = frame_header p"
    using d1(1) by (simp add: write_at_def decoder_ok_def)
  then have header: "run_bytes d1 (?body rest) out = (case start_frame ?d2 of Inl e \<Rightarrow> Err e
      | Inr d'' \<Rightarrow> run_bytes (settle d'') (?tail rest) out)" for rest out
    using run_header [of d1 "frame_header p" "?tail rest" out] d1
    by (simp add: frame_header_def)
  let ?d3 = "?d2\<lparr>vd_command := Some (fp_command p), content_remaining := unat (fp_content_length p),
    padding_remaining := unat (fp_padding_length p)\<rparr>"
  let ?d4 = "finish_frame (?d3\<lparr>content_remaining := 0, padding_remaining := 0\<rparr>)"
  have "start_frame ?d2 = Ok ?d3"
    using start_frame_header [of ?d2 p] d1 fit by simp
  moreover have "decoder_ok ?d3" "\<not> uuid_pending ?d3"
    using d1 by (auto simp: decoder_ok_def uuid_pending_def)
  ultimately have "run_bytes d (?u @ ?body rest) out = run_bytes ?d4 rest (out @ content)" for rest out
    using run_body [of ?d3 content "unat (fp_padding_length p)" rest out] d1 len
    unfolding uuid header by simp
  moreover have "at_boundary user False ?d4" if "fp_command p = Continue"
    using d1 ok that by (auto simp: at_boundary_def decoder_ok_def finish_frame_def uuid_pending_def vision_consts)
  moreover have "vd_mode ?d4 = mode_after (fp_command p)"
    by (simp add: finish_frame_def)
  ultimately show ?thesis
    unfolding frame_bytes_def by (intro exI [of _ ?d4]) simp
qed

end
