(* ===== verification/Vision_Framing.thy ===== *)
theory Vision_Framing
  imports Vision_Encode Vless_Read
begin

text \<open>
  Packing Vision frames into outer TLS records: \<open>src/server/vision/framing.rs\<close>.  The TLS writer
  is seen through what its callers rely on: \<open>write_assembled\<close> hands the caller a zeroed
  plaintext region of the requested length, refuses one above the record limit, and either
  appends the record to what was written or fails.  The outer loop is a partial function:
  besides a draw that never ends, a round that packs no frame would repeat for ever.
\<close>

section \<open>The record writer\<close>

datatype tls_write_error = TlsRecordLength | TlsTransport

text \<open>
  The plaintext records written so far, which of the coming writes fail, whether the storage
  has grown to the batched layout, and whether \<open>close_notify\<close> has been sent.
\<close>

record tls_writer =
  tw_records :: "bytes list"
  tw_failures :: "bool list"
  tw_batched :: bool
  tw_closed :: bool

definition write_assembled ::
  "tls_writer \<Rightarrow> nat \<Rightarrow> (bytes \<Rightarrow> bytes) \<Rightarrow> (tls_write_error + unit) \<times> tls_writer"
where
  "write_assembled w plaintext_len assemble_region =
    (if plaintext_len > MAX_PLAINTEXT_LEN then (Err TlsRecordLength, w)
     else case tw_failures w of
       True # fs \<Rightarrow> (Err TlsTransport, w\<lparr>tw_failures := fs\<rparr>)
     | fs \<Rightarrow> (Ok (), w\<lparr>tw_records := tw_records w @ [assemble_region (replicate plaintext_len 0)],
                      tw_failures := tl fs\<rparr>))"

section \<open>Frames\<close>

datatype vision_write_error = VisionEncodeFailed vision_encode_error | VisionTls tls_write_error

definition MAX_VISION_CONTENT_AFTER_FIRST_FRAME :: nat where
  "MAX_VISION_CONTENT_AFTER_FIRST_FRAME = VISION_FRAME_SIZE - 5"
definition MAX_FRAMES_PER_OUTER_RECORD :: nat where "MAX_FRAMES_PER_OUTER_RECORD = 4"

lemma max_content [simp]: "MAX_VISION_CONTENT_AFTER_FIRST_FRAME = 8187"
  by (simp add: MAX_VISION_CONTENT_AFTER_FIRST_FRAME_def vision_consts)

definition write_vision_frame ::
  "keystream \<Rightarrow> bytes \<Rightarrow> vision_command \<Rightarrow> bool \<Rightarrow> tls_writer \<Rightarrow> vision_encoder
   \<Rightarrow> ((vision_write_error + unit) \<times> tls_writer \<times> vision_encoder) option"
where
  "write_vision_frame ks content command long_padding w e =
    map_option (\<lambda>(r, e').
        case r of
          Inl err \<Rightarrow> (Err (VisionEncodeFailed err), w, e')
        | Inr p \<Rightarrow>
           (case write_assembled w (wire_len p) (assemble e' p content) of
              (Inl err, w') \<Rightarrow> (Err (VisionTls err), w', e')
            | (Inr _, w') \<Rightarrow> (Ok (), w', commit_plan e' p)))
      (plan_frame ks (length content) command long_padding e)"

definition chunk_count :: "bytes \<Rightarrow> nat" where
  "chunk_count content =
    (length content + MAX_VISION_CONTENT_AFTER_FIRST_FRAME - 1) div MAX_VISION_CONTENT_AFTER_FIRST_FRAME"

text \<open>The inner loop: plans for the chunks from \<open>i\<close> on, while slots and the record's budget last.\<close>

fun pack_frames ::
  "keystream \<Rightarrow> bytes \<Rightarrow> vision_command \<Rightarrow> bool \<Rightarrow> nat \<Rightarrow> nat \<Rightarrow> nat \<Rightarrow> vision_encoder
   \<Rightarrow> ((vision_encode_error + ((vision_frame_plan \<times> nat \<times> nat) list \<times> nat)) \<times> vision_encoder) option"
where
  "pack_frames ks content final_command long_padding i 0 wire e = Some (Ok ([], wire), e)"
| "pack_frames ks content final_command long_padding i (Suc slots) wire e =
    (if i \<ge> chunk_count content then Some (Ok ([], wire), e)
     else
      (let start = i * MAX_VISION_CONTENT_AFTER_FIRST_FRAME;
           end' = min (length content) (start + MAX_VISION_CONTENT_AFTER_FIRST_FRAME);
           command = (if i + 1 = chunk_count content then final_command else Continue)
       in case plan_within ks (end' - start) command long_padding (MAX_PLAINTEXT_LEN - wire) e of
            None \<Rightarrow> None
          | Some (Inl err, e') \<Rightarrow> Some (Err err, e')
          | Some (Inr None, e') \<Rightarrow> Some (Ok ([], wire), e')
          | Some (Inr (Some p), e') \<Rightarrow>
             map_option (\<lambda>(r, e''). (and_then r (\<lambda>(ps, wire'). Ok ((p, start, end') # ps, wire')), e''))
               (pack_frames ks content final_command long_padding (i + 1) slots (wire + wire_len p) e')))"

text \<open>The closure that assembles the planned frames one after the other.\<close>

fun assemble_slots ::
  "vision_encoder \<Rightarrow> bytes \<Rightarrow> (vision_frame_plan \<times> nat \<times> nat) list \<Rightarrow> nat \<Rightarrow> bytes \<Rightarrow> bytes"
where
  "assemble_slots e content [] cursor destination = destination"
| "assemble_slots e content ((p, start, end') # ps) cursor destination =
    (if cursor + wire_len p > length destination \<or> end' > length content \<or> start > end' then destination
     else
      (let frame = take (wire_len p) (drop cursor destination);
           chunk = take (end' - start) (drop start content)
       in assemble_slots e content ps (cursor + wire_len p)
            (write_at cursor (assemble e p chunk frame) destination)))"

partial_function (option) content_loop ::
  "keystream \<Rightarrow> bytes \<Rightarrow> vision_command \<Rightarrow> bool \<Rightarrow> nat \<Rightarrow> tls_writer \<Rightarrow> vision_encoder
   \<Rightarrow> ((vision_write_error + unit) \<times> tls_writer \<times> vision_encoder) option"
where
  "content_loop ks content final_command long_padding index w e =
    (if index \<ge> chunk_count content then Some (Ok (), w, e)
     else
       Option.bind (pack_frames ks content final_command long_padding index MAX_FRAMES_PER_OUTER_RECORD 0 e)
         (\<lambda>(r, e1).
            case r of
              Inl err \<Rightarrow> Some (Err (VisionEncodeFailed err), w, e1)
            | Inr (ps, wire) \<Rightarrow>
               (case write_assembled w wire (assemble_slots e1 content ps 0) of
                  (Inl err, w') \<Rightarrow> Some (Err (VisionTls err), w', e1)
                | (Inr _, w') \<Rightarrow>
                   content_loop ks content final_command long_padding (index + length ps) w'
                     (foldl commit_plan e1 (map fst ps)))))"

definition write_vision_content ::
  "keystream \<Rightarrow> bytes \<Rightarrow> vision_command \<Rightarrow> bool \<Rightarrow> tls_writer \<Rightarrow> vision_encoder
   \<Rightarrow> ((vision_write_error + unit) \<times> tls_writer \<times> vision_encoder) option"
where
  "write_vision_content ks content final_command long_padding w e =
    (if content = [] then write_vision_frame ks [] final_command long_padding w e
     else content_loop ks content final_command long_padding 0 w e)"

section \<open>What a round packs\<close>

definition slot_command :: "bytes \<Rightarrow> vision_command \<Rightarrow> nat \<Rightarrow> vision_command" where
  "slot_command content c i = (if i + 1 = chunk_count content then c else Continue)"

definition chunk :: "bytes \<Rightarrow> nat \<Rightarrow> bytes" where
  "chunk content i = take 8187 (drop (i * 8187) content)"

definition slot_ok ::
  "vision_encoder \<Rightarrow> bytes \<Rightarrow> vision_command \<Rightarrow> nat \<Rightarrow> vision_frame_plan \<times> nat \<times> nat \<Rightarrow> bool"
where
  "slot_ok e content c i = (\<lambda>(p, start, end').
     start = i * 8187 \<and> end' = min (length content) (start + 8187) \<and> start \<le> end'
     \<and> plan_fits e (length (chunk content i)) (slot_command content c i) 8192 p)"

fun slots_ok ::
  "vision_encoder \<Rightarrow> bytes \<Rightarrow> vision_command \<Rightarrow> nat \<Rightarrow> (vision_frame_plan \<times> nat \<times> nat) list \<Rightarrow> bool"
where
  "slots_ok e content c i [] = True"
| "slots_ok e content c i (s # ss) = (slot_ok e content c i s \<and> slots_ok e content c (i + 1) ss)"

definition slots_len :: "(vision_frame_plan \<times> nat \<times> nat) list \<Rightarrow> nat" where
  "slots_len ss = sum_list (map (\<lambda>s. wire_len (fst s)) ss)"

lemma slots_len_simps [simp]: "slots_len [] = 0" "slots_len (s # ss) = wire_len (fst s) + slots_len ss"
  by (simp_all add: slots_len_def)

lemma chunk_before_count:
  assumes "i < chunk_count content"
  shows "i * 8187 < length content"
proof -
  have "chunk_count content * 8187 \<le> length content + 8186"
    by (simp add: chunk_count_def)
  moreover have "(i + 1) * 8187 \<le> chunk_count content * 8187"
    using assms by (intro mult_le_mono1) simp
  ultimately show ?thesis
    by simp
qed

lemma chunk_after_count: "chunk_count content \<le> i \<Longrightarrow> drop (i * 8187) content = []"
proof -
  assume i: "chunk_count content \<le> i"
  have "length content + 8186 < (chunk_count content + 1) * 8187"
    unfolding chunk_count_def max_content using dividend_less_div_times [of 8187 "length content + 8186"]
    by (simp add: add.commute)
  moreover have "chunk_count content * 8187 \<le> i * 8187"
    using i by simp
  ultimately show "drop (i * 8187) content = []"
    by simp
qed

lemma full_chunk: "i + 1 < chunk_count content \<Longrightarrow> length (chunk content i) = 8187"
  using chunk_before_count [of "i + 1" content] by (simp add: chunk_def)

lemma length_chunk: "length (chunk content i) = min (length content) (i * 8187 + 8187) - i * 8187"
  by (auto simp: chunk_def min_def)

lemma drop_chunk: "drop (i * 8187) content = chunk content i @ drop ((i + 1) * 8187) content"
  unfolding chunk_def using append_take_drop_id [of 8187 "drop (i * 8187) content"] by (simp add: add.commute)

text \<open>The user id goes only with the first frame, so a record that holds it holds one frame.\<close>

lemma first_frame_alone:
  assumes "plan_fits e (length (chunk content i)) c 8192 p" and "ve_first_frame e" and "i < chunk_count content"
  shows "i + 1 = chunk_count content"
proof (rule ccontr)
  assume "\<not> ?thesis"
  then have "length (chunk content i) = 8187"
    using assms(3) full_chunk by simp
  then show False
    using assms(1,2) by (auto simp: plan_fits_def wire_len_def vision_consts)
qed

lemma slot_ok_same:
  "same_but_padding e e' \<Longrightarrow> slots_ok e' content c i ss = slots_ok e content c i ss"
  by (induction ss arbitrary: i) (auto simp: slot_ok_def plan_fits_def same_but_padding_fields)

lemma same_but_padding_trans: "same_but_padding a b \<Longrightarrow> same_but_padding b c \<Longrightarrow> same_but_padding a c"
  by (cases a; cases b; cases c; simp add: same_but_padding_def)

lemma same_but_padding_refl [simp]: "same_but_padding e e"
  by (simp add: same_but_padding_def)

lemma pack_frames_Ok:
  assumes "pack_frames ks content c long i slots wire e = Some (Ok (ps, wire'), e')" and "wire \<le> 16384"
  shows "same_but_padding e e' \<and> slots_ok e content c i ps \<and> wire' = wire + slots_len ps \<and> wire' \<le> 16384
    \<and> (ps = [] \<or> \<not> ve_finished e) \<and> i + length ps \<le> max i (chunk_count content)
    \<and> (ve_first_frame e \<longrightarrow> length ps \<le> 1)"
  using assms
proof (induction slots arbitrary: i wire e ps wire' e')
  case (Suc slots)
  let ?n = "min (length content) (i * 8187 + 8187) - i * 8187"
  show ?case
  proof (cases "i < chunk_count content")
    case True
    obtain r e1 where pw: "plan_within ks ?n (slot_command content c i) long (16384 - wire) e = Some (r, e1)"
      using Suc.prems(1) True
      by (auto simp: Let_def slot_command_def MAX_PLAINTEXT_LEN_def split: option.splits)
    note pws = plan_within_Some [OF pw]
    show ?thesis
    proof (cases "\<exists>p. r = Ok (Some p)")
      case False
      then have "ps = []" "wire' = wire" "e' = e1"
        using Suc.prems(1) True pw
        by (auto simp: Let_def slot_command_def MAX_PLAINTEXT_LEN_def split: sum.splits option.splits)
      then show ?thesis
        using pws(1) Suc.prems(2) by simp
    next
      case some: True
      then obtain p where p: "r = Ok (Some p)"
        by blast
      then obtain ps1 where rest: "pack_frames ks content c long (i + 1) slots (wire + wire_len p) e1
          = Some (Ok (ps1, wire'), e')" "ps = (p, i * 8187, min (length content) (i * 8187 + 8187)) # ps1"
        using Suc.prems(1) True pw
        by (auto simp: Let_def slot_command_def MAX_PLAINTEXT_LEN_def result_simps)
      have fits: "\<not> ve_finished e" "plan_fits e ?n (slot_command content c i) (min 8192 (16384 - wire)) p"
        using pws(2) [OF p] by auto
      then have room: "wire + wire_len p \<le> 16384" and fit: "plan_fits e (length (chunk content i)) (slot_command content c i) 8192 p"
        using Suc.prems(2) by (auto simp: plan_fits_def length_chunk)
      note IH = Suc.IH [OF rest(1) room]
      have "ps1 = []" if "ve_first_frame e"
        using first_frame_alone [OF fit that True] IH by auto
      moreover have "slot_ok e content c i (p, i * 8187, min (length content) (i * 8187 + 8187))"
        using fit chunk_before_count [OF True] by (simp add: slot_ok_def)
      ultimately show ?thesis
        using IH rest(2) fits(1) True same_but_padding_trans [OF pws(1)] slot_ok_same [OF pws(1)] by auto
    qed
  qed (use Suc.prems in simp)
qed simp

section \<open>What a round writes\<close>

fun slots_bytes :: "bytes \<Rightarrow> bytes \<Rightarrow> nat \<Rightarrow> (vision_frame_plan \<times> nat \<times> nat) list \<Rightarrow> bytes" where
  "slots_bytes user content i [] = []"
| "slots_bytes user content i (s # ss) =
    frame_bytes user (fst s) (chunk content i) @ slots_bytes user content (i + 1) ss"

lemma slot_chunk:
  assumes "slot_ok e content c i (p, start, end')"
  shows "take (end' - start) (drop start content) = chunk content i" "end' \<le> length content" "start \<le> end'"
    "length (chunk content i) = unat (fp_content_length p)" "wire_len p \<le> 8192" "include_user_id p = ve_first_frame e"
    "fp_command p = slot_command content c i"
  using assms by (auto simp: slot_ok_def plan_fits_def chunk_def min_def)

lemma assemble_slots_eq:
  assumes "length (ve_user_id e) = 16" and "slots_ok e content c i ps" and "length rest = slots_len ps"
  shows "assemble_slots e content ps (length pre) (pre @ rest) = pre @ slots_bytes (ve_user_id e) content i ps"
  using assms(2,3)
proof (induction ps arbitrary: i pre rest)
  case (Cons s ps)
  obtain p start end' where s: "s = (p, start, end')"
    by (cases s) auto
  note sc = slot_chunk [of e content c i p start end']
  have ok: "slot_ok e content c i (p, start, end')" "slots_ok e content c (i + 1) ps"
    using Cons.prems(1) s by auto
  let ?f = "frame_bytes (ve_user_id e) p (chunk content i)"
  have frame: "assemble e p (chunk content i) (take (wire_len p) rest) = ?f"
    using Cons.prems(2) s assms(1) sc(4) [OF ok(1)] by (intro assemble_eq) auto
  have len: "length ?f = wire_len p"
    using assms(1) sc(4) [OF ok(1)] by (intro length_frame_bytes) auto
  have "write_at (length pre) ?f (pre @ rest) = (pre @ ?f) @ drop (wire_len p) rest"
    using len write_at_append [of pre "length pre" ?f rest] by simp
  then have "assemble_slots e content (s # ps) (length pre) (pre @ rest)
      = assemble_slots e content ps (length (pre @ ?f)) ((pre @ ?f) @ drop (wire_len p) rest)"
    using s sc(1-3) [OF ok(1)] Cons.prems(2) frame len by (simp add: not_less)
  also have "\<dots> = (pre @ ?f) @ slots_bytes (ve_user_id e) content (i + 1) ps"
    using Cons.prems(2) s by (intro Cons.IH [OF ok(2)]) simp
  finally show ?case
    using s by simp
qed simp

text \<open>Encoder and decoder in step: the next frame the encoder writes is the one the decoder expects.\<close>

definition in_step :: "vision_encoder \<Rightarrow> vision_decoder \<Rightarrow> bool" where
  "in_step e d \<longleftrightarrow> \<not> ve_finished e \<and> at_boundary (ve_user_id e) (ve_first_frame e) d"

lemma slots_decode:
  assumes "slots_ok e content c i ps" and "ps \<noteq> []" and "in_step e d"
    and "ve_first_frame e \<longrightarrow> length ps \<le> 1" and "i + length ps \<le> chunk_count content"
  shows "\<exists>d'. (\<forall>rest out. run_bytes d (slots_bytes (ve_user_id e) content i ps @ rest) out
        = run_bytes d' rest (out @ take (length ps * 8187) (drop (i * 8187) content)))
    \<and> vd_mode d' = mode_after (slot_command content c (i + length ps - 1))
    \<and> (i + length ps < chunk_count content \<or> c = Continue \<longrightarrow> in_step (foldl commit_plan e (map fst ps)) d')"
  using assms
proof (induction ps arbitrary: i e d)
  case (Cons s ps)
  obtain p start end' where s: "s = (p, start, end')"
    by (cases s) auto
  have ok: "slot_ok e content c i (p, start, end')" "slots_ok e content c (i + 1) ps"
    using Cons.prems(1) s by auto
  note sc = slot_chunk [OF ok(1)]
  have "at_boundary (ve_user_id e) (include_user_id p) d"
    using Cons.prems(3) sc(6) by (simp add: in_step_def)
  from run_frame [OF this sc(5,4)]
  obtain d1 where d1: "\<And>rest out. run_bytes d (slots_bytes (ve_user_id e) content i (s # ps) @ rest) out
      = run_bytes d1 (slots_bytes (ve_user_id e) content (i + 1) ps @ rest) (out @ chunk content i)"
    "vd_mode d1 = mode_after (fp_command p)" "fp_command p = Continue \<longrightarrow> at_boundary (ve_user_id e) False d1"
    using s by auto
  let ?e1 = "commit_plan e p"
  have e1: "ve_user_id ?e1 = ve_user_id e" "\<not> ve_first_frame ?e1"
    by (simp_all add: commit_plan_def)
  have step: "in_step ?e1 d1" if "fp_command p = Continue"
    using d1(3) that by (simp add: in_step_def commit_plan_def)
  show ?case
  proof (cases "ps = []")
    case True
    have "in_step ?e1 d1" if "i + 1 < chunk_count content \<or> c = Continue"
      using that sc(7) by (intro step) (auto simp: slot_command_def)
    then show ?thesis
      using d1(1,2) True s sc(7) by (auto simp: chunk_def)
  next
    case False
    then have more: "\<not> ve_first_frame e" "i + 1 < chunk_count content"
      using Cons.prems(4,5) by (cases ps; auto)+
    then have cont: "fp_command p = Continue"
      using sc(7) by (simp add: slot_command_def)
    have "slots_ok ?e1 content c (i + 1) ps = slots_ok e content c (i + 1) ps"
      using more(1) by (induction ps arbitrary: i) (auto simp: slot_ok_def plan_fits_def commit_plan_def)
    then obtain d' where d': "\<And>rest out. run_bytes d1 (slots_bytes (ve_user_id e) content (i + 1) ps @ rest) out
        = run_bytes d' rest (out @ take (length ps * 8187) (drop ((i + 1) * 8187) content))"
      "vd_mode d' = mode_after (slot_command content c (i + 1 + length ps - 1))"
      "i + 1 + length ps < chunk_count content \<or> c = Continue \<longrightarrow> in_step (foldl commit_plan ?e1 (map fst ps)) d'"
      using Cons.IH [of ?e1 "i + 1" d1] ok(2) False step [OF cont] e1 Cons.prems(5) by auto
    have "length (chunk content i) = 8187"
      using full_chunk more(2) by simp
    then have "take (length (s # ps) * 8187) (drop (i * 8187) content)
        = chunk content i @ take (length ps * 8187) (drop ((i + 1) * 8187) content)"
      unfolding drop_chunk [of i content] by simp
    then show ?thesis
      using d1(1) d' s by (auto simp: add.commute)
  qed
qed simp

section \<open>Whole contents\<close>

lemma pack_frames_progress:
  assumes "pack_frames ks content c long i (Suc slots) 0 e = Some (Ok (ps, wire), e')" and "i < chunk_count content"
  shows "ps \<noteq> []"
proof
  assume "ps = []"
  then obtain e1 where "plan_within ks (min (length content) (i * 8187 + 8187) - i * 8187)
      (slot_command content c i) long 16384 e = Some (Ok None, e1)"
    using assms
    by (auto simp: Let_def slot_command_def MAX_PLAINTEXT_LEN_def result_simps split: option.splits sum.splits)
  then have "16384 < prefix_length e + (min (length content) (i * 8187 + 8187) - i * 8187)"
    using plan_within_Some(3) by blast
  then show False
    by (auto simp: prefix_length_def vision_consts split: if_splits)
qed

lemma write_assembled_Ok:
  assumes "write_assembled w n f = (Ok u, w')"
  shows "n \<le> 16384 \<and> tw_records w' = tw_records w @ [f (replicate n 0)]"
  using assms by (auto simp: write_assembled_def MAX_PLAINTEXT_LEN_def split: if_splits list.splits bool.splits)

lemma commit_user: "ve_user_id (foldl commit_plan e ps) = ve_user_id e"
  by (induction ps arbitrary: e) (simp_all add: commit_plan_def)

text \<open>What the records a write added mean to the peer's decoder.\<close>

definition delivers ::
  "vision_encoder \<Rightarrow> vision_decoder \<Rightarrow> bytes \<Rightarrow> vision_command \<Rightarrow> tls_writer \<Rightarrow> tls_writer \<Rightarrow> vision_encoder \<Rightarrow> bool"
where
  "delivers e d content c w w' e' \<longleftrightarrow>
    (\<exists>recs d'. tw_records w' = tw_records w @ recs \<and> (\<forall>r \<in> set recs. length r \<le> 16384)
       \<and> (\<forall>rest out. run_bytes d (concat recs @ rest) out = run_bytes d' rest (out @ content))
       \<and> vd_mode d' = mode_after c \<and> ve_user_id e' = ve_user_id e \<and> (c = Continue \<longrightarrow> in_step e' d'))"

lemma round_delivers:
  assumes pack: "pack_frames ks content c long i MAX_FRAMES_PER_OUTER_RECORD 0 e = Some (Ok (ps, wire), e1)"
    and i: "i < chunk_count content" and step: "in_step e d" and user: "length (ve_user_id e) = 16"
    and w: "write_assembled w wire (assemble_slots e1 content ps 0) = (Ok u, w1)"
  obtains r d1 where "tw_records w1 = tw_records w @ [r]" "length r \<le> 16384" "ps \<noteq> []" "i + length ps \<le> chunk_count content"
    "\<And>rest out. run_bytes d (r @ rest) out = run_bytes d1 rest (out @ take (length ps * 8187) (drop (i * 8187) content))"
    "vd_mode d1 = mode_after (slot_command content c (i + length ps - 1))"
    "i + length ps < chunk_count content \<or> c = Continue \<Longrightarrow> in_step (foldl commit_plan e1 (map fst ps)) d1"
    "ve_user_id e1 = ve_user_id e"
proof -
  have ps: "ps \<noteq> []"
    using pack_frames_progress [of ks content c long i 3 e ps wire e1] pack i by (simp add: MAX_FRAMES_PER_OUTER_RECORD_def)
  have pk: "same_but_padding e e1" "slots_ok e content c i ps" "wire = slots_len ps" "i + length ps \<le> chunk_count content"
    "ve_first_frame e \<longrightarrow> length ps \<le> 1"
    using pack_frames_Ok [OF pack] i by auto
  note e1 = same_but_padding_fields [OF pk(1)] and slots1 = slot_ok_same [OF pk(1)]
  have step1: "in_step e1 d"
    using step e1 by (simp add: in_step_def)
  define r where "r = slots_bytes (ve_user_id e) content i ps"
  have "assemble_slots e1 content ps 0 (replicate wire 0) = r"
    using assemble_slots_eq [of e1 content c i ps "replicate wire 0" "[]"] user pk(2,3) slots1 e1 by (simp add: r_def)
  then have w1: "tw_records w1 = tw_records w @ [r]" "wire \<le> 16384"
    using write_assembled_Ok [OF w] by simp_all
  have len: "length (slots_bytes (ve_user_id e) content i ps) = slots_len ps"
    using pk(2)
  proof (induction ps arbitrary: i)
    case (Cons s ps)
    then show ?case
      using length_frame_bytes [OF user] slot_chunk(4) [of e content c i] by (cases s) auto
  qed simp
  obtain d1 where "\<And>rest out. run_bytes d (r @ rest) out
      = run_bytes d1 rest (out @ take (length ps * 8187) (drop (i * 8187) content))"
    "vd_mode d1 = mode_after (slot_command content c (i + length ps - 1))"
    "i + length ps < chunk_count content \<or> c = Continue \<longrightarrow> in_step (foldl commit_plan e1 (map fst ps)) d1"
    using slots_decode [OF _ ps step1 _ pk(4), of c] pk(2,5) slots1 e1 unfolding r_def by metis
  then show thesis
    using that [of r d1] w1 len pk(3,4) ps e1(1) unfolding r_def by auto
qed

lemma content_loop_round:
  assumes "content_loop ks content c long i w e = Some (Ok u, w', e')" and "i < chunk_count content"
  obtains ps wire e1 w1
  where "pack_frames ks content c long i MAX_FRAMES_PER_OUTER_RECORD 0 e = Some (Ok (ps, wire), e1)"
    "write_assembled w wire (assemble_slots e1 content ps 0) = (Ok (), w1)"
    "content_loop ks content c long (i + length ps) w1 (foldl commit_plan e1 (map fst ps)) = Some (Ok u, w', e')"
proof -
  note eq = content_loop.simps [of ks content c long i w e]
  obtain r e1 where pack: "pack_frames ks content c long i MAX_FRAMES_PER_OUTER_RECORD 0 e = Some (r, e1)"
    using assms eq by (cases "pack_frames ks content c long i MAX_FRAMES_PER_OUTER_RECORD 0 e") auto
  then obtain ps wire where r: "r = Ok (ps, wire)"
    using assms eq by (cases r) auto
  obtain v w1 where wr: "write_assembled w wire (assemble_slots e1 content ps 0) = (v, w1)"
    by (cases "write_assembled w wire (assemble_slots e1 content ps 0)") auto
  then have "v = Ok ()"
    using assms eq pack r by (cases v) auto
  then show thesis
    using that [of ps wire e1 w1] assms eq pack r wr by simp
qed

lemma content_loop_delivers:
  assumes "content_loop ks content c long i w e = Some (Ok u, w', e')"
    and "i < chunk_count content" and "in_step e d" and "length (ve_user_id e) = 16"
  shows "delivers e d (drop (i * 8187) content) c w w' e'"
  using assms
proof (induction "chunk_count content - i" arbitrary: i w e d rule: less_induct)
  case less
  obtain ps wire e1 w1 where pack: "pack_frames ks content c long i MAX_FRAMES_PER_OUTER_RECORD 0 e = Some (Ok (ps, wire), e1)"
    and wr: "write_assembled w wire (assemble_slots e1 content ps 0) = (Ok (), w1)"
    and loop: "content_loop ks content c long (i + length ps) w1 (foldl commit_plan e1 (map fst ps)) = Some (Ok u, w', e')"
    using less.prems(1,2) by (rule content_loop_round)
  obtain r d1 where rd: "tw_records w1 = tw_records w @ [r]" "length r \<le> 16384" "ps \<noteq> []" "i + length ps \<le> chunk_count content"
    "\<And>rest out. run_bytes d (r @ rest) out = run_bytes d1 rest (out @ take (length ps * 8187) (drop (i * 8187) content))"
    "vd_mode d1 = mode_after (slot_command content c (i + length ps - 1))"
    "i + length ps < chunk_count content \<or> c = Continue \<Longrightarrow> in_step (foldl commit_plan e1 (map fst ps)) d1"
    "ve_user_id e1 = ve_user_id e"
    using round_delivers [OF pack less.prems(2,3,4) wr] by blast
  let ?e2 = "foldl commit_plan e1 (map fst ps)"
  have user: "ve_user_id ?e2 = ve_user_id e"
    using rd(8) commit_user by simp
  let ?rest = "drop ((i + length ps) * 8187) content"
  have split: "take (length ps * 8187) (drop (i * 8187) content) @ ?rest = drop (i * 8187) content"
    using append_take_drop_id [of "length ps * 8187" "drop (i * 8187) content"] by (simp add: distrib_right add.commute)
  show ?case
  proof (cases "i + length ps < chunk_count content")
    case True
    have "chunk_count content - (i + length ps) < chunk_count content - i"
      using True rd(3) by (cases ps) auto
    then have "delivers ?e2 d1 ?rest c w1 w' e'"
      using less.hyps [OF _ loop True rd(7)] True user less.prems(4) by simp
    then obtain recs d' where "tw_records w' = tw_records w1 @ recs" "\<forall>r \<in> set recs. length r \<le> 16384"
      "\<And>rest out. run_bytes d1 (concat recs @ rest) out = run_bytes d' rest (out @ drop ((i + length ps) * 8187) content)"
      "vd_mode d' = mode_after c" "ve_user_id e' = ve_user_id ?e2" "c = Continue \<longrightarrow> in_step e' d'"
      unfolding delivers_def by blast
    then show ?thesis
      unfolding delivers_def
      using rd(1,2,5) user split by (intro exI [of _ "r # recs"] exI [of _ d']) simp
  next
    case False
    then have last: "i + length ps = chunk_count content"
      using rd(4) by simp
    have "content_loop ks content c long (i + length ps) w1 ?e2 = Some (Ok (), w1, ?e2)"
      by (subst content_loop.simps) (simp add: last)
    then have "w' = w1" "e' = ?e2" "?rest = []"
      using loop chunk_after_count [of content "i + length ps"] last by simp_all
    moreover have "slot_command content c (i + length ps - 1) = c"
      using last rd(3) by (cases ps) (auto simp: slot_command_def)
    ultimately show ?thesis
      unfolding delivers_def using rd split user by (intro exI [of _ "[r]"] exI [of _ d1]) simp
  qed
qed

lemma write_vision_frame_Ok:
  assumes "write_vision_frame ks content c long w e = Some (Ok u, w', e')"
  obtains p e1 where "plan_frame ks (length content) c long e = Some (Ok p, e1)"
    "write_assembled w (wire_len p) (assemble e1 p content) = (Ok (), w')" "e' = commit_plan e1 p"
proof -
  obtain r e1 where plan: "plan_frame ks (length content) c long e = Some (r, e1)"
    using assms by (auto simp: write_vision_frame_def)
  then obtain p where r: "r = Ok p"
    using assms by (cases r) (auto simp: write_vision_frame_def)
  obtain v w1 where wr: "write_assembled w (wire_len p) (assemble e1 p content) = (v, w1)"
    by (cases "write_assembled w (wire_len p) (assemble e1 p content)") auto
  then show thesis
    using that [of p e1] assms plan r by (cases v) (auto simp: write_vision_frame_def)
qed

lemma write_vision_frame_delivers:
  assumes "write_vision_frame ks content c long w e = Some (Ok u, w', e')"
    and "in_step e d" and "length (ve_user_id e) = 16"
  shows "delivers e d content c w w' e'"
proof -
  obtain p e1 where p: "plan_frame ks (length content) c long e = Some (Ok p, e1)"
    and wr: "write_assembled w (wire_len p) (assemble e1 p content) = (Ok (), w')" and e': "e' = commit_plan e1 p"
    using assms(1) by (rule write_vision_frame_Ok)
  note pf = plan_frame_Some(1) [OF p] plan_frame_Some(2) [OF p refl]
  note e1 = same_but_padding_fields [OF pf(1)]
  have len: "length content = unat (fp_content_length p)" "wire_len p \<le> 8192" "include_user_id p = ve_first_frame e"
    "fp_command p = c"
    using pf(2) by (auto simp: plan_fits_def)
  have recs: "tw_records w' = tw_records w @ [frame_bytes (ve_user_id e) p content]"
    using write_assembled_Ok [OF wr] assemble_eq [of e1 content p "replicate (wire_len p) 0"] len assms(3) e1 by simp
  have "at_boundary (ve_user_id e) (include_user_id p) d"
    using assms(2) len(3) by (simp add: in_step_def)
  from run_frame [OF this len(2,1)] obtain d' where
    d': "\<And>rest out. run_bytes d (frame_bytes (ve_user_id e) p content @ rest) out = run_bytes d' rest (out @ content)"
      "vd_mode d' = mode_after c" "c = Continue \<longrightarrow> at_boundary (ve_user_id e) False d'"
    using len(4) by auto
  then show ?thesis
    unfolding delivers_def using recs e' e1 len length_frame_bytes [OF assms(3) len(1)]
    by (intro exI [of _ "[frame_bytes (ve_user_id e) p content]"] exI [of _ d'])
       (auto simp: in_step_def commit_plan_def)
qed

lemma write_vision_content_delivers:
  assumes "write_vision_content ks content c long w e = Some (Ok u, w', e')"
    and "in_step e d" and "length (ve_user_id e) = 16"
  shows "delivers e d content c w w' e'"
proof (cases "content = []")
  case False
  then have "0 < chunk_count content"
    using chunk_after_count [of content 0] by (cases "chunk_count content") auto
  then show ?thesis
    using content_loop_delivers [of ks content c long 0 w e u w' e' d] assms False by (simp add: write_vision_content_def)
qed (use write_vision_frame_delivers assms in \<open>auto simp: write_vision_content_def\<close>)

section \<open>Every write returns\<close>

text \<open>The keystream lets every rejection sampling of a padding length end.\<close>

definition draws_end :: "keystream \<Rightarrow> bool" where
  "draws_end ks \<longleftrightarrow> (\<forall>r. below ks DEFAULT_LONG_PADDING_RANGE r \<noteq> None \<and> below ks DEFAULT_SHORT_PADDING_RANGE r \<noteq> None)"

lemma plan_capped_returns: "draws_end ks \<Longrightarrow> plan_capped ks n c long m e \<noteq> None"
  by (auto simp: draws_end_def plan_capped_def choose_padding_length_def random_below_def)

lemma plan_returns:
  assumes "draws_end ks"
  shows "plan_frame ks n c long e \<noteq> None" "plan_within ks n c long budget e \<noteq> None"
  using plan_capped_returns [OF assms]
  by (simp_all add: plan_frame_def plan_within_def del: not_None_eq split: sum.splits)

lemma pack_frames_returns: "draws_end ks \<Longrightarrow> pack_frames ks content c long i slots wire e \<noteq> None"
proof (induction slots arbitrary: i wire e)
  case (Suc slots)
  let ?plan = "plan_within ks (min (length content) (i * 8187 + 8187) - i * 8187) (slot_command content c i)
    long (MAX_PLAINTEXT_LEN - wire) e"
  obtain r e1 where plan: "?plan = Some (r, e1)"
    using plan_returns(2) [OF Suc.prems] by fastforce
  have rest: "pack_frames ks content c long j slots v e' \<noteq> None" for j v e'
    using Suc by blast
  show ?case
    using plan rest by (auto simp del: not_None_eq simp: Let_def slot_command_def split: option.splits sum.splits)
qed simp

lemma content_loop_returns:
  assumes "draws_end ks"
  shows "content_loop ks content c long i w e \<noteq> None"
proof (induction "chunk_count content - i" arbitrary: i w e rule: less_induct)
  case less
  note eq = content_loop.simps [of ks content c long i w e]
  obtain r e1 where pack: "pack_frames ks content c long i MAX_FRAMES_PER_OUTER_RECORD 0 e = Some (r, e1)"
    using pack_frames_returns [OF assms] by fastforce
  show ?case
  proof (cases "\<exists>ps wire. i < chunk_count content \<and> r = Ok (ps, wire)")
    case True
    then obtain ps wire where i: "i < chunk_count content" and r: "r = Ok (ps, wire)"
      by blast
    have "ps \<noteq> []"
      using pack_frames_progress [of ks content c long i 3 e ps wire e1] pack i r by (simp add: MAX_FRAMES_PER_OUTER_RECORD_def)
    then have "chunk_count content - (i + length ps) < chunk_count content - i"
      using i by (cases ps) auto
    then show ?thesis
      using eq pack i r less.hyps [of "i + length ps"] by (auto split: prod.splits sum.splits)
  next
    case False
    then show ?thesis
      using eq pack by (cases r) auto
  qed
qed

lemma write_vision_content_returns:
  assumes "draws_end ks"
  shows "write_vision_content ks content c long w e \<noteq> None"
  using content_loop_returns [OF assms] plan_returns(1) [OF assms]
  by (simp add: write_vision_content_def write_vision_frame_def del: not_None_eq)

end
