(* ===== verification/Nested_Tls.thy ===== *)
theory Nested_Tls
  imports Vision_Framing
begin

text \<open>
  The destination side of the downlink: the buffered reader of nested TLS records and the
  detector that decides how each is framed, both of \<open>src/server/vision/nested.rs\<close>.  The socket
  is the list of segments its reads return and a flag for an I/O error at the end; allocation
  failure is not modelled, and once session activity is attached reads have no deadline.
\<close>

section \<open>The reader\<close>

definition NESTED_TLS_HEADER_SIZE :: nat where "NESTED_TLS_HEADER_SIZE = 5"
definition MAX_NESTED_TLS_RECORD_SIZE :: nat where "MAX_NESTED_TLS_RECORD_SIZE = 2 ^ 14 + 2048"
definition NESTED_SOCKET_BUFFER_CAPACITY :: nat where
  "NESTED_SOCKET_BUFFER_CAPACITY = 4 * (NESTED_TLS_HEADER_SIZE + MAX_NESTED_TLS_RECORD_SIZE)"

lemmas nested_consts = NESTED_TLS_HEADER_SIZE_def MAX_NESTED_TLS_RECORD_SIZE_def NESTED_SOCKET_BUFFER_CAPACITY_def

lemma capacity_positive [simp]: "0 < NESTED_SOCKET_BUFFER_CAPACITY"
  by (simp add: nested_consts)

datatype nested_read = NestedEof | NestedRecord bytes | Unframed bytes

datatype nested_error = NestedIo | DestinationTruncatedTlsRecord

record nested_reader =
  nr_io :: "bytes list"
  nr_fails :: bool
  socket_buffer :: bytes
  buffered_start :: nat
  buffered_end :: nat

definition nested_new :: "bytes list \<Rightarrow> bool \<Rightarrow> nested_reader" where
  "nested_new io fails = \<lparr>nr_io = io, nr_fails = fails, socket_buffer = [], buffered_start = 0, buffered_end = 0\<rparr>"

text \<open>The bytes between the two cursors.\<close>

definition buffered :: "nested_reader \<Rightarrow> bytes" where
  "buffered r = take (buffered_end r - buffered_start r) (drop (buffered_start r) (socket_buffer r))"

text \<open>Allocation, compaction and growth before a socket read.\<close>

definition nested_make_room :: "nested_reader \<Rightarrow> nested_reader" where
  "nested_make_room r =
    (let r1 = (if socket_buffer r = []
               then r\<lparr>socket_buffer := replicate NESTED_SOCKET_BUFFER_CAPACITY 0\<rparr> else r);
         r2 = (if buffered_start r1 = buffered_end r1 then r1\<lparr>buffered_start := 0, buffered_end := 0\<rparr>
               else if length (socket_buffer r1) - buffered_end r1
                       < NESTED_TLS_HEADER_SIZE + MAX_NESTED_TLS_RECORD_SIZE
               then r1\<lparr>socket_buffer := write_at 0 (buffered r1) (socket_buffer r1),
                       buffered_start := 0, buffered_end := buffered_end r1 - buffered_start r1\<rparr>
               else r1)
     in if buffered_end r2 = length (socket_buffer r2)
        then r2\<lparr>socket_buffer := socket_buffer r2 @ replicate NESTED_SOCKET_BUFFER_CAPACITY 0\<rparr>
        else r2)"

definition nested_refill :: "nested_reader \<Rightarrow> (nested_error + bool) \<times> nested_reader" where
  "nested_refill r =
    (let r1 = nested_make_room r;
         (chunk, io) = read_some (length (socket_buffer r1) - buffered_end r1) (nr_io r1)
     in if chunk = [] then (if nr_fails r1 then Err NestedIo else Ok False, r1\<lparr>nr_io := io\<rparr>)
        else (Ok True, r1\<lparr>nr_io := io, socket_buffer := write_at (buffered_end r1) chunk (socket_buffer r1),
                         buffered_end := buffered_end r1 + length chunk\<rparr>))"

definition could_be_tls_record_header :: "bytes \<Rightarrow> bool" where
  "could_be_tls_record_header prefix \<longleftrightarrow>
    (prefix = [] \<or> prefix ! 0 \<in> {20, 21, 22, 23})
    \<and> (length prefix \<le> 1 \<or> prefix ! 1 = 0x03)
    \<and> (length prefix \<le> 2 \<or> prefix ! 2 \<le> 0x04)"

lemma make_room_io [simp]: "nr_io (nested_make_room r) = nr_io r" "nr_fails (nested_make_room r) = nr_fails r"
  by (simp_all add: nested_make_room_def Let_def)

lemma refill_consumes:
  assumes "nested_refill r = (Ok True, r')"
  shows "length (concat (nr_io r')) < length (concat (nr_io r))"
proof -
  obtain n where "nr_io r' = snd (read_some n (nr_io r))" "fst (read_some n (nr_io r)) \<noteq> []"
    using assms by (auto simp: nested_refill_def Let_def split: prod.splits if_splits) (metis fst_conv snd_conv)
  then show ?thesis
    using arg_cong [OF concat_read_some [of n "nr_io r"], of length] by (cases "fst (read_some n (nr_io r))") auto
qed

text \<open>
  The first loop of \<open>next\<close>: it ends with a complete header in the buffer, or with the outcome
  of a stream that cannot be TLS or has ended.
\<close>

function header_loop :: "nested_reader \<Rightarrow> (nested_error + nested_read option) \<times> nested_reader" where
  "header_loop r =
    (if buffered_end r - buffered_start r \<ge> NESTED_TLS_HEADER_SIZE then (Ok None, r)
     else if \<not> could_be_tls_record_header (buffered r)
     then (Ok (Some (Unframed (buffered r))), r\<lparr>buffered_start := buffered_end r\<rparr>)
     else case nested_refill r of
         (Inl e, r') \<Rightarrow> (Err e, r')
       | (Inr True, r') \<Rightarrow> header_loop r'
       | (Inr False, r') \<Rightarrow>
           if buffered_end r' - buffered_start r' = 0 then (Ok (Some NestedEof), r')
           else (Ok (Some (Unframed (buffered r'))), r'\<lparr>buffered_start := buffered_end r'\<rparr>))"
  by pat_completeness auto
termination
  by (relation "measure (\<lambda>r. length (concat (nr_io r)))") (auto dest: refill_consumes [OF sym])

function body_loop :: "nat \<Rightarrow> nested_reader \<Rightarrow> (nested_error + unit) \<times> nested_reader" where
  "body_loop record_length r =
    (if buffered_end r - buffered_start r \<ge> record_length then (Ok (), r)
     else case nested_refill r of
         (Inl e, r') \<Rightarrow> (Err e, r')
       | (Inr True, r') \<Rightarrow> body_loop record_length r'
       | (Inr False, r') \<Rightarrow> (Err DestinationTruncatedTlsRecord, r'))"
  by pat_completeness auto
termination
  by (relation "measure (\<lambda>(_, r). length (concat (nr_io r)))") (auto dest: refill_consumes [OF sym])

declare header_loop.simps [simp del] body_loop.simps [simp del]

definition nested_next :: "nested_reader \<Rightarrow> (nested_error + nested_read) \<times> nested_reader" where
  "nested_next r =
    (case header_loop r of
       (Inl e, r1) \<Rightarrow> (Err e, r1)
     | (Inr (Some out), r1) \<Rightarrow> (Ok out, r1)
     | (Inr None, r1) \<Rightarrow>
        (let header = take NESTED_TLS_HEADER_SIZE (drop (buffered_start r1) (socket_buffer r1));
             body_length = unat (be_u16 [header ! 3, header ! 4])
         in if \<not> could_be_tls_record_header header \<or> body_length > MAX_NESTED_TLS_RECORD_SIZE
            then (Ok (Unframed header), r1\<lparr>buffered_start := buffered_start r1 + NESTED_TLS_HEADER_SIZE\<rparr>)
            else
             (let record_length = NESTED_TLS_HEADER_SIZE + body_length
              in case body_loop record_length r1 of
                   (Inl e, r2) \<Rightarrow> (Err e, r2)
                 | (Inr _, r2) \<Rightarrow>
                    (Ok (NestedRecord (take record_length (drop (buffered_start r2) (socket_buffer r2)))),
                     r2\<lparr>buffered_start := buffered_start r2 + record_length\<rparr>))))"

text \<open>Taking the transport back, with what the reader still holds.\<close>

definition into_inner_with_pending :: "nested_reader \<Rightarrow> bytes \<times> bytes list" where
  "into_inner_with_pending r = (buffered r, nr_io r)"

text \<open>
  A read of the relay: buffered bytes first, into the first buffer only, otherwise one socket
  read over all of them (\<open>poll_read\<close> is the case of a single buffer).
\<close>

definition nested_read_vectored :: "nat \<Rightarrow> nat \<Rightarrow> nested_reader \<Rightarrow> (nested_error + bytes) \<times> nested_reader" where
  "nested_read_vectored first_len room r =
    (if buffered_end r - buffered_start r > 0
     then (let n = min (buffered_end r - buffered_start r) first_len
           in (Ok (take n (buffered r)), r\<lparr>buffered_start := buffered_start r + n\<rparr>))
     else (let (chunk, io) = read_some room (nr_io r)
           in (if chunk = [] \<and> nr_fails r then Err NestedIo else Ok chunk, r\<lparr>nr_io := io\<rparr>)))"

section \<open>Nothing is lost\<close>

definition nested_ok :: "nested_reader \<Rightarrow> bool" where
  "nested_ok r \<longleftrightarrow> buffered_start r \<le> buffered_end r \<and> buffered_end r \<le> length (socket_buffer r) \<and> [] \<notin> set (nr_io r)"

text \<open>What the destination has sent and nobody has been given yet.\<close>

definition unread :: "nested_reader \<Rightarrow> bytes" where
  "unread r = buffered r @ concat (nr_io r)"

lemma nested_ok_new: "[] \<notin> set io \<Longrightarrow> nested_ok (nested_new io fails)"
  by (simp add: nested_ok_def nested_new_def)

lemma unread_new: "unread (nested_new io fails) = concat io"
  by (simp add: unread_def buffered_def nested_new_def)

lemma length_buffered [simp]: "nested_ok r \<Longrightarrow> length (buffered r) = buffered_end r - buffered_start r"
  by (auto simp: buffered_def nested_ok_def)

lemma compact_buffer:
  assumes "nested_ok r"
  defines "r' \<equiv> r\<lparr>socket_buffer := write_at 0 (buffered r) (socket_buffer r), buffered_start := 0,
                 buffered_end := buffered_end r - buffered_start r\<rparr>"
  shows "nested_ok r'" "buffered r' = buffered r"
proof -
  have len: "length (write_at 0 (buffered r) (socket_buffer r)) = length (socket_buffer r)"
    using assms(1) by (intro length_write_at) (auto simp: nested_ok_def buffered_def)
  then show "nested_ok r'"
    using assms(1) by (auto simp: r'_def nested_ok_def)
  have "take (length (buffered r)) (write_at 0 (buffered r) (socket_buffer r)) = buffered r"
    by (simp add: write_at_def)
  then show "buffered r' = buffered r"
    using length_buffered [OF assms(1)] unfolding r'_def by (simp add: buffered_def [of "_ :: nested_reader"])
qed

lemma make_room:
  assumes "nested_ok r"
  shows "nested_ok (nested_make_room r)" "buffered (nested_make_room r) = buffered r"
    "buffered_end (nested_make_room r) < length (socket_buffer (nested_make_room r))"
proof -
  define r1 where "r1 = (if socket_buffer r = [] then r\<lparr>socket_buffer := replicate NESTED_SOCKET_BUFFER_CAPACITY 0\<rparr> else r)"
  have r1: "nested_ok r1" "buffered r1 = buffered r"
    using assms by (auto simp: r1_def nested_ok_def buffered_def)
  define r2 where "r2 = (if buffered_start r1 = buffered_end r1 then r1\<lparr>buffered_start := 0, buffered_end := 0\<rparr>
      else if length (socket_buffer r1) - buffered_end r1 < NESTED_TLS_HEADER_SIZE + MAX_NESTED_TLS_RECORD_SIZE
      then r1\<lparr>socket_buffer := write_at 0 (buffered r1) (socket_buffer r1), buffered_start := 0,
              buffered_end := buffered_end r1 - buffered_start r1\<rparr> else r1)"
  have empty: "nested_ok (r1\<lparr>buffered_start := 0, buffered_end := 0\<rparr>)"
      "buffered_start r1 = buffered_end r1 \<Longrightarrow> buffered (r1\<lparr>buffered_start := 0, buffered_end := 0\<rparr>) = buffered r1"
    using r1(1) by (simp_all add: nested_ok_def buffered_def)
  have r2: "nested_ok r2" "buffered r2 = buffered r1"
    unfolding r2_def using empty compact_buffer [OF r1(1)] r1(1) by presburger+
  have room: "nested_make_room r = (if buffered_end r2 = length (socket_buffer r2)
      then r2\<lparr>socket_buffer := socket_buffer r2 @ replicate NESTED_SOCKET_BUFFER_CAPACITY 0\<rparr> else r2)"
    unfolding nested_make_room_def Let_def r1_def r2_def ..
  have grown: "buffered (r2\<lparr>socket_buffer := socket_buffer r2 @ zs\<rparr>) = buffered r2" for zs
    using r2(1) by (simp add: buffered_def nested_ok_def)
  show "nested_ok (nested_make_room r)" "buffered (nested_make_room r) = buffered r"
    "buffered_end (nested_make_room r) < length (socket_buffer (nested_make_room r))"
    using r1 r2 grown by (auto simp: room nested_ok_def)
qed

lemma refill_Ok:
  assumes "nested_ok r" and "nested_refill r = (res, r')"
  shows "nested_ok r'" "unread r' = unread r" "nr_fails r' = nr_fails r"
    "res = Ok False \<Longrightarrow> nr_io r' = [] \<and> \<not> nr_fails r" "res = Ok True \<Longrightarrow> nr_io r \<noteq> []"
proof -
  define r1 where "r1 = nested_make_room r"
  note r1 = make_room [OF assms(1), folded r1_def]
  obtain chunk io where c: "read_some (length (socket_buffer r1) - buffered_end r1) (nr_io r1) = (chunk, io)"
    by fastforce
  have io: "nr_io r1 = nr_io r" "nr_fails r1 = nr_fails r" "[] \<notin> set (nr_io r)"
    using r1(1) by (simp_all add: r1_def nested_ok_def)
  have room: "0 < length (socket_buffer r1) - buffered_end r1"
    using r1(3) by simp
  note rs = read_some_nonempty [OF io(3) room]
  have facts: "[] \<notin> set io" "chunk = [] \<longleftrightarrow> nr_io r = []" "chunk @ concat io = concat (nr_io r)"
    "length chunk \<le> length (socket_buffer r1) - buffered_end r1"
    using rs c io(1) concat_read_some [of "length (socket_buffer r1) - buffered_end r1" "nr_io r"]
      length_read_some [of "length (socket_buffer r1) - buffered_end r1" "nr_io r"] by auto
  have ended: "nr_io r = [] \<Longrightarrow> io = []"
    using c io(1) by simp
  have eq: "nested_refill r = (if chunk = [] then (if nr_fails r then Err NestedIo else Ok False, r1\<lparr>nr_io := io\<rparr>)
      else (Ok True, r1\<lparr>nr_io := io, socket_buffer := write_at (buffered_end r1) chunk (socket_buffer r1),
                       buffered_end := buffered_end r1 + length chunk\<rparr>))"
    using c io(2) by (simp add: nested_refill_def Let_def r1_def [symmetric])
  let ?buf = "write_at (buffered_end r1) chunk (socket_buffer r1)"
  have "length ?buf = length (socket_buffer r1)"
    using facts(4) room by (intro length_write_at) simp
  moreover have "take (buffered_end r1 + length chunk - buffered_start r1) (drop (buffered_start r1) ?buf) = buffered r1 @ chunk"
    using r1(1) facts(4) by (auto simp: write_at_def buffered_def nested_ok_def drop_take)
  ultimately show "nested_ok r'" "unread r' = unread r" "nr_fails r' = nr_fails r"
    "res = Ok False \<Longrightarrow> nr_io r' = [] \<and> \<not> nr_fails r" "res = Ok True \<Longrightarrow> nr_io r \<noteq> []"
    using assms(2) r1 facts io ended unfolding eq
    by (auto simp: nested_ok_def unread_def buffered_def split: if_splits)
qed

lemma skip_buffered:
  assumes "nested_ok r" and "n \<le> buffered_end r - buffered_start r"
  defines "r' \<equiv> r\<lparr>buffered_start := buffered_start r + n\<rparr>"
  shows "nested_ok r'" "unread r = take n (buffered r) @ unread r'" "nr_fails r' = nr_fails r"
proof -
  show "nested_ok r'" "nr_fails r' = nr_fails r"
    using assms(1,2) by (auto simp: r'_def nested_ok_def)
  have "buffered r' = drop n (buffered r)"
    using assms(2) by (simp add: r'_def buffered_def drop_take add.commute)
  then show "unread r = take n (buffered r) @ unread r'"
    by (simp add: unread_def r'_def)
qed

lemma skip_all:
  assumes "nested_ok r"
  shows "nested_ok (r\<lparr>buffered_start := buffered_end r\<rparr>)"
    "unread r = buffered r @ unread (r\<lparr>buffered_start := buffered_end r\<rparr>)"
  using assms by (simp_all add: nested_ok_def unread_def buffered_def)

text \<open>The bytes an outcome hands out.\<close>

fun read_bytes :: "nested_read \<Rightarrow> bytes" where
  "read_bytes NestedEof = []"
| "read_bytes (NestedRecord bs) = bs"
| "read_bytes (Unframed bs) = bs"

lemma header_loop_Ok:
  assumes "nested_ok r" and "header_loop r = (res, r')"
  shows "nested_ok r' \<and> nr_fails r' = nr_fails r
    \<and> (res = Ok None \<longrightarrow> unread r' = unread r \<and> 5 \<le> buffered_end r' - buffered_start r')
    \<and> (\<forall>out. res = Ok (Some out) \<longrightarrow> unread r = read_bytes out @ unread r' \<and> \<not> (\<exists>bs. out = NestedRecord bs)
         \<and> (out = NestedEof \<longrightarrow> unread r' = [] \<and> \<not> nr_fails r) \<and> (\<forall>bs. out = Unframed bs \<longrightarrow> bs \<noteq> []))"
  using assms
proof (induction r rule: header_loop.induct)
  case (1 r)
  note eq = header_loop.simps [of r]
  consider "5 \<le> buffered_end r - buffered_start r"
    | "buffered_end r - buffered_start r < 5" "\<not> could_be_tls_record_header (buffered r)"
    | "buffered_end r - buffered_start r < 5" "could_be_tls_record_header (buffered r)"
    by linarith
  then show ?case
  proof cases
    case 1
    then show ?thesis
      using "1.prems" eq by (auto simp: nested_consts)
  next
    case 2
    then have "buffered r \<noteq> []"
      by (auto simp: could_be_tls_record_header_def)
    then show ?thesis
      using "1.prems" eq 2 skip_all [OF "1.prems"(1)] by (auto simp: nested_consts)
  next
    case 3
    obtain res1 r1 where r1: "nested_refill r = (res1, r1)"
      by fastforce
    note rf = refill_Ok [OF "1.prems"(1) r1]
    show ?thesis
    proof (cases res1)
      case (Inl e)
      then show ?thesis
        using "1.prems" eq 3 r1 rf(1,3) by (auto simp: nested_consts)
    next
      case (Inr b)
      show ?thesis
      proof (cases b)
        case True
        then have "header_loop r1 = (res, r')"
          using "1.prems"(2) eq 3 r1 Inr by (simp add: nested_consts)
        then show ?thesis
          using "1.IH" [of res1 r1 b] 3 r1 Inr True rf(1-3) by (auto simp: nested_consts)
      next
        case False
        then have ended: "nr_io r1 = []" "\<not> nr_fails r"
          using rf(4) Inr by simp_all
        then have all: "unread r = buffered r1"
          using rf(2) by (simp add: unread_def)
        have len: "buffered r1 = [] \<longleftrightarrow> buffered_end r1 \<le> buffered_start r1"
          using length_buffered [OF rf(1)] by (metis diff_is_0_eq length_0_conv)
        show ?thesis
          using "1.prems"(2) eq 3 r1 Inr False ended all len rf skip_all [OF rf(1)]
          by (auto simp: nested_consts split: if_splits)
      qed
    qed
  qed
qed

lemma body_loop_Ok:
  assumes "nested_ok r" and "body_loop n r = (res, r')"
  shows "nested_ok r' \<and> nr_fails r' = nr_fails r \<and> unread r' = unread r
    \<and> (\<forall>u. res = Ok u \<longrightarrow> n \<le> buffered_end r' - buffered_start r')"
  using assms
proof (induction n r rule: body_loop.induct)
  case (1 n r)
  obtain res1 r1 where r1: "nested_refill r = (res1, r1)"
    by fastforce
  note rf = refill_Ok [OF "1.prems"(1) r1] and eq = body_loop.simps [of n r]
  show ?case
  proof (cases "n \<le> buffered_end r - buffered_start r")
    case False
    show ?thesis
    proof (cases "res1 = Ok True")
      case True
      then show ?thesis
        using "1.IH" [of res1 r1 True] "1.prems"(2) False r1 rf(1-3) eq by simp
    next
      case no: False
      then show ?thesis
        using "1.prems"(2) False r1 rf(1-3) eq by (cases res1) auto
    qed
  qed (use "1.prems" eq in simp)
qed

text \<open>Whatever \<open>next\<close> returns, it is the front of the stream and the rest is kept.\<close>

lemma nested_next_Ok:
  assumes "nested_ok r" and "nested_next r = (Ok out, r')"
  shows "nested_ok r'" "nr_fails r' = nr_fails r" "unread r = read_bytes out @ unread r'"
    "out = NestedEof \<Longrightarrow> unread r' = [] \<and> \<not> nr_fails r" "out \<noteq> NestedEof \<Longrightarrow> read_bytes out \<noteq> []"
proof -
  obtain res r1 where h: "header_loop r = (res, r1)"
    by fastforce
  note hl = header_loop_Ok [OF assms(1) h]
  have "nested_ok r' \<and> nr_fails r' = nr_fails r \<and> unread r = read_bytes out @ unread r'
    \<and> (out = NestedEof \<longrightarrow> unread r' = [] \<and> \<not> nr_fails r) \<and> (out \<noteq> NestedEof \<longrightarrow> read_bytes out \<noteq> [])"
  proof (cases "res = Ok None")
    case False
    then have "res = Ok (Some out)" "r' = r1"
      using assms(2) h by (auto simp: nested_next_def split: sum.splits option.splits)
    then show ?thesis
      using hl by (cases out) auto
  next
    case True
    then have r1: "nested_ok r1" "nr_fails r1 = nr_fails r" "unread r1 = unread r" "5 \<le> buffered_end r1 - buffered_start r1"
      using hl by auto
    let ?h = "take 5 (drop (buffered_start r1) (socket_buffer r1))"
    let ?n = "5 + unat (be_u16 [?h ! 3, ?h ! 4])"
    have front: "take n (buffered r1) = take n (drop (buffered_start r1) (socket_buffer r1))"
      if "n \<le> buffered_end r1 - buffered_start r1" for r1 :: nested_reader and n
      using that by (simp add: buffered_def)
    have nx: "nested_next r =
        (if \<not> could_be_tls_record_header ?h \<or> unat (be_u16 [?h ! 3, ?h ! 4]) > MAX_NESTED_TLS_RECORD_SIZE
         then (Ok (Unframed ?h), r1\<lparr>buffered_start := buffered_start r1 + 5\<rparr>)
         else case body_loop ?n r1 of
             (Inl e, r2) \<Rightarrow> (Err e, r2)
           | (Inr _, r2) \<Rightarrow> (Ok (NestedRecord (take ?n (drop (buffered_start r2) (socket_buffer r2)))),
                            r2\<lparr>buffered_start := buffered_start r2 + ?n\<rparr>))"
      unfolding nested_next_def h True Let_def NESTED_TLS_HEADER_SIZE_def by (simp only: prod.case sum.case option.case)
    show ?thesis
    proof (cases "\<not> could_be_tls_record_header ?h \<or> unat (be_u16 [?h ! 3, ?h ! 4]) > MAX_NESTED_TLS_RECORD_SIZE")
      case True
      then have "out = Unframed ?h" "r' = r1\<lparr>buffered_start := buffered_start r1 + 5\<rparr>"
        using assms(2) unfolding nx by simp_all
      moreover have "?h \<noteq> []"
        using r1(1,4) by (auto simp: nested_ok_def)
      ultimately show ?thesis
        using skip_buffered [OF r1(1,4)] r1(2,3) front [OF r1(4)] by auto
    next
      case False
      obtain res2 r2 where b: "body_loop ?n r1 = (res2, r2)"
        by fastforce
      then have out: "res2 = Ok ()" "out = NestedRecord (take ?n (drop (buffered_start r2) (socket_buffer r2)))"
        "r' = r2\<lparr>buffered_start := buffered_start r2 + ?n\<rparr>"
        using assms(2) False unfolding nx by (cases res2; simp)+
      have r2: "nested_ok r2" "nr_fails r2 = nr_fails r" "unread r2 = unread r" "?n \<le> buffered_end r2 - buffered_start r2"
        using body_loop_Ok [OF r1(1) b] r1(2,3) out(1) by simp_all
      moreover have "take ?n (drop (buffered_start r2) (socket_buffer r2)) \<noteq> []"
        using r2(1,4) by (auto simp: nested_ok_def)
      ultimately show ?thesis
        using out(2,3) skip_buffered [OF r2(1,4)] front [OF r2(4)] by simp
    qed
  qed
  then show "nested_ok r'" "nr_fails r' = nr_fails r" "unread r = read_bytes out @ unread r'"
    "out = NestedEof \<Longrightarrow> unread r' = [] \<and> \<not> nr_fails r" "out \<noteq> NestedEof \<Longrightarrow> read_bytes out \<noteq> []"
    by blast+
qed

lemma nested_read_vectored_Ok:
  assumes "nested_ok r" and "nested_read_vectored first room r = (Ok bs, r')" and "0 < first" and "0 < room"
  shows "nested_ok r'" "nr_fails r' = nr_fails r" "unread r = bs @ unread r'"
    "bs = [] \<Longrightarrow> unread r' = [] \<and> \<not> nr_fails r" "length bs \<le> max first room"
proof -
  let ?n = "min (buffered_end r - buffered_start r) first"
  have "nested_ok r' \<and> nr_fails r' = nr_fails r \<and> unread r = bs @ unread r'
      \<and> (bs = [] \<longrightarrow> unread r' = [] \<and> \<not> nr_fails r) \<and> length bs \<le> max first room"
  proof (cases "buffered_end r - buffered_start r > 0")
    case True
    then have "nested_read_vectored first room r = (Ok (take ?n (buffered r)), r\<lparr>buffered_start := buffered_start r + ?n\<rparr>)"
      by (simp only: nested_read_vectored_def Let_def if_True)
    then have out: "bs = take ?n (buffered r)" "r' = r\<lparr>buffered_start := buffered_start r + ?n\<rparr>"
      using assms(2) by simp_all
    have "length bs = ?n"
      using out(1) length_buffered [OF assms(1)] by simp
    then have "bs \<noteq> []" "length bs \<le> max first room"
      using True assms(3) by auto
    moreover have "nested_ok r'" "unread r = bs @ unread r'" "nr_fails r' = nr_fails r"
      unfolding out by (rule skip_buffered [OF assms(1)]; simp)+
    ultimately show ?thesis
      by blast
  next
    case False
    then have empty: "buffered r = []" "[] \<notin> set (nr_io r)"
      using assms(1) by (auto simp: buffered_def nested_ok_def)
    obtain chunk io where c: "read_some room (nr_io r) = (chunk, io)"
      by fastforce
    have facts: "chunk = [] \<longleftrightarrow> nr_io r = []" "[] \<notin> set io" "concat (nr_io r) = chunk @ concat io" "length chunk \<le> room"
      using read_some_nonempty [OF empty(2) assms(4)] concat_read_some [of room "nr_io r"]
        length_read_some [of room "nr_io r"] c by simp_all
    have out: "bs = chunk" "r' = r\<lparr>nr_io := io\<rparr>" "chunk = [] \<Longrightarrow> \<not> nr_fails r"
      using assms(2) False c by (auto simp: nested_read_vectored_def split: if_splits)
    have kept: "buffered r' = []" "nested_ok r'" "nr_fails r' = nr_fails r" "nr_io r' = io"
      using empty assms(1) facts(2) unfolding out(2) by (simp_all add: buffered_def nested_ok_def)
    then have "unread r = bs @ unread r'" "bs = [] \<Longrightarrow> unread r' = []"
      using empty(1) facts(1,3) out(1) by (simp_all add: unread_def)
    then show ?thesis
      using kept(2,3) out(1,3) facts(4) by simp
  qed
  then show "nested_ok r'" "nr_fails r' = nr_fails r" "unread r = bs @ unread r'"
    "bs = [] \<Longrightarrow> unread r' = [] \<and> \<not> nr_fails r" "length bs \<le> max first room"
    by blast+
qed

end
