(* ===== verification/Nested_Detect.thy ===== *)
theory Nested_Detect
  imports Vision_Decode
begin

text \<open>
  The detector of \<open>src/server/vision/nested.rs\<close> that watches the destination's TLS records for a
  TLS 1.3 ServerHello and decides how each record is framed.
\<close>

section \<open>The detector\<close>

definition MAX_NESTED_SERVER_HELLO_SIZE :: nat where "MAX_NESTED_SERVER_HELLO_SIZE = 8 * 1024"
definition MAX_CLASSIFICATION_RECORDS :: nat where "MAX_CLASSIFICATION_RECORDS = 8"
definition TLS_HANDSHAKE :: byte where "TLS_HANDSHAKE = 22"
definition TLS_APPLICATION_DATA :: byte where "TLS_APPLICATION_DATA = 23"
definition TLS_SERVER_HELLO :: byte where "TLS_SERVER_HELLO = 2"
definition TLS13_VERSION :: bytes where "TLS13_VERSION = [0x03, 0x04]"
definition TLS_AES_128_CCM_8_SHA256 :: u16 where "TLS_AES_128_CCM_8_SHA256 = 0x1305"

datatype padding_decision = PadContinue | PadEnd | PadDirect

text \<open>The match that turns a decision into the command of the next frames.\<close>

fun decision_command :: "padding_decision \<Rightarrow> vision_command" where
  "decision_command PadContinue = Continue"
| "decision_command PadEnd = End"
| "decision_command PadDirect = Direct"

record nested_detector =
  records_seen :: nat
  server_hello :: bytes
  server_hello_length :: "nat option"
  tls13 :: "bool option"

definition detector_new :: nested_detector where
  "detector_new = \<lparr>records_seen = 0, server_hello = [], server_hello_length = None, tls13 = None\<rparr>"

text \<open>The loop over the extensions, on what is left of them.\<close>

function (sequential) selects_tls13 :: "bytes \<Rightarrow> bool" where
  "selects_tls13 (t1 # t2 # l1 # l2 # rest) =
    (let n = unat (be_u16 [l1, l2])
     in if n > length rest then False
        else if be_u16 [t1, t2] = 43 then take n rest = TLS13_VERSION
        else selects_tls13 (drop n rest))"
| "selects_tls13 _ = False"
  by pat_completeness auto
termination
  by (relation "measure length") auto

definition sub_bytes :: "nat \<Rightarrow> nat \<Rightarrow> bytes \<Rightarrow> bytes option" where
  "sub_bytes at n bs = (if at + n \<le> length bs then Some (take n (drop at bs)) else None)"

definition is_tls13_server_hello :: "bytes \<Rightarrow> bool" where
  "is_tls13_server_hello message =
    (let body = drop 4 message
     in if length message < 4 \<or> length body \<le> 34 then False
        else
         (let cipher_offset = 35 + unat (body ! 34)
          in case sub_bytes cipher_offset 2 body of
               None \<Rightarrow> False
             | Some cipher_bytes \<Rightarrow>
                if be_u16 cipher_bytes = TLS_AES_128_CCM_8_SHA256 then False
                else
                 (case sub_bytes (cipher_offset + 3) 2 body of
                    None \<Rightarrow> False
                  | Some length_bytes \<Rightarrow>
                     (case sub_bytes (cipher_offset + 5) (unat (be_u16 length_bytes)) body of
                        None \<Rightarrow> False
                      | Some extensions \<Rightarrow> selects_tls13 extensions))))"

definition extend_server_hello :: "bytes \<Rightarrow> nat \<Rightarrow> nested_detector \<Rightarrow> nested_detector" where
  "extend_server_hello body expected d =
    d\<lparr>server_hello := server_hello d @ take (expected - length (server_hello d)) body\<rparr>"

definition finish_server_hello :: "nested_detector \<Rightarrow> nested_detector" where
  "finish_server_hello d =
    (case server_hello_length d of
       None \<Rightarrow> d
     | Some expected \<Rightarrow>
        if length (server_hello d) = expected then d\<lparr>tls13 := Some (is_tls13_server_hello (server_hello d))\<rparr>
        else d)"

definition hello_length :: "bytes \<Rightarrow> nat" where
  "hello_length hello = unat (hello ! 1) * 2 ^ 16 + unat (hello ! 2) * 2 ^ 8 + unat (hello ! 3)"

definition observe_server_hello :: "bytes \<Rightarrow> nested_detector \<Rightarrow> nested_detector" where
  "observe_server_hello body d =
    (case server_hello_length d of
       Some expected \<Rightarrow> finish_server_hello (extend_server_hello body expected d)
     | None \<Rightarrow>
        if server_hello d = [] \<and> (body = [] \<or> hd body \<noteq> TLS_SERVER_HELLO) then d
        else
         (let header_bytes = min (4 - length (server_hello d)) (length body);
              d1 = d\<lparr>server_hello := server_hello d @ take header_bytes body\<rparr>
          in if length (server_hello d1) < 4 then d1
             else
              (let total_length = hello_length (server_hello d1) + 4
               in if total_length > MAX_NESTED_SERVER_HELLO_SIZE then d1\<lparr>tls13 := Some False\<rparr>
                  else finish_server_hello
                    (extend_server_hello (drop header_bytes body) total_length
                      (d1\<lparr>server_hello_length := Some total_length\<rparr>)))))"

definition observe :: "bytes \<Rightarrow> nested_detector \<Rightarrow> padding_decision \<times> nested_detector" where
  "observe rec d =
    (let d1 = d\<lparr>records_seen := min 255 (records_seen d + 1)\<rparr>;
         handshake = (rec \<noteq> [] \<and> hd rec = TLS_HANDSHAKE);
         d2 = (if tls13 d1 = None \<and> handshake then observe_server_hello (drop 5 rec) d1 else d1)
     in (case tls13 d2 of
           Some True \<Rightarrow> if rec \<noteq> [] \<and> hd rec = TLS_APPLICATION_DATA then PadDirect else PadContinue
         | Some False \<Rightarrow> PadEnd
         | None \<Rightarrow> if records_seen d2 \<ge> MAX_CLASSIFICATION_RECORDS then PadEnd else PadContinue,
         d2))"

section \<open>The verdict does not depend on the records\<close>

fun observe_all :: "bytes list \<Rightarrow> nested_detector \<Rightarrow> nested_detector" where
  "observe_all [] d = d"
| "observe_all (rec # recs) d = observe_all recs (snd (observe rec d))"

text \<open>What the handshake bytes seen so far say, as one stream that starts with a ServerHello.\<close>

definition hello_verdict :: "bytes \<Rightarrow> bool option" where
  "hello_verdict s =
    (if length s < 4 then None
     else if hello_length s + 4 > MAX_NESTED_SERVER_HELLO_SIZE then Some False
     else if length s < hello_length s + 4 then None
     else Some (is_tls13_server_hello (take (hello_length s + 4) s)))"

text \<open>What the detector holds after the stream \<open>s\<close>.\<close>

definition holds_stream :: "bytes \<Rightarrow> nested_detector \<Rightarrow> bool" where
  "holds_stream s d \<longleftrightarrow> s \<noteq> [] \<and> tls13 d = hello_verdict s
    \<and> (tls13 d = None \<longrightarrow> server_hello d = s
         \<and> server_hello_length d = (if length s < 4 then None else Some (hello_length s + 4)))"

lemma hello_length_prefix: "4 \<le> length s \<Longrightarrow> hello_length (s @ t) = hello_length s" "4 \<le> n \<Longrightarrow> hello_length (take n s) = hello_length s"
  by (simp_all add: hello_length_def nth_append)

lemma verdict_extends: "hello_verdict s = Some b \<Longrightarrow> hello_verdict (s @ t) = Some b"
  by (auto simp: hello_verdict_def hello_length_prefix split: if_splits)

text \<open>Either branch completes the message from the bytes of this record it still lacks.\<close>

lemma complete_hello:
  assumes "4 \<le> length s" and "length s \<le> hello_length s + 4"
    and "hello_length s + 4 \<le> MAX_NESTED_SERVER_HELLO_SIZE"
    and "server_hello d = s" and "server_hello_length d = Some (hello_length s + 4)" and "tls13 d = None"
  shows "holds_stream (s @ body) (finish_server_hello (extend_server_hello body (hello_length s + 4) d))"
proof -
  define n where "n = hello_length s + 4"
  have n: "hello_length (s @ body) + 4 = n" "4 \<le> length (s @ body)"
    using assms(1) by (simp_all add: n_def hello_length_prefix)
  have "server_hello d @ take (n - length (server_hello d)) body = take n (s @ body)"
    using assms(2,4) by (simp add: n_def)
  then have ext: "extend_server_hello body n d = d\<lparr>server_hello := take n (s @ body)\<rparr>"
    by (simp only: extend_server_hello_def)
  have verdict: "hello_verdict (s @ body) = (if length (s @ body) < n then None else Some (is_tls13_server_hello (take n (s @ body))))"
    using n assms(3) by (simp only: hello_verdict_def n_def) simp
  show ?thesis
  proof (cases "length (s @ body) < n")
    case True
    then have "take n (s @ body) = s @ body"
      by simp
    then show ?thesis
      using True assms(1,5,6) n verdict unfolding n_def [symmetric] ext
      by (simp only: holds_stream_def finish_server_hello_def) (auto simp: n_def)
  next
    case False
    then have "length (take n (s @ body)) = n"
      by simp
    then show ?thesis
      using False assms(1,5) verdict unfolding n_def [symmetric] ext
      by (simp only: holds_stream_def finish_server_hello_def) (auto simp: n_def)
  qed
qed

lemma observe_hello_stream:
  assumes "tls13 d = None" and "s @ body \<noteq> []" and "s = [] \<Longrightarrow> hd body = TLS_SERVER_HELLO"
    and "server_hello d = s" "server_hello_length d = (if length s < 4 then None else Some (hello_length s + 4))"
    and "hello_verdict s = None"
  shows "holds_stream (s @ body) (observe_server_hello body d)"
proof (cases "length s < 4")
  case False
  then have "hello_length s + 4 \<le> MAX_NESTED_SERVER_HELLO_SIZE" "length s \<le> hello_length s + 4"
    using assms(6) by (auto simp: hello_verdict_def split: if_splits)
  then show ?thesis
    using complete_hello [where s = s and body = body and d = d] assms False by (simp add: observe_server_hello_def)
next
  case True
  let ?k = "min (4 - length s) (length body)"
  let ?t = "s @ take ?k body"
  have go: "\<not> (server_hello d = [] \<and> (body = [] \<or> hd body \<noteq> TLS_SERVER_HELLO))"
    using assms(2-4) by auto
  show ?thesis
  proof (cases "length ?t < 4")
    case short: True
    then have all: "?t = s @ body" "length (s @ body) < 4"
      by auto
    then show ?thesis
      using assms True go short by (auto simp: observe_server_hello_def Let_def holds_stream_def hello_verdict_def)
  next
    case False
    then have t: "length ?t = 4" "?t @ drop ?k body = s @ body" "?t = take 4 (s @ body)"
      using True by auto
    then have n: "hello_length (s @ body) = hello_length ?t"
      using hello_length_prefix(1) [of ?t "drop ?k body"] by simp
    let ?d = "d\<lparr>server_hello := ?t\<rparr>"
    have eq: "observe_server_hello body d = (if hello_length ?t + 4 > MAX_NESTED_SERVER_HELLO_SIZE then ?d\<lparr>tls13 := Some False\<rparr>
        else finish_server_hello (extend_server_hello (drop ?k body) (hello_length ?t + 4)
               (?d\<lparr>server_hello_length := Some (hello_length ?t + 4)\<rparr>)))"
      using True go t(1) assms(4,5) by (auto simp: observe_server_hello_def Let_def)
    show ?thesis
    proof (cases "hello_length ?t + 4 > MAX_NESTED_SERVER_HELLO_SIZE")
      case True
      then show ?thesis
        using eq n t assms(2) False by (auto simp: holds_stream_def hello_verdict_def)
    next
      case fits: False
      have "holds_stream (?t @ drop ?k body) (finish_server_hello (extend_server_hello (drop ?k body) (hello_length ?t + 4)
               (?d\<lparr>server_hello_length := Some (hello_length ?t + 4)\<rparr>)))"
        by (rule complete_hello) (use fits t(1) assms(1) in \<open>simp_all add: not_less\<close>)
      then show ?thesis
        using fits unfolding eq t(2) by (simp only: if_False)
    qed
  qed
qed

lemma observe_record_stream:
  assumes "holds_stream s d" and "rec \<noteq> []" and "hd rec = TLS_HANDSHAKE"
  shows "holds_stream (s @ drop 5 rec) (snd (observe rec d))"
proof (cases "tls13 d")
  case None
  let ?d = "d\<lparr>records_seen := min 255 (records_seen d + 1)\<rparr>"
  have "holds_stream (s @ drop 5 rec) (observe_server_hello (drop 5 rec) ?d)"
    using assms(1) None by (intro observe_hello_stream) (auto simp: holds_stream_def split: if_splits)
  then show ?thesis
    using None assms(2,3) by (simp add: observe_def Let_def)
next
  case (Some b)
  then have "hello_verdict (s @ drop 5 rec) = Some b"
    using assms(1) by (intro verdict_extends) (simp add: holds_stream_def)
  moreover have "snd (observe rec d) = d\<lparr>records_seen := min 255 (records_seen d + 1)\<rparr>"
    using Some by (simp add: observe_def Let_def)
  ultimately show ?thesis
    using Some assms(1) by (auto simp: holds_stream_def)
qed

lemma observe_all_stream:
  assumes "holds_stream s d" and "\<forall>rec \<in> set recs. rec \<noteq> [] \<and> hd rec = TLS_HANDSHAKE"
  shows "holds_stream (s @ concat (map (drop 5) recs)) (observe_all recs d)"
  using assms
proof (induction recs arbitrary: s d)
  case (Cons rec recs)
  then show ?case
    using Cons.IH [OF observe_record_stream [of s d rec]] by simp
qed simp

lemma finish_seen [simp]: "records_seen (finish_server_hello d) = records_seen d"
  by (simp add: finish_server_hello_def split: option.split)

lemma observe_seen: "records_seen (snd (observe rec d)) = min 255 (records_seen d + 1)"
  by (simp add: observe_def observe_server_hello_def extend_server_hello_def Let_def split: option.split)

lemma observe_all_seen: "records_seen d \<le> 255 \<Longrightarrow> records_seen (observe_all recs d) = min 255 (records_seen d + length recs)"
  by (induction recs arbitrary: d) (auto simp: observe_seen)

section \<open>Properties\<close>

text \<open>
  C37.  The detector judges the ServerHello, not the records that carry it: after any handshake
  records whose payloads concatenate to a stream that starts with a ServerHello, its verdict is
  that of the complete message, and the next application-data record is sent with Direct
  exactly when that message selected TLS 1.3 with an acceptable cipher; it is sent with End
  when it did not, or when eight records went by without a verdict.
\<close>

theorem detector_fragmentation:
  assumes "\<forall>rec \<in> set (rec0 # recs). rec \<noteq> [] \<and> hd rec = TLS_HANDSHAKE" and "drop 5 rec0 = TLS_SERVER_HELLO # b"
  shows "tls13 (observe_all (rec0 # recs) detector_new) = hello_verdict (concat (map (drop 5) (rec0 # recs)))
    \<and> fst (observe (TLS_APPLICATION_DATA # body) (observe_all (rec0 # recs) detector_new)) =
       (case hello_verdict (concat (map (drop 5) (rec0 # recs))) of
          Some True \<Rightarrow> PadDirect
        | Some False \<Rightarrow> PadEnd
        | None \<Rightarrow> if 7 \<le> length (rec0 # recs) then PadEnd else PadContinue)"
proof -
  let ?d = "observe_all (rec0 # recs) detector_new"
  let ?first = "detector_new\<lparr>records_seen := 1\<rparr>"
  have "holds_stream ([] @ drop 5 rec0) (observe_server_hello (drop 5 rec0) ?first)"
    using assms(2) by (intro observe_hello_stream) (simp_all add: detector_new_def hello_verdict_def)
  moreover have "snd (observe rec0 detector_new) = observe_server_hello (drop 5 rec0) ?first"
    using assms(1) by (simp add: observe_def detector_new_def Let_def)
  ultimately have "holds_stream (concat (map (drop 5) (rec0 # recs))) ?d"
    using observe_all_stream [of "drop 5 rec0" "snd (observe rec0 detector_new)" recs] assms(1) by simp
  then have verdict: "tls13 ?d = hello_verdict (concat (map (drop 5) (rec0 # recs)))"
    unfolding holds_stream_def by blast
  have seen: "records_seen ?d = min 255 (length (rec0 # recs))"
    using observe_all_seen [of detector_new "rec0 # recs"] by (simp add: detector_new_def)
  have "TLS_APPLICATION_DATA \<noteq> TLS_HANDSHAKE"
    by (simp add: TLS_APPLICATION_DATA_def TLS_HANDSHAKE_def)
  then have "fst (observe (TLS_APPLICATION_DATA # body) ?d) = (case tls13 ?d of Some True \<Rightarrow> PadDirect | Some False \<Rightarrow> PadEnd
      | None \<Rightarrow> if records_seen ?d \<ge> 7 then PadEnd else PadContinue)"
    by (auto simp: observe_def Let_def MAX_CLASSIFICATION_RECORDS_def split: option.splits bool.splits)
  then show ?thesis
    unfolding verdict seen by (auto split: option.splits bool.splits)
qed

text \<open>A ServerHello with an empty session id that selects TLS 1.3 in its only extension.\<close>

definition demo_hello :: bytes where
  "demo_hello = [2, 0, 0, 46] @ replicate 34 0 @ [0, 0x13, 0x01, 0, 0, 6, 0, 43, 0, 2, 3, 4]"

theorem detector_fragmentation_witness:
  "fst (observe (TLS_APPLICATION_DATA # [])
      (observe_all [[22, 3, 3, 0, 3] @ take 3 demo_hello, [22, 3, 3, 0, 47] @ drop 3 demo_hello] detector_new)) = PadDirect"
proof -
  have recs: "\<forall>rec \<in> set [[22, 3, 3, 0, 3] @ take 3 demo_hello, [22, 3, 3, 0, 47] @ drop 3 demo_hello].
      rec \<noteq> [] \<and> hd rec = TLS_HANDSHAKE"
    by (simp add: TLS_HANDSHAKE_def)
  have first: "drop 5 ([22, 3, 3, 0, 3] @ take 3 demo_hello) = TLS_SERVER_HELLO # [0, 0]"
    by (simp add: demo_hello_def TLS_SERVER_HELLO_def)
  have length: "hello_length demo_hello = 46" "length demo_hello = 50"
    by (simp_all add: hello_length_def demo_hello_def)
  have "is_tls13_server_hello demo_hello"
    by code_simp
  then have "hello_verdict demo_hello = Some True"
    using length by (simp add: hello_verdict_def MAX_NESTED_SERVER_HELLO_SIZE_def)
  then have "hello_verdict (concat (map (drop 5)
      [[22, 3, 3, 0, 3] @ take 3 demo_hello, [22, 3, 3, 0, 47] @ drop 3 demo_hello])) = Some True"
    by simp
  then show ?thesis
    using detector_fragmentation [OF recs first, of "[]"] by simp
qed

end
