(* ===== verification/Vision_Relay.thy ===== *)
theory Vision_Relay
  imports Nested_Tls Nested_Detect Direct_Handoff
begin

text \<open>
  The framed downlink of a Vision session: \<open>relay_downlink_framed\<close> of
  \<open>src/server/vision/relay_downlink.rs\<close> and \<open>relay_outer_downlink\<close> of
  \<open>src/server/vision/framing.rs\<close>, over the nested reader, the detector, the frame writer and the
  handoff coordinator.  Traffic-key updates of the TLS writer are not modelled: they add
  records of another type and leave the application bytes alone.
\<close>

section \<open>The writer's other operations\<close>

definition BATCHED_SLOT_COUNT :: nat where "BATCHED_SLOT_COUNT = 4"

definition tw_shutdown :: "tls_writer \<Rightarrow> (tls_write_error + unit) \<times> tls_writer" where
  "tw_shutdown w =
    (case tw_failures w of
       True # fs \<Rightarrow> (Err TlsTransport, w\<lparr>tw_failures := fs\<rparr>)
     | fs \<Rightarrow> (Ok (), w\<lparr>tw_failures := tl fs, tw_closed := True\<rparr>))"

text \<open>The plaintexts of the slots a read filled: all full but the last.\<close>

function record_slots :: "bytes \<Rightarrow> bytes list" where
  "record_slots bs = (if bs = [] then [] else take MAX_PLAINTEXT_LEN bs # record_slots (drop MAX_PLAINTEXT_LEN bs))"
  by pat_completeness auto
termination
  by (relation "measure length") (auto simp: MAX_PLAINTEXT_LEN_def)

declare record_slots.simps [simp del]

definition write_filled_batch :: "bytes \<Rightarrow> tls_writer \<Rightarrow> (tls_write_error + unit) \<times> tls_writer" where
  "write_filled_batch bs w =
    (case tw_failures w of
       True # fs \<Rightarrow> (Err TlsTransport, w\<lparr>tw_failures := fs\<rparr>)
     | fs \<Rightarrow> (Ok (), w\<lparr>tw_records := tw_records w @ record_slots bs, tw_failures := tl fs\<rparr>))"

definition write_application_read_from_batched ::
  "nested_reader \<Rightarrow> tls_writer \<Rightarrow> (tls_write_error + nat) \<times> nested_reader \<times> tls_writer"
where
  "write_application_read_from_batched r w =
    (let room = (if tw_batched w then BATCHED_SLOT_COUNT * MAX_PLAINTEXT_LEN else MAX_PLAINTEXT_LEN)
     in case nested_read_vectored MAX_PLAINTEXT_LEN room r of
          (Inl _, r') \<Rightarrow> (Err TlsTransport, r', w)
        | (Inr bs, r') \<Rightarrow>
           if bs = [] then (Ok 0, r', w)
           else (case write_filled_batch bs w of
                   (Inl e, w') \<Rightarrow> (Err e, r', w')
                 | (Inr _, w') \<Rightarrow>
                    (Ok (length bs), r', w'\<lparr>tw_batched := (tw_batched w \<or> length bs = MAX_PLAINTEXT_LEN)\<rparr>)))"

text \<open>What is left to read, as a bound on the relay's rounds.\<close>

definition unread_bound :: "nested_reader \<Rightarrow> nat" where
  "unread_bound r = buffered_end r - buffered_start r + length (concat (nr_io r))"

lemma batched_consumes:
  assumes "write_application_read_from_batched r w = (Ok n, r', w')" and "n \<noteq> 0"
  shows "unread_bound r' < unread_bound r"
proof -
  define room where "room = (if tw_batched w then BATCHED_SLOT_COUNT * MAX_PLAINTEXT_LEN else MAX_PLAINTEXT_LEN)"
  obtain bs where bs: "nested_read_vectored MAX_PLAINTEXT_LEN room r = (Ok bs, r')" "bs \<noteq> []"
    using assms
    by (auto simp: write_application_read_from_batched_def Let_def room_def [symmetric] split: prod.splits sum.splits if_splits)
  show ?thesis
  proof (cases "buffered_end r - buffered_start r > 0")
    case True
    let ?n = "min (buffered_end r - buffered_start r) MAX_PLAINTEXT_LEN"
    have "r' = r\<lparr>buffered_start := buffered_start r + ?n\<rparr>" "0 < ?n"
      using bs True by (auto simp: nested_read_vectored_def Let_def MAX_PLAINTEXT_LEN_def)
    then show ?thesis
      by (auto simp: unread_bound_def min_def)
  next
    case False
    then have "r' = r\<lparr>nr_io := snd (read_some room (nr_io r))\<rparr>" "bs = fst (read_some room (nr_io r))"
      using bs by (auto simp: nested_read_vectored_def split: prod.splits if_splits)
    then show ?thesis
      using bs(2) arg_cong [OF concat_read_some [of room "nr_io r"], of length]
      by (auto simp: unread_bound_def simp flip: length_greater_0_conv)
  qed
qed

function relay_outer_downlink ::
  "nat \<Rightarrow> nested_reader \<Rightarrow> tls_writer \<Rightarrow> (tls_write_error + nat) \<times> nested_reader \<times> tls_writer"
where
  "relay_outer_downlink copied r w =
    (case write_application_read_from_batched r w of
       (Inl e, r', w') \<Rightarrow> (Err e, r', w')
     | (Inr n, r', w') \<Rightarrow>
        if n = 0 then
          (case tw_shutdown w' of
             (Inl e, w'') \<Rightarrow> (Err e, r', w'')
           | (Inr _, w'') \<Rightarrow> (Ok copied, r', w''))
        else relay_outer_downlink (sat_add copied n) r' w')"
  by pat_completeness auto
termination
  by (relation "measure (\<lambda>(_, r, _). unread_bound r)") (auto dest: batched_consumes [OF sym])

declare relay_outer_downlink.simps [simp del]

section \<open>The framed downlink\<close>

datatype relay_error = RelayRead nested_error | RelayWrite vision_write_error

datatype downlink_step = DownlinkFramed nat | DownlinkDirect nat

text \<open>The opening record: the VLESS response header and the first, empty Vision frame.\<close>

definition write_preamble ::
  "keystream \<Rightarrow> bytes \<Rightarrow> tls_writer \<Rightarrow> vision_encoder
   \<Rightarrow> ((vision_write_error + unit) \<times> tls_writer \<times> vision_encoder) option"
where
  "write_preamble ks response_header w e =
    map_option (\<lambda>(r, e').
        case r of
          Inl err \<Rightarrow> (Err (VisionEncodeFailed err), w, e')
        | Inr p \<Rightarrow>
           (case write_assembled w (length response_header + wire_len p)
                  (\<lambda>region. if length region < length response_header then region
                            else response_header @ assemble e' p [] (drop (length response_header) region)) of
              (Inl err, w') \<Rightarrow> (Err (VisionTls err), w', e')
            | (Inr _, w') \<Rightarrow> (Ok (), w', commit_plan e' p)))
      (plan_frame ks 0 Continue True e)"

text \<open>
  After an End frame: the rest of the stream goes out in plain records, and the direction
  closes.
\<close>

definition downlink_outer ::
  "nat \<Rightarrow> nested_reader \<Rightarrow> tls_writer \<Rightarrow> ('r, 'w) direct_handoff
   \<Rightarrow> (relay_error + downlink_step) \<times> nested_reader \<times> tls_writer \<times> ('r, 'w) direct_handoff"
where
  "downlink_outer bytes r w h =
    (let h1 = Direct_Handoff.settle h Downlink Outer
     in case relay_outer_downlink 0 r w of
          (Inl e, r', w') \<Rightarrow> (Err (RelayWrite (VisionTls e)), r', w', h1)
        | (Inr copied, r', w') \<Rightarrow>
            (Ok (DownlinkFramed (sat_add bytes copied)), r', w', Direct_Handoff.settle h1 Downlink Closed))"

partial_function (option) downlink_loop ::
  "keystream \<Rightarrow> nat \<Rightarrow> nested_reader \<Rightarrow> tls_writer \<Rightarrow> vision_encoder \<Rightarrow> nested_detector \<Rightarrow> ('r, 'w) direct_handoff
   \<Rightarrow> ((relay_error + downlink_step) \<times> nested_reader \<times> tls_writer \<times> ('r, 'w) direct_handoff) option"
where
  "downlink_loop ks bytes r w e detector h =
    (case nested_next r of
       (Inl err, r') \<Rightarrow> Some (Err (RelayRead err), r', w, h)
     | (Inr NestedEof, r') \<Rightarrow>
        (case tw_shutdown w of
           (Inl err, w') \<Rightarrow> Some (Err (RelayWrite (VisionTls err)), r', w', h)
         | (Inr _, w') \<Rightarrow> Some (Ok (DownlinkFramed bytes), r', w', Direct_Handoff.settle h Downlink Closed))
     | (Inr (Unframed content), r') \<Rightarrow>
        Option.bind (write_vision_content ks content End False w e) (\<lambda>(res, w', e').
          case res of
            Inl err \<Rightarrow> Some (Err (RelayWrite err), r', w', h)
          | Inr _ \<Rightarrow> Some (downlink_outer (sat_add bytes (length content)) r' w' h))
     | (Inr (NestedRecord rec), r') \<Rightarrow>
        (let (decision, detector') = observe rec detector
         in Option.bind (write_vision_content ks rec (decision_command decision) True w e) (\<lambda>(res, w', e').
              case res of
                Inl err \<Rightarrow> Some (Err (RelayWrite err), r', w', h)
              | Inr _ \<Rightarrow>
                 (case decision of
                    PadContinue \<Rightarrow> downlink_loop ks (sat_add bytes (length rec)) r' w' e' detector' h
                  | PadEnd \<Rightarrow> Some (downlink_outer (sat_add bytes (length rec)) r' w' h)
                  | PadDirect \<Rightarrow> Some (Ok (DownlinkDirect (sat_add bytes (length rec))), r', w', h)))))"

definition relay_downlink_framed ::
  "keystream \<Rightarrow> bytes option list \<Rightarrow> bytes \<Rightarrow> bytes \<Rightarrow> nested_reader \<Rightarrow> tls_writer \<Rightarrow> ('r, 'w) direct_handoff
   \<Rightarrow> ((relay_error + downlink_step) \<times> nested_reader \<times> tls_writer \<times> ('r, 'w) direct_handoff) option"
where
  "relay_downlink_framed ks os user response_header r w h =
    (case vision_encoder_new ks user os of
       Inl err \<Rightarrow> Some (Err (RelayWrite (VisionEncodeFailed err)), r, w, h)
     | Inr e \<Rightarrow>
        Option.bind (write_preamble ks response_header w e) (\<lambda>(res, w', e').
          case res of
            Inl err \<Rightarrow> Some (Err (RelayWrite err), r, w', h)
          | Inr _ \<Rightarrow> downlink_loop ks 0 r w' e' detector_new h))"

section \<open>What the client's decoder makes of the records\<close>

text \<open>The records between two writer states take the decoder from \<open>d\<close> to \<open>d'\<close>, yielding \<open>out\<close>.\<close>

definition carries :: "tls_writer \<Rightarrow> vision_decoder \<Rightarrow> tls_writer \<Rightarrow> vision_decoder \<Rightarrow> bytes \<Rightarrow> bool" where
  "carries w d w' d' out \<longleftrightarrow>
    (\<exists>recs. tw_records w' = tw_records w @ recs \<and> (\<forall>r \<in> set recs. length r \<le> MAX_PLAINTEXT_LEN)
      \<and> (\<forall>rest pre. run_bytes d (concat recs @ rest) pre = run_bytes d' rest (pre @ out)))"

lemma carries_same: "tw_records w' = tw_records w \<Longrightarrow> carries w d w' d []"
  by (simp add: carries_def)

lemma carries_trans:
  assumes "carries w d w1 d1 out" and "carries w1 d1 w2 d2 out'"
  shows "carries w d w2 d2 (out @ out')"
proof -
  obtain recs recs' where "tw_records w1 = tw_records w @ recs" "\<forall>r \<in> set recs. length r \<le> MAX_PLAINTEXT_LEN"
    "\<And>rest pre. run_bytes d (concat recs @ rest) pre = run_bytes d1 rest (pre @ out)"
    and "tw_records w2 = tw_records w1 @ recs'" "\<forall>r \<in> set recs'. length r \<le> MAX_PLAINTEXT_LEN"
    "\<And>rest pre. run_bytes d1 (concat recs' @ rest) pre = run_bytes d2 rest (pre @ out')"
    using assms unfolding carries_def by metis
  then show ?thesis
    unfolding carries_def by (intro exI [of _ "recs @ recs'"]) auto
qed

lemma delivers_carries:
  assumes "write_vision_content ks content c long w e = Some (Ok u, w', e')" and "in_step e d" and "length (ve_user_id e) = 16"
  obtains d' where "carries w d w' d' content" "vd_mode d' = mode_after c" "ve_user_id e' = ve_user_id e"
    "c = Continue \<Longrightarrow> in_step e' d'"
proof -
  obtain recs d' where "tw_records w' = tw_records w @ recs" "\<forall>r \<in> set recs. length r \<le> 16384"
    "\<forall>rest out. run_bytes d (concat recs @ rest) out = run_bytes d' rest (out @ content)"
    "vd_mode d' = mode_after c" "ve_user_id e' = ve_user_id e" "c = Continue \<longrightarrow> in_step e' d'"
    using write_vision_content_delivers [OF assms] unfolding delivers_def by blast
  then show thesis
    using that [of d'] by (auto simp: carries_def MAX_PLAINTEXT_LEN_def)
qed

lemma concat_record_slots: "concat (record_slots bs) = bs \<and> (\<forall>r \<in> set (record_slots bs). length r \<le> MAX_PLAINTEXT_LEN)"
proof (induction bs rule: record_slots.induct)
  case (1 bs)
  then show ?case
    by (subst (1 2) record_slots.simps) auto
qed

text \<open>Once the decoder is out of framing, plain records pass through it.\<close>

lemma batched_carries:
  assumes "write_application_read_from_batched r w = (Ok n, r', w')" and "nested_ok r" and "vd_mode d \<noteq> vision_mode.Framed"
  obtains bs where "carries w d w' d bs" "length bs = n" "unread r = bs @ unread r'" "nested_ok r'" "nr_fails r' = nr_fails r"
    "tw_closed w' = tw_closed w" "n = 0 \<Longrightarrow> unread r' = [] \<and> \<not> nr_fails r"
proof -
  define room where "room = (if tw_batched w then BATCHED_SLOT_COUNT * MAX_PLAINTEXT_LEN else MAX_PLAINTEXT_LEN)"
  have pos: "0 < MAX_PLAINTEXT_LEN" "0 < room"
    by (simp_all add: room_def MAX_PLAINTEXT_LEN_def BATCHED_SLOT_COUNT_def)
  obtain res r1 where rd: "nested_read_vectored MAX_PLAINTEXT_LEN room r = (res, r1)"
    by fastforce
  note eq = assms(1) [unfolded write_application_read_from_batched_def Let_def room_def [symmetric] rd]
  obtain bs where bs: "res = Ok bs" "r' = r1" "length bs = n"
    using eq by (cases res) (auto split: prod.splits sum.splits if_splits)
  note nv = nested_read_vectored_Ok [OF assms(2) rd [unfolded bs(1)] pos]
  have w': "tw_closed w' = tw_closed w" "tw_records w' = tw_records w @ record_slots bs"
    using eq bs(1) by (auto simp: write_filled_batch_def record_slots.simps [of "[]"] split: prod.splits sum.splits if_splits list.splits bool.splits)
  then have "carries w d w' d bs"
    unfolding carries_def using concat_record_slots [of bs] assms(3)
    by (intro exI [of _ "record_slots bs"]) (simp add: run_unframed)
  then show thesis
    using that [of bs] bs nv w'(1) by auto
qed

lemma shutdown_Ok: "tw_shutdown w = (Ok u, w') \<Longrightarrow> tw_records w' = tw_records w \<and> tw_closed w'"
  by (auto simp: tw_shutdown_def split: list.splits bool.splits)

lemma outer_carries:
  assumes "relay_outer_downlink copied r w = (Ok n, r', w')" and "nested_ok r" and "vd_mode d \<noteq> vision_mode.Framed"
    and "copied \<le> 2 ^ 64 - 1"
  shows "carries w d w' d (unread r) \<and> unread r' = [] \<and> nested_ok r' \<and> tw_closed w' \<and> \<not> nr_fails r
    \<and> n = sat_add copied (length (unread r))"
  using assms
proof (induction copied r w rule: relay_outer_downlink.induct)
  case (1 copied r w)
  obtain res r1 w1 where b: "write_application_read_from_batched r w = (res, r1, w1)"
    by (cases "write_application_read_from_batched r w") auto
  note eq = "1.prems"(1) [unfolded relay_outer_downlink.simps [of copied r w] b]
  obtain k where k: "res = Ok k"
    using eq by (cases res) auto
  obtain bs where bs: "carries w d w1 d bs" "length bs = k" "unread r = bs @ unread r1" "nested_ok r1" "nr_fails r1 = nr_fails r"
    "k = 0 \<Longrightarrow> unread r1 = [] \<and> \<not> nr_fails r"
    using batched_carries [OF b [unfolded k] "1.prems"(2,3)] by metis
  show ?case
  proof (cases "k = 0")
    case True
    obtain res2 w2 where s: "tw_shutdown w1 = (res2, w2)"
      by fastforce
    then have "res2 = Ok ()" "w' = w2" "n = copied" "r' = r1"
      using eq k True by (cases res2; simp)+
    then show ?thesis
      using shutdown_Ok [of w1 "()" w2] s carries_trans [OF bs(1) carries_same [of w2 w1 d]] bs True "1.prems"(4)
      by (simp add: sat_add_def)
  next
    case False
    then have "relay_outer_downlink (sat_add copied k) r1 w1 = (Ok n, r', w')"
      using eq k by simp
    then have "carries w1 d w' d (unread r1) \<and> unread r' = [] \<and> nested_ok r' \<and> tw_closed w' \<and> \<not> nr_fails r1
        \<and> n = sat_add (sat_add copied k) (length (unread r1))"
      using "1.IH" [OF b [symmetric] k refl False] bs(4) "1.prems"(3) by (simp add: sat_add_def)
    then show ?thesis
      using carries_trans [OF bs(1)] bs(2,3,5) by (simp add: sat_add_assoc)
  qed
qed

section \<open>The whole direction\<close>

text \<open>How the framed downlink ends, seen by the client's decoder, the reader and the coordinator.\<close>

definition downlink_ends ::
  "downlink_step \<Rightarrow> nat \<Rightarrow> bytes \<Rightarrow> vision_mode \<Rightarrow> nested_reader \<Rightarrow> tls_writer \<Rightarrow> ('r, 'w) direct_handoff
   \<Rightarrow> ('r, 'w) direct_handoff \<Rightarrow> bool"
where
  "downlink_ends stp bytes out mode r' w' h h' \<longleftrightarrow>
    (case stp of
       DownlinkDirect n \<Rightarrow> mode = DirectMode \<and> n = sat_add bytes (length out) \<and> h' = h
     | DownlinkFramed n \<Rightarrow> mode \<noteq> DirectMode \<and> n = sat_add bytes (length out) \<and> unread r' = [] \<and> tw_closed w'
         \<and> (state h Downlink = direction_state.Framed \<longrightarrow> state h' Downlink = Closed))"

lemma settle_Closed:
  "state h Downlink = direction_state.Framed \<Longrightarrow> state (Direct_Handoff.settle h Downlink Closed) Downlink = Closed"
  "state h Downlink = direction_state.Framed
   \<Longrightarrow> state (Direct_Handoff.settle (Direct_Handoff.settle h Downlink Outer) Downlink Closed) Downlink = Closed"
  by (simp_all add: Direct_Handoff.settle_def advance_def state_def set_cell.simps Let_def)

lemma downlink_outer_delivers:
  assumes "downlink_outer bytes r w h = (Ok stp, r', w', h')" and "nested_ok r" and "vd_mode d = Raw"
  shows "carries w d w' d (unread r) \<and> nested_ok r' \<and> unread r' = [] \<and> tw_closed w'
    \<and> stp = DownlinkFramed (sat_add bytes (length (unread r)))
    \<and> (state h Downlink = direction_state.Framed \<longrightarrow> state h' Downlink = Closed)"
proof -
  obtain res r1 w1 where o: "relay_outer_downlink 0 r w = (res, r1, w1)"
    by (cases "relay_outer_downlink 0 r w") auto
  then obtain n where n: "res = Ok n"
    using assms(1) by (cases res) (auto simp: downlink_outer_def)
  have "carries w d w1 d (unread r) \<and> unread r1 = [] \<and> nested_ok r1 \<and> tw_closed w1 \<and> n = sat_add 0 (length (unread r))"
    using outer_carries [OF o [unfolded n] assms(2), of d] assms(3) by simp
  then show ?thesis
    using assms(1) o n settle_Closed(2) [of h] by (auto simp: downlink_outer_def sat_add_assoc)
qed

lemma downlink_loop_delivers:
  assumes "downlink_loop ks bytes r w e det h = Some (Ok stp, r', w', h')"
    and "nested_ok r" and "in_step e d" and "length (ve_user_id e) = 16" and "bytes \<le> 2 ^ 64 - 1"
  shows "\<exists>d' out. carries w d w' d' out \<and> unread r = out @ unread r' \<and> nested_ok r'
    \<and> downlink_ends stp bytes out (vd_mode d') r' w' h h'"
  using assms
proof (induction "length (unread r)" arbitrary: bytes r w e det d rule: less_induct)
  case less
  note eq = less.prems(1) [unfolded downlink_loop.simps [of ks bytes r w e det h]]
  obtain res r1 where nx: "nested_next r = (res, r1)"
    by fastforce
  obtain out where out: "res = Ok out"
    using eq nx by (cases res) auto
  note nn = nested_next_Ok [OF less.prems(2) nx [unfolded out]]
  show ?case
  proof (cases out)
    case NestedEof
    obtain res2 w2 where s: "tw_shutdown w = (res2, w2)"
      by fastforce
    then have "res2 = Ok ()" "stp = DownlinkFramed bytes" "r' = r1" "w' = w2" "h' = Direct_Handoff.settle h Downlink Closed"
      using eq nx out NestedEof by (cases res2; simp)+
    then show ?thesis
      using shutdown_Ok [of w "()" w2] s nn NestedEof less.prems(3,5) carries_same [of w2 w d] settle_Closed(1) [of h]
      by (intro exI [of _ d] exI [of _ "[]"]) (simp add: downlink_ends_def in_step_def at_boundary_def sat_add_def)
  next
    case (Unframed content)
    obtain res2 w2 e2 where wr: "write_vision_content ks content End False w e = Some (res2, w2, e2)"
      using eq nx out Unframed by (cases "write_vision_content ks content End False w e") auto
    then have ok: "res2 = Ok ()" "downlink_outer (sat_add bytes (length content)) r1 w2 h = (Ok stp, r', w', h')"
      using eq nx out Unframed by (cases res2; simp)+
    obtain d1 where d1: "carries w d w2 d1 content" "vd_mode d1 = Raw"
      using delivers_carries [OF wr [unfolded ok(1)] less.prems(3,4)] by auto
    show ?thesis
      using downlink_outer_delivers [OF ok(2) nn(1) d1(2)] carries_trans [OF d1(1)] nn(3) Unframed d1(2)
      by (intro exI [of _ d1] exI [of _ "content @ unread r1"]) (simp add: downlink_ends_def sat_add_assoc)
  next
    case (NestedRecord rec)
    obtain decision det' where ob: "observe rec det = (decision, det')"
      by fastforce
    let ?c = "decision_command decision"
    obtain res2 w2 e2 where wr: "write_vision_content ks rec ?c True w e = Some (res2, w2, e2)"
      using eq nx out NestedRecord ob by (cases "write_vision_content ks rec ?c True w e") auto
    then have ok: "res2 = Ok ()"
      using eq nx out NestedRecord ob by (cases res2) auto
    obtain d1 where d1: "carries w d w2 d1 rec" "vd_mode d1 = mode_after ?c" "ve_user_id e2 = ve_user_id e"
      "?c = Continue \<Longrightarrow> in_step e2 d1"
      using delivers_carries [OF wr [unfolded ok] less.prems(3,4)] by metis
    have rec: "unread r = rec @ unread r1" "rec \<noteq> []"
      using nn(3,5) NestedRecord by simp_all
    show ?thesis
    proof (cases decision)
      case PadContinue
      have loop: "downlink_loop ks (sat_add bytes (length rec)) r1 w2 e2 det' h = Some (Ok stp, r', w', h')"
        using eq nx out NestedRecord ob wr ok PadContinue by simp
      have "length (unread r1) < length (unread r)"
        using rec by simp
      from less.hyps [OF this loop nn(1), of d1]
      obtain d' out' where "carries w2 d1 w' d' out'" "unread r1 = out' @ unread r'" "nested_ok r'"
        "downlink_ends stp (sat_add bytes (length rec)) out' (vd_mode d') r' w' h h'"
        using d1(3,4) PadContinue less.prems(4) by (auto simp: sat_add_def)
      then show ?thesis
        using carries_trans [OF d1(1)] rec(1)
        by (intro exI [of _ d'] exI [of _ "rec @ out'"]) (simp add: downlink_ends_def sat_add_assoc split: downlink_step.splits)
    next
      case PadEnd
      have "downlink_outer (sat_add bytes (length rec)) r1 w2 h = (Ok stp, r', w', h')"
        using eq nx out NestedRecord ob wr ok PadEnd by simp
      from downlink_outer_delivers [OF this nn(1)] show ?thesis
        using carries_trans [OF d1(1)] rec(1) d1(2) PadEnd
        by (intro exI [of _ d1] exI [of _ "rec @ unread r1"]) (simp add: downlink_ends_def sat_add_assoc)
    next
      case PadDirect
      then show ?thesis
        using eq nx out NestedRecord ob wr ok d1(1,2) rec(1) nn(1)
        by (intro exI [of _ d1] exI [of _ rec]) (auto simp: downlink_ends_def)
    qed
  qed
qed

lemma downlink_loop_returns:
  assumes "draws_end ks" and "nested_ok r"
  shows "downlink_loop ks bytes r w e det h \<noteq> None"
  using assms(2)
proof (induction "length (unread r)" arbitrary: bytes r w e det rule: less_induct)
  case less
  note eq = downlink_loop.simps [of ks bytes r w e det h]
  obtain res r1 where nx: "nested_next r = (res, r1)"
    by fastforce
  show ?case
  proof (cases "\<exists>rec. res = Ok (NestedRecord rec)")
    case True
    then obtain rec where rec: "res = Ok (NestedRecord rec)"
      by blast
    obtain decision det' where ob: "observe rec det = (decision, det')"
      by fastforce
    obtain res2 w2 e2 where wr: "write_vision_content ks rec (decision_command decision) True w e = Some (res2, w2, e2)"
      using write_vision_content_returns [OF assms(1)] by (metis not_None_eq prod_cases3)
    note nn = nested_next_Ok [OF less.prems nx [unfolded rec]]
    have "length (unread r1) < length (unread r)"
      using nn(3,5) by simp
    from less.hyps [OF this nn(1)] show ?thesis
      using eq nx rec ob wr by (cases decision; cases res2) (simp_all del: not_None_eq)
  next
    case False
    have wr: "\<exists>a b c. write_vision_content ks content End False w e = Some (a, b, c)" for content
      using write_vision_content_returns [OF assms(1)] by (metis not_None_eq prod_cases3)
    show ?thesis
    proof (cases "\<exists>content. res = Ok (Unframed content)")
      case True
      then obtain content where content: "res = Ok (Unframed content)"
        by blast
      obtain a b c where "write_vision_content ks content End False w e = Some (a, b, c)"
        using wr by blast
      then show ?thesis
        using eq nx content by (cases a) (simp_all del: not_None_eq)
    next
      case other: False
      then have "(\<exists>err. res = Err err) \<or> res = Ok NestedEof"
        using False by (cases res; simp) (metis nested_read.exhaust)
      then show ?thesis
        using eq nx by (auto split: prod.splits sum.splits)
    qed
  qed
qed

lemma write_preamble_delivers:
  assumes "write_preamble ks hdr w e = Some (Ok u, w', e')" and "in_step e d" and "length (ve_user_id e) = 16"
  shows "\<exists>frame d'. tw_records w' = tw_records w @ [hdr @ frame] \<and> length (hdr @ frame) \<le> MAX_PLAINTEXT_LEN
    \<and> (\<forall>rest pre. run_bytes d (frame @ rest) pre = run_bytes d' rest pre)
    \<and> in_step e' d' \<and> ve_user_id e' = ve_user_id e"
proof -
  obtain res e1 where plan: "plan_frame ks 0 Continue True e = Some (res, e1)"
    using assms(1) by (auto simp: write_preamble_def)
  then obtain p where p: "res = Ok p"
    using assms(1) by (cases res) (auto simp: write_preamble_def)
  note pf = plan_frame_Some [OF plan [unfolded p]]
  note e1 = same_but_padding_fields [OF pf(1)]
  have fits: "length ([] :: bytes) = unat (fp_content_length p)" "wire_len p \<le> 8192" "include_user_id p = ve_first_frame e"
    "fp_command p = Continue"
    using pf(2) [of p] by (auto simp: plan_fits_def)
  let ?f = "\<lambda>region. if length region < length hdr then region else hdr @ assemble e1 p [] (drop (length hdr) region)"
  obtain res2 w2 where wr: "write_assembled w (length hdr + wire_len p) ?f = (res2, w2)"
    by fastforce
  then have ok: "res2 = Ok ()" "w' = w2" "e' = commit_plan e1 p"
    using assms(1) plan p by (cases res2; simp add: write_preamble_def)+
  let ?frame = "frame_bytes (ve_user_id e) p []"
  have "assemble e1 p [] (replicate (wire_len p) 0) = ?frame"
    using assemble_eq [OF _ fits(1), of e1 "replicate (wire_len p) 0"] e1(1) assms(3) by simp
  then have rec: "tw_records w' = tw_records w @ [hdr @ ?frame]" "length hdr + wire_len p \<le> 16384"
    using write_assembled_Ok [of w _ ?f "()" w2] wr ok(1,2) by simp_all
  have "at_boundary (ve_user_id e) (include_user_id p) d"
    using assms(2) fits(3) by (simp add: in_step_def)
  from run_frame [OF this fits(2,1)] obtain d' where
    "\<forall>rest pre. run_bytes d (?frame @ rest) pre = run_bytes d' rest pre" "at_boundary (ve_user_id e) False d'"
    using fits(4) by auto
  then show ?thesis
    using rec length_frame_bytes [OF assms(3) fits(1)] ok(3) e1(1) fits(4)
    by (intro exI [of _ ?frame] exI [of _ d']) (simp add: in_step_def commit_plan_def MAX_PLAINTEXT_LEN_def)
qed

lemma encoder_new_in_step:
  assumes "vision_encoder_new ks user os = Ok e" and "length user = 16"
  shows "in_step e (vision_decoder_new user)" "ve_user_id e = user"
  using assms at_boundary_new [OF assms(2)]
  by (auto simp: vision_encoder_new_def in_step_def result_simps split: sum.splits)

section \<open>Properties\<close>

text \<open>
  C38.  The framed downlink delivers the destination's bytes exactly.  With a keystream whose
  draws end it always returns.  When it succeeds, the application records it wrote are the
  response header followed by a stream of Vision frames and plain bytes which the client's
  decoder, however TLS or TCP cuts it, decodes to precisely the bytes taken from the
  destination, in order.  Either the decoder is then in Direct mode, with every byte not yet
  delivered still in the reader for the raw relay and the coordinator untouched; or the
  destination's stream is delivered to its end, \<open>close_notify\<close> was sent and the direction is
  Closed.  The byte count is the number of bytes delivered, saturating at the width of u64.
\<close>

theorem downlink_end_to_end:
  assumes "length user = 16" and "draws_end ks" and "[] \<notin> set io"
  shows "\<exists>res r w h'. relay_downlink_framed ks os user hdr (nested_new io fails) wr h = Some (res, r, w, h')
    \<and> (\<forall>stp. res = Ok stp \<longrightarrow>
        (\<exists>recs frames out mode. tw_records w = tw_records wr @ recs \<and> (\<forall>rec \<in> set recs. length rec \<le> MAX_PLAINTEXT_LEN)
          \<and> concat recs = hdr @ frames \<and> concat io = out @ unread r
          \<and> (\<forall>frags. concat frags = frames \<longrightarrow>
               (\<exists>d. decode_fragments (vision_decoder_new user) frags [] = Some (Ok mode, d, out)))
          \<and> downlink_ends stp 0 out mode r w h h'))"
proof -
  let ?r = "nested_new io fails"
  have r: "nested_ok ?r" "unread ?r = concat io"
    using assms(3) nested_ok_new unread_new by auto
  have pre: "write_preamble ks hdr wr e \<noteq> None" for e
    using plan_returns(1) [OF assms(2), of 0 Continue True e] by (simp add: write_preamble_def del: not_None_eq)
  have "relay_downlink_framed ks os user hdr ?r wr h \<noteq> None"
  proof (cases "vision_encoder_new ks user os")
    case (Inr e)
    obtain res1 w1 e1 where "write_preamble ks hdr wr e = Some (res1, w1, e1)"
      using pre [of e] by (metis not_None_eq prod_cases3)
    then show ?thesis
      using Inr downlink_loop_returns [OF assms(2) r(1), of 0 w1 e1 detector_new h]
      by (cases res1) (simp_all add: relay_downlink_framed_def del: not_None_eq)
  qed (simp add: relay_downlink_framed_def)
  then obtain res r' w h' where run: "relay_downlink_framed ks os user hdr ?r wr h = Some (res, r', w, h')"
    by (metis not_None_eq prod_cases4)
  have "\<exists>recs frames out mode. tw_records w = tw_records wr @ recs \<and> (\<forall>rec \<in> set recs. length rec \<le> MAX_PLAINTEXT_LEN)
      \<and> concat recs = hdr @ frames \<and> concat io = out @ unread r'
      \<and> (\<forall>frags. concat frags = frames \<longrightarrow> (\<exists>d. decode_fragments (vision_decoder_new user) frags [] = Some (Ok mode, d, out)))
      \<and> downlink_ends stp 0 out mode r' w h h'" if ok: "res = Ok stp" for stp
  proof -
    obtain e where e: "vision_encoder_new ks user os = Ok e"
      using run ok by (cases "vision_encoder_new ks user os") (auto simp: relay_downlink_framed_def)
    obtain res1 w1 e1 where p: "write_preamble ks hdr wr e = Some (res1, w1, e1)"
      using pre [of e] by (metis not_None_eq prod_cases3)
    then have loop: "res1 = Ok ()" "downlink_loop ks 0 ?r w1 e1 detector_new h = Some (Ok stp, r', w, h')"
      using run ok e by (cases res1; simp add: relay_downlink_framed_def)+
    note step = encoder_new_in_step [OF e assms(1)]
    obtain frame d1 where f: "tw_records w1 = tw_records wr @ [hdr @ frame]" "length (hdr @ frame) \<le> MAX_PLAINTEXT_LEN"
      "\<And>rest pre. run_bytes (vision_decoder_new user) (frame @ rest) pre = run_bytes d1 rest pre"
      "in_step e1 d1" "ve_user_id e1 = user"
      using write_preamble_delivers [OF p [unfolded loop(1)] step(1)] step(2) assms(1) by auto
    obtain d' out where "carries w1 d1 w d' out" and out: "unread ?r = out @ unread r'"
      "downlink_ends stp 0 out (vd_mode d') r' w h h'"
      using downlink_loop_delivers [OF loop(2) r(1) f(4)] f(5) assms(1) by auto
    then obtain recs where recs: "tw_records w = tw_records w1 @ recs" "\<forall>rec \<in> set recs. length rec \<le> MAX_PLAINTEXT_LEN"
      "\<And>rest pre. run_bytes d1 (concat recs @ rest) pre = run_bytes d' rest (pre @ out)"
      unfolding carries_def by blast
    have bytes: "run_bytes (vision_decoder_new user) (frame @ concat recs) [] = Ok (d', out)"
      using f(3) [of "concat recs" "[]"] recs(3) [of "[]" "[]"] by simp
    have "\<exists>d. decode_fragments (vision_decoder_new user) frags [] = Some (Ok (vd_mode d'), d, out)"
      if "concat frags = frame @ concat recs" for frags
      using decode_fragments_run [OF vision_decoder_ok_new [OF assms(1)], of frags "[]"] bytes that by auto
    then show ?thesis
      using f(1,2) recs(1,2) out r(2)
      by (intro exI [of _ "(hdr @ frame) # recs"] exI [of _ "frame @ concat recs"] exI [of _ out] exI [of _ "vd_mode d'"]) auto
  qed
  then show ?thesis
    using run by blast
qed

text \<open>A keystream of zeros: the first word after a refill is accepted at once.\<close>

definition zero_ks :: keystream where "zero_ks = (\<lambda>_ _. replicate 256 0)"

lemma zero_next_four:
  assumes "next_four zero_ks r = (Ok bs, r')"
  shows "bs = replicate 4 0 \<or> rng_position r' = rng_position r + 4 \<and> rng_position r + 4 \<le> 256"
  using assms
  by (auto simp: next_four_def refill_def from_os_def from_seed_def zero_ks_def BLOCK_BYTES_def Let_def
      split: if_splits list.splits option.splits sum.splits)

lemma zero_below_loop:
  assumes "0 < acceptance_limit u"
  shows "below_loop zero_ks u r \<noteq> None"
proof (induction "256 - rng_position r" arbitrary: r rule: less_induct)
  case less
  obtain res r1 where n: "next_four zero_ks r = (res, r1)"
    by fastforce
  show ?case
  proof (cases res)
    case (Inr bs)
    have "from_ne_bytes (replicate 4 0) < acceptance_limit u"
      using assms by (simp add: from_ne_bytes_def be_u32_def of_be_def numeral_eq_Suc)
    then show ?thesis
      using zero_next_four [OF n [unfolded Inr]] less [of r1] n Inr
      by (subst below_loop.simps) fastforce
  qed (use n in \<open>subst below_loop.simps; simp\<close>)
qed

lemma zero_ks_ends: "draws_end zero_ks"
proof -
  have "0 < acceptance_limit u" if "u = 500 \<or> u = 256" for u
    using that acceptance_limit_multiple [of u] by (auto simp: word_less_nat_alt)
  then show ?thesis
    using zero_below_loop
    by (simp add: draws_end_def below_def DEFAULT_LONG_PADDING_RANGE_def DEFAULT_SHORT_PADDING_RANGE_def del: not_None_eq)
qed

definition demo_writer :: tls_writer where
  "demo_writer = \<lparr>tw_records = [], tw_failures = [], tw_batched = False, tw_closed = False\<rparr>"

text \<open>A destination that closes at once: the direction ends with the preamble and \<open>close_notify\<close>.\<close>

lemma demo_downlink:
  "\<exists>r w h'. relay_downlink_framed zero_ks [Some []] (replicate 16 7) [0, 0] (nested_new [] False) demo_writer
     (handoff_new :: (nat, nat) direct_handoff) = Some (Ok (DownlinkFramed 0), r, w, h')"
proof -
  define rng where "rng = from_seed zero_ks [] []"
  have zero: "from_ne_bytes (replicate 4 0) = 0"
    by (simp add: from_ne_bytes_def be_u32_def of_be_def numeral_eq_Suc)
  have limit: "0 < acceptance_limit 500"
    using acceptance_limit_multiple [of 500] by (simp add: word_less_nat_alt)
  have "next_four zero_ks rng = (Ok (replicate 4 0), rng\<lparr>rng_position := 4\<rparr>)"
    by (simp add: next_four_def rng_def from_seed_def zero_ks_def BLOCK_BYTES_def)
  then have draw: "below zero_ks 500 rng = Some (Ok 0, rng\<lparr>rng_position := 4\<rparr>)"
    using zero limit by (simp add: below_def below_loop.simps)
  let ?e = "\<lparr>ve_user_id = replicate 16 7, ve_first_frame = True, ve_finished = False, ve_padding = rng\<rparr>"
  let ?e1 = "?e\<lparr>ve_padding := rng\<lparr>rng_position := 4\<rparr>\<rparr>"
  have new: "vision_encoder_new zero_ks (replicate 16 7) [Some []] = Ok ?e"
    by (simp add: vision_encoder_new_def from_os_def rng_def)
  obtain p where plan: "plan_frame zero_ks 0 Continue True ?e = Some (Ok p, ?e1)"
    by (simp add: plan_frame_def maximum_frame_padding_def prefix_length_def plan_capped_def choose_padding_length_def
        random_below_def draw vision_consts DEFAULT_LONG_PADDING_THRESHOLD_def DEFAULT_LONG_PADDING_RANGE_def
        DEFAULT_LONG_PADDING_TARGET_def)
  have "wire_len p \<le> 8192"
    using plan_frame_Some(2) [OF plan refl] by (simp add: plan_fits_def)
  then obtain w where pre: "write_preamble zero_ks [0, 0] demo_writer ?e = Some (Ok (), w, commit_plan ?e1 p)" "tw_failures w = []"
    using plan by (simp add: write_preamble_def write_assembled_def demo_writer_def MAX_PLAINTEXT_LEN_def)
  have "nested_next (nested_new [] False) = (Ok NestedEof, nested_make_room (nested_new [] False))"
    by (simp add: nested_next_def header_loop.simps nested_refill_def nested_make_room_def nested_new_def
        could_be_tls_record_header_def buffered_def nested_consts)
  then show ?thesis
    using pre by (simp add: relay_downlink_framed_def new downlink_loop.simps tw_shutdown_def)
qed

theorem downlink_end_to_end_witness:
  "\<exists>r w h' recs frames mode. relay_downlink_framed zero_ks [Some []] (replicate 16 7) [0, 0] (nested_new [] False) demo_writer
       (handoff_new :: (nat, nat) direct_handoff) = Some (Ok (DownlinkFramed 0), r, w, h')
     \<and> tw_records w = recs \<and> concat recs = [0, 0] @ frames
     \<and> (\<exists>d. decode_fragments (vision_decoder_new (replicate 16 7)) [frames] [] = Some (Ok mode, d, []))
     \<and> downlink_ends (DownlinkFramed 0) 0 [] mode r w (handoff_new :: (nat, nat) direct_handoff) h'"
proof -
  have user: "length (replicate 16 (7 :: byte)) = 16" and io: "[] \<notin> set ([] :: bytes list)"
    by simp_all
  obtain r w h' where run: "relay_downlink_framed zero_ks [Some []] (replicate 16 7) [0, 0] (nested_new [] False) demo_writer
     (handoff_new :: (nat, nat) direct_handoff) = Some (Ok (DownlinkFramed 0), r, w, h')"
    using demo_downlink by blast
  obtain recs frames out mode where out: "tw_records w = tw_records demo_writer @ recs" "concat recs = [0, 0] @ frames"
    "concat [] = out @ unread r" "\<And>frags. concat frags = frames \<Longrightarrow>
      \<exists>d. decode_fragments (vision_decoder_new (replicate 16 7)) frags [] = Some (Ok mode, d, out)"
    "downlink_ends (DownlinkFramed 0) 0 out mode r w (handoff_new :: (nat, nat) direct_handoff) h'"
    using downlink_end_to_end [OF user zero_ks_ends io, where os = "[Some []]" and hdr = "[0, 0]" and fails = False
        and wr = demo_writer and h = "handoff_new :: (nat, nat) direct_handoff"] run
    by auto
  then show ?thesis
    using run out(4) [of "[frames]"]
    by (intro exI [of _ r] exI [of _ w] exI [of _ h'] exI [of _ recs] exI [of _ frames] exI [of _ mode])
       (auto simp: demo_writer_def simp del: decode_fragments.simps)
qed

end
