(* ===== verification/Vision_Uplink.thy ===== *)
theory Vision_Uplink
  imports Vision_Relay "HOL-Library.Sublist"
begin

text \<open>
  The framed uplink of a Vision session: \<open>relay_uplink_framed\<close> and \<open>flush_uplink\<close> of
  \<open>src/server/vision/relay_uplink.rs\<close>.  The authenticated records of the client are a list of
  events, each with whether a complete record was already buffered when the loop asked; after
  the last event the transport fails.  The capacity an allocation really gets is a parameter.
\<close>

section \<open>The destination\<close>

text \<open>A write either takes everything or fails after some of it.\<close>

record dest_writer =
  dw_bytes :: bytes
  dw_failures :: "nat option list"
  dw_shut :: bool

definition dest_write :: "bytes \<Rightarrow> dest_writer \<Rightarrow> bool \<times> dest_writer" where
  "dest_write bs w =
    (case dw_failures w of
       Some n # fs \<Rightarrow> (False, w\<lparr>dw_bytes := dw_bytes w @ take n bs, dw_failures := fs\<rparr>)
     | fs \<Rightarrow> (True, w\<lparr>dw_bytes := dw_bytes w @ bs, dw_failures := tl fs\<rparr>))"

definition dest_shutdown :: "dest_writer \<Rightarrow> bool \<times> dest_writer" where
  "dest_shutdown w =
    (case dw_failures w of
       Some _ # fs \<Rightarrow> (False, w\<lparr>dw_failures := fs\<rparr>)
     | fs \<Rightarrow> (True, w\<lparr>dw_failures := tl fs, dw_shut := True\<rparr>))"

section \<open>The relay\<close>

definition UPLINK_STAGE_CAPACITY :: nat where "UPLINK_STAGE_CAPACITY = 4 * MAX_PLAINTEXT_LEN"

datatype uplink_error = UplinkIo | UplinkTls | UplinkDecode vision_decode_error

datatype uplink_step = UplinkFramed nat | UplinkDirect nat

datatype uplink_event = UpRecord bytes | UpCloseNotify | UpFailed

text \<open>The staging buffer with its capacity, the destination and the byte count.\<close>

record uplink_stage =
  stage :: bytes
  stage_cap :: nat
  up_dest :: dest_writer
  up_bytes :: nat

definition flush_uplink :: "uplink_stage \<Rightarrow> bool \<times> uplink_stage" where
  "flush_uplink s =
    (if stage s = [] then (True, s)
     else
      (case dest_write (stage s) (up_dest s) of
         (False, w) \<Rightarrow> (False, s\<lparr>up_dest := w\<rparr>)
       | (True, w) \<Rightarrow> (True, s\<lparr>up_dest := w, up_bytes := sat_add (up_bytes s) (length (stage s)), stage := []\<rparr>)))"

text \<open>Storing staged bytes: the vector grows when they exceed its capacity.\<close>

definition set_stage :: "(nat \<Rightarrow> nat) \<Rightarrow> bytes \<Rightarrow> uplink_stage \<Rightarrow> uplink_stage" where
  "set_stage alloc bs s =
    s\<lparr>stage := bs, stage_cap := (if length bs \<le> stage_cap s then stage_cap s else alloc (length bs))\<rparr>"

definition try_reserve_exact :: "(nat \<Rightarrow> nat) \<Rightarrow> nat \<Rightarrow> uplink_stage \<Rightarrow> uplink_stage" where
  "try_reserve_exact alloc additional s =
    (if additional \<le> stage_cap s - length (stage s) then s
     else s\<lparr>stage_cap := alloc (length (stage s) + additional)\<rparr>)"

text \<open>Making room for one more record, and growing to the batched layout once.\<close>

definition stage_room :: "(nat \<Rightarrow> nat) \<Rightarrow> nat \<Rightarrow> uplink_stage \<Rightarrow> bool \<times> uplink_stage" where
  "stage_room alloc n s =
    (if length (stage s) + n > stage_cap s then
       (case flush_uplink s of
          (False, s1) \<Rightarrow> (False, s1)
        | (True, s1) \<Rightarrow>
           (True, if stage_cap s1 < UPLINK_STAGE_CAPACITY
                  then try_reserve_exact alloc (UPLINK_STAGE_CAPACITY - stage_cap s1) s1 else s1))
     else (True, s))"

text \<open>The flush before a read that could block.\<close>

definition flush_unless :: "bool \<Rightarrow> uplink_stage \<Rightarrow> bool \<times> uplink_stage" where
  "flush_unless has_buffered_record s = (if has_buffered_record then (True, s) else flush_uplink s)"

text \<open>One record: the decoder's mode, or the error of the decoder or of the flush for room.\<close>

definition uplink_record ::
  "(nat \<Rightarrow> nat) \<Rightarrow> bytes \<Rightarrow> vision_decoder \<Rightarrow> uplink_stage
   \<Rightarrow> ((uplink_error + vision_mode) \<times> vision_decoder \<times> uplink_stage) option"
where
  "uplink_record alloc rec d s =
    (case stage_room alloc (length rec) s of
       (False, s1) \<Rightarrow> Some (Err UplinkIo, d, s1)
     | (True, s1) \<Rightarrow>
        map_option (\<lambda>(res, d', out).
            case res of
              Inl err \<Rightarrow> (Err (UplinkDecode err), d', set_stage alloc out s1)
            | Inr (mode, payload) \<Rightarrow>
               (Ok mode, d', set_stage alloc (case payload of Borrowed content \<Rightarrow> out @ content | Staged \<Rightarrow> out) s1))
          (decode_borrowed_append d rec (stage s1)))"

definition uplink_direct ::
  "uplink_stage \<Rightarrow> (uplink_error + uplink_step) \<times> uplink_stage"
where
  "uplink_direct s =
    (case flush_uplink s of
       (False, s1) \<Rightarrow> (Err UplinkIo, s1)
     | (True, s1) \<Rightarrow> (Ok (UplinkDirect (up_bytes s1)), s1))"

definition uplink_close ::
  "uplink_stage \<Rightarrow> ('r, 'w) direct_handoff \<Rightarrow> (uplink_error + uplink_step) \<times> uplink_stage \<times> ('r, 'w) direct_handoff"
where
  "uplink_close s h =
    (case flush_uplink s of
       (False, s1) \<Rightarrow> (Err UplinkIo, s1, h)
     | (True, s1) \<Rightarrow>
        (case dest_shutdown (up_dest s1) of
           (False, w) \<Rightarrow> (Err UplinkIo, s1\<lparr>up_dest := w\<rparr>, h)
         | (True, w) \<Rightarrow> (Ok (UplinkFramed (up_bytes s1)), s1\<lparr>up_dest := w\<rparr>, Direct_Handoff.settle h Uplink Closed)))"

fun uplink_loop ::
  "(nat \<Rightarrow> nat) \<Rightarrow> (bool \<times> uplink_event) list \<Rightarrow> vision_decoder \<Rightarrow> uplink_stage \<Rightarrow> ('r, 'w) direct_handoff
   \<Rightarrow> ((uplink_error + uplink_step) \<times> (bool \<times> uplink_event) list \<times> uplink_stage \<times> ('r, 'w) direct_handoff) option"
where
  "uplink_loop alloc [] d s h =
    (case flush_uplink s of
       (False, s1) \<Rightarrow> Some (Err UplinkIo, [], s1, h)
     | (True, s1) \<Rightarrow> Some (Err UplinkTls, [], s1, Direct_Handoff.settle h Uplink Failed))"
| "uplink_loop alloc ((has_buffered, event) # rest) d s h =
    (case flush_unless has_buffered s of
       (False, s1) \<Rightarrow> Some (Err UplinkIo, (has_buffered, event) # rest, s1, h)
     | (True, s1) \<Rightarrow>
        (case event of
           UpFailed \<Rightarrow> Some (Err UplinkTls, rest, s1, Direct_Handoff.settle h Uplink Failed)
         | UpCloseNotify \<Rightarrow> (case uplink_close s1 h of (res, s2, h') \<Rightarrow> Some (res, rest, s2, h'))
         | UpRecord rec \<Rightarrow>
            if rec = [] then uplink_loop alloc rest d s1 h
            else
              Option.bind (uplink_record alloc rec d s1) (\<lambda>(res, d', s2).
                case res of
                  Inl err \<Rightarrow> Some (Err err, rest, s2, h)
                | Inr mode \<Rightarrow>
                   if mode = DirectMode then (case uplink_direct s2 of (res, s3) \<Rightarrow> Some (res, rest, s3, h))
                   else uplink_loop alloc rest d' s2 h)))"

text \<open>The borrowed range of the request buffer, absent when it does not fit.\<close>

definition prefetched_bytes :: "bytes \<Rightarrow> nat \<times> nat \<Rightarrow> bytes" where
  "prefetched_bytes buffer rng =
    (if fst rng \<le> snd rng \<and> snd rng \<le> length buffer then take (snd rng - fst rng) (drop (fst rng) buffer)
     else [])"

definition relay_uplink_framed ::
  "(nat \<Rightarrow> nat) \<Rightarrow> bytes \<Rightarrow> bytes \<Rightarrow> nat \<times> nat \<Rightarrow> (bool \<times> uplink_event) list \<Rightarrow> dest_writer \<Rightarrow> ('r, 'w) direct_handoff
   \<Rightarrow> ((uplink_error + uplink_step) \<times> (bool \<times> uplink_event) list \<times> uplink_stage \<times> ('r, 'w) direct_handoff) option"
where
  "relay_uplink_framed alloc user request_buffer prefetched events w h =
    (let d = vision_decoder_new user;
         s = \<lparr>stage = [], stage_cap = alloc MAX_PLAINTEXT_LEN, up_dest = w, up_bytes = 0\<rparr>;
         initial = prefetched_bytes request_buffer prefetched
     in if initial = [] then uplink_loop alloc events d s h
        else
          Option.bind (decode_append d initial []) (\<lambda>(res, d', out).
            case res of
              Inl err \<Rightarrow> Some (Err (UplinkDecode err), events, set_stage alloc out s, h)
            | Inr mode \<Rightarrow>
               (case flush_uplink (set_stage alloc out s) of
                  (False, s1) \<Rightarrow> Some (Err UplinkIo, events, s1, h)
                | (True, s1) \<Rightarrow>
                   if mode = DirectMode then Some (Ok (UplinkDirect (up_bytes s1)), events, s1, h)
                   else uplink_loop alloc events d' s1 h)))"

text \<open>
  The growth asks for the difference of the capacities on top of the empty stage, so with an
  exact allocator the stage grows from one record to three, not to the four of
  \<open>UPLINK_STAGE_CAPACITY\<close>, and stays there.
\<close>

lemma stage_grows_to_three_records:
  assumes "stage_room id n s = (True, s')" and "length (stage s) + n > stage_cap s"
    and "stage_cap s = MAX_PLAINTEXT_LEN \<or> stage_cap s = 3 * MAX_PLAINTEXT_LEN"
  shows "stage_cap s' = 3 * MAX_PLAINTEXT_LEN" "stage_cap s' < UPLINK_STAGE_CAPACITY"
proof -
  obtain s1 where f: "flush_uplink s = (True, s1)"
    using assms(1,2) by (auto simp: stage_room_def split: prod.splits bool.splits)
  then have "stage s1 = []" "stage_cap s1 = stage_cap s"
    by (auto simp: flush_uplink_def split: if_splits prod.splits bool.splits)
  then show "stage_cap s' = 3 * MAX_PLAINTEXT_LEN" "stage_cap s' < UPLINK_STAGE_CAPACITY"
    using assms f by (auto simp: stage_room_def try_reserve_exact_def UPLINK_STAGE_CAPACITY_def MAX_PLAINTEXT_LEN_def)
qed

section \<open>What reaches the destination\<close>

text \<open>
  The destination has received some bytes since \<open>wr\<close> and the stage holds others: together they
  are the payload decoded so far, and the count is that of the bytes written.
\<close>

definition staged :: "dest_writer \<Rightarrow> bytes \<Rightarrow> uplink_stage \<Rightarrow> bool" where
  "staged wr out s \<longleftrightarrow> (\<exists>w. dw_bytes (up_dest s) = dw_bytes wr @ w \<and> out = w @ stage s \<and> up_bytes s = sat_add 0 (length w))"

definition received :: "dest_writer \<Rightarrow> bytes \<Rightarrow> uplink_stage \<Rightarrow> bool" where
  "received wr out s \<longleftrightarrow> (\<exists>w. dw_bytes (up_dest s) = dw_bytes wr @ w \<and> prefix w out)"

lemma staged_received: "staged wr out s \<Longrightarrow> received wr out s"
  by (auto simp: staged_def received_def)

lemma received_mono: "received wr out s \<Longrightarrow> received wr (out @ more') s"
  by (auto simp: received_def)

lemma staged_set_stage: "staged wr out s \<Longrightarrow> staged wr (out @ bs) (set_stage alloc (stage s @ bs) s)"
  by (auto simp: staged_def set_stage_def)

lemma flush_staged:
  assumes "flush_uplink s = (ok, s')" and "staged wr out s"
  shows "received wr out s'" "ok \<Longrightarrow> staged wr out s' \<and> stage s' = []"
proof -
  obtain w where w: "dw_bytes (up_dest s) = dw_bytes wr @ w" "out = w @ stage s" "up_bytes s = sat_add 0 (length w)"
    using assms(2) by (auto simp: staged_def)
  have pre: "prefix (w @ take n (stage s)) out" for n
    unfolding w(2) by (simp add: take_is_prefix)
  obtain k w' where d: "dest_write (stage s) (up_dest s) = (k, w')"
    by fastforce
  have "k \<Longrightarrow> dw_bytes w' = dw_bytes wr @ out" "\<not> k \<Longrightarrow> \<exists>n. dw_bytes w' = dw_bytes wr @ w @ take n (stage s)"
    using d w(1,2) by (auto simp: dest_write_def split: list.splits option.splits)
  then show "received wr out s'" "ok \<Longrightarrow> staged wr out s' \<and> stage s' = []"
    using assms(1) d w pre
    by (auto simp: flush_uplink_def staged_def received_def sat_add_assoc split: if_splits bool.splits)
qed

lemma stage_room_staged:
  assumes "stage_room alloc n s = (ok, s')" and "staged wr out s"
  shows "received wr out s'" "ok \<Longrightarrow> staged wr out s'"
proof -
  obtain k s1 where f: "flush_uplink s = (k, s1)"
    by fastforce
  note fs = flush_staged [OF f assms(2)]
  have "staged wr out (try_reserve_exact alloc m s1) = staged wr out s1"
    "received wr out (try_reserve_exact alloc m s1) = received wr out s1" for m
    by (simp_all add: try_reserve_exact_def staged_def received_def)
  then show "received wr out s'" "ok \<Longrightarrow> staged wr out s'"
    using assms f fs staged_received [OF assms(2)]
    by (auto simp: stage_room_def staged_received split: if_splits bool.splits)
qed

text \<open>A record adds to the stage exactly what the reference decoder yields on it.\<close>

lemma decode_borrowed_run:
  assumes "vision_decoder_ok d"
  shows "\<exists>res d' out'. decode_borrowed_append d bs out = Some (res, d', out')
    \<and> (case run_bytes d bs [] of
          Inl e \<Rightarrow> res = Err e
        | Inr (d2, new) \<Rightarrow> \<exists>payload. res = Ok (vd_mode d2, payload) \<and> d' = d2
            \<and> (case payload of Borrowed content \<Rightarrow> out' @ content | Staged \<Rightarrow> out') = out @ new)"
proof (cases "vd_mode d = vision_mode.Framed")
  case False
  then show ?thesis
    using assms by (simp add: decode_borrowed_append_def vision_decoder_ok_def run_unframed)
next
  case True
  obtain r d' out' where r: "decode_append d bs out = Some (r, d', out')"
    "case run_bytes d bs out of Inl e \<Rightarrow> r = Err e \<and> vd_failed d'
      | Inr (d2, out2) \<Rightarrow> r = Ok (vd_mode d2) \<and> d' = d2 \<and> out' = out2"
    using decode_append_run [OF assms] by blast
  show ?thesis
    using r True run_bytes_out [of d bs out]
    by (cases "run_bytes d bs []") (auto simp: decode_borrowed_append_def)
qed

lemma uplink_record_run:
  assumes "vision_decoder_ok d" and "staged wr out s"
  shows "\<exists>res d' s'. uplink_record alloc rec d s = Some (res, d', s')
    \<and> (\<forall>e. res = Err e \<longrightarrow> received wr out s')
    \<and> (\<forall>mode. res = Ok mode \<longrightarrow> (\<exists>new. run_bytes d rec [] = Ok (d', new) \<and> mode = vd_mode d' \<and> staged wr (out @ new) s'))"
proof -
  obtain ok s1 where room: "stage_room alloc (length rec) s = (ok, s1)"
    by fastforce
  note st = stage_room_staged [OF room assms(2)]
  obtain res d' out' where dec: "decode_borrowed_append d rec (stage s1) = Some (res, d', out')"
    "case run_bytes d rec [] of Inl e \<Rightarrow> res = Err e
      | Inr (d2, new) \<Rightarrow> \<exists>payload. res = Ok (vd_mode d2, payload) \<and> d' = d2
          \<and> (case payload of Borrowed content \<Rightarrow> out' @ content | Staged \<Rightarrow> out') = stage s1 @ new"
    using decode_borrowed_run [OF assms(1), of rec "stage s1"] by blast
  have "received wr out (set_stage alloc x s1)" for x
    using st(1) by (simp add: received_def set_stage_def)
  then show ?thesis
    using room st dec staged_set_stage [OF st(2)]
    by (cases ok; cases "run_bytes d rec []") (auto simp: uplink_record_def)
qed

lemma flush_unless_staged:
  assumes "flush_unless b s = (ok, s')" and "staged wr out s"
  shows "received wr out s'" "ok \<Longrightarrow> staged wr out s'"
  using assms flush_staged [of s ok s' wr out] by (auto simp: flush_unless_def staged_received split: if_splits)

lemma flushed_all: "staged wr out s \<Longrightarrow> stage s = [] \<Longrightarrow> dw_bytes (up_dest s) = dw_bytes wr @ out \<and> up_bytes s = sat_add 0 (length out)"
  by (auto simp: staged_def)

section \<open>The whole direction\<close>

fun up_payload :: "bool \<times> uplink_event \<Rightarrow> bytes" where
  "up_payload (_, UpRecord rec) = rec"
| "up_payload _ = []"

definition client_bytes :: "(bool \<times> uplink_event) list \<Rightarrow> bytes" where
  "client_bytes events = concat (map up_payload events)"

text \<open>How the framed uplink ends, seen by the decoder, the destination and the coordinator.\<close>

definition uplink_ends ::
  "uplink_step \<Rightarrow> bytes \<Rightarrow> vision_mode \<Rightarrow> uplink_stage \<Rightarrow> ('r, 'w) direct_handoff \<Rightarrow> ('r, 'w) direct_handoff \<Rightarrow> bool"
where
  "uplink_ends stp out mode s' h h' \<longleftrightarrow>
    (case stp of
       UplinkDirect n \<Rightarrow> mode = DirectMode \<and> n = sat_add 0 (length out) \<and> h' = h
     | UplinkFramed n \<Rightarrow> mode \<noteq> DirectMode \<and> n = sat_add 0 (length out) \<and> dw_shut (up_dest s')
         \<and> (state h Uplink = direction_state.Framed \<longrightarrow> state h' Uplink = Closed))"

text \<open>
  What a run that starts with the payload \<open>out\<close> decoded leaves: the destination never holds
  more than the payload of the records taken, and after a success it holds all of it.
\<close>

definition relays ::
  "dest_writer \<Rightarrow> bytes \<Rightarrow> vision_decoder \<Rightarrow> (bool \<times> uplink_event) list \<Rightarrow> ('r, 'w) direct_handoff
   \<Rightarrow> (uplink_error + uplink_step) \<times> (bool \<times> uplink_event) list \<times> uplink_stage \<times> ('r, 'w) direct_handoff \<Rightarrow> bool"
where
  "relays wr out d events h = (\<lambda>(res, rest, s', h').
    \<exists>consumed tail d' new. events = consumed @ tail \<and> run_bytes d (client_bytes consumed) [] = Ok (d', new)
      \<and> received wr (out @ new) s'
      \<and> (\<forall>stp. res = Ok stp \<longrightarrow> tail = rest \<and> dw_bytes (up_dest s') = dw_bytes wr @ out @ new
           \<and> uplink_ends stp (out @ new) (vd_mode d') s' h h'))"

lemma relays_stop: "received wr out s' \<Longrightarrow> relays wr out d events h (Err e, rest, s', h')"
  unfolding relays_def prod.case
  by (intro exI [of _ "[]"] exI [of _ events] exI [of _ d] exI [of _ "[]"]) (simp add: client_bytes_def)

lemma relays_step:
  assumes "run_bytes d (up_payload ev) [] = Ok (d1, new)" and "relays wr (out @ new) d1 events h r"
  shows "relays wr out d (ev # events) h r"
proof -
  obtain res rest s' h' where r: "r = (res, rest, s', h')"
    by (cases r) auto
  then obtain consumed tail d' new' where c: "events = consumed @ tail" "run_bytes d1 (client_bytes consumed) [] = Ok (d', new')"
    "received wr ((out @ new) @ new') s'"
    "\<forall>stp. res = Ok stp \<longrightarrow> tail = rest \<and> dw_bytes (up_dest s') = dw_bytes wr @ (out @ new) @ new'
       \<and> uplink_ends stp ((out @ new) @ new') (vd_mode d') s' h h'"
    using assms(2) unfolding relays_def by blast
  have "run_bytes d (client_bytes (ev # consumed)) [] = Ok (d', new @ new')"
    using assms(1) c(2) run_bytes_out [of d1 "client_bytes consumed" new] by (simp add: client_bytes_def run_bytes_append)
  then show ?thesis
    unfolding relays_def r prod.case
    by (intro exI [of _ "ev # consumed"] exI [of _ tail] exI [of _ d'] exI [of _ "new @ new'"]) (use c in auto)
qed

lemma relays_end:
  assumes "received wr out s'"
    and "\<And>stp. res = Ok stp \<Longrightarrow> dw_bytes (up_dest s') = dw_bytes wr @ out \<and> uplink_ends stp out (vd_mode d) s' h h'"
  shows "relays wr out d rest h (res, rest, s', h')"
  unfolding relays_def prod.case using assms
  by (intro exI [of _ "[]"] exI [of _ rest] exI [of _ d] exI [of _ "[]"]) (simp add: client_bytes_def)

lemma settle_uplink_Closed:
  "state h Uplink = direction_state.Framed \<Longrightarrow> state (Direct_Handoff.settle h Uplink Closed) Uplink = Closed"
  by (simp add: Direct_Handoff.settle_def advance_def state_def set_cell.simps Let_def)

lemma uplink_close_relays:
  assumes "uplink_close s h = (res, s', h')" and "staged wr out s" and "vd_mode d \<noteq> DirectMode"
  shows "relays wr out d rest h (res, rest, s', h')"
proof -
  obtain ok s1 where f: "flush_uplink s = (ok, s1)"
    by fastforce
  note fs = flush_staged [OF f assms(2)]
  obtain k w where d: "dest_shutdown (up_dest s1) = (k, w)"
    by fastforce
  then have "dw_bytes w = dw_bytes (up_dest s1)" "k \<Longrightarrow> dw_shut w"
    by (auto simp: dest_shutdown_def split: list.splits option.splits)
  then show ?thesis
    using assms(1,3) f d fs flushed_all [of wr out s1] settle_uplink_Closed [of h]
    by (intro relays_end) (auto simp: uplink_close_def uplink_ends_def received_def split: bool.splits)
qed

lemma uplink_direct_relays:
  assumes "uplink_direct s = (res, s')" and "staged wr out s" and "vd_mode d = DirectMode"
  shows "relays wr out d rest h (res, rest, s', h)"
proof -
  obtain ok s1 where f: "flush_uplink s = (ok, s1)"
    by fastforce
  note fs = flush_staged [OF f assms(2)]
  show ?thesis
    using assms(1,3) f fs flushed_all [of wr out s1]
    by (intro relays_end) (auto simp: uplink_direct_def uplink_ends_def split: bool.splits)
qed

lemma uplink_loop_relays:
  assumes "vision_decoder_ok d" and "staged wr out s" and "vd_mode d \<noteq> DirectMode"
  shows "\<exists>r. uplink_loop alloc events d s h = Some r \<and> relays wr out d events h r"
  using assms
proof (induction events arbitrary: d s out)
  case Nil
  obtain ok s1 where "flush_uplink s = (ok, s1)"
    by fastforce
  then show ?case
    using flush_staged [OF _ Nil.prems(2)] by (cases ok) (auto intro: relays_stop)
next
  case (Cons ev events)
  obtain b event where ev: "ev = (b, event)"
    by fastforce
  obtain ok s1 where f: "flush_unless b s = (ok, s1)"
    by fastforce
  note fs = flush_unless_staged [OF f Cons.prems(2)]
  show ?case
  proof (cases "ok")
    case False
    then show ?thesis
      using f ev fs(1) by (auto intro: relays_stop)
  next
    case True
    note st = fs(2) [OF True]
    show ?thesis
    proof (cases event)
      case UpFailed
      then show ?thesis
        using f ev True fs(1) by (auto intro: relays_stop)
    next
      case UpCloseNotify
      obtain res s2 h' where c: "uplink_close s1 h = (res, s2, h')"
        by (cases "uplink_close s1 h") auto
      show ?thesis
        using relays_step [of d ev d "[]" wr out events h "(res, events, s2, h')"]
          uplink_close_relays [OF c st Cons.prems(3), of events] UpCloseNotify f ev True c by simp
    next
      case (UpRecord rec)
      show ?thesis
      proof (cases "rec = []")
        case empty: True
        then show ?thesis
          using Cons.IH [OF Cons.prems(1) st Cons.prems(3)] relays_step [of d ev d "[]" wr out events h] UpRecord f ev True
          by auto
      next
        case False
        obtain res d' s2 where rec: "uplink_record alloc rec d s1 = Some (res, d', s2)"
          "\<And>e. res = Err e \<Longrightarrow> received wr out s2"
          "\<And>mode. res = Ok mode \<Longrightarrow> \<exists>new. run_bytes d rec [] = Ok (d', new) \<and> mode = vd_mode d' \<and> staged wr (out @ new) s2"
          using uplink_record_run [OF Cons.prems(1) st, of alloc rec] by blast
        show ?thesis
        proof (cases res)
          case (Inl e)
          then show ?thesis
            using rec(1,2) False UpRecord f ev True by (auto intro: relays_stop)
        next
          case (Inr mode)
          then obtain new where new: "run_bytes d rec [] = Ok (d', new)" "mode = vd_mode d'" "staged wr (out @ new) s2"
            using rec(3) by blast
          have payload: "run_bytes d (up_payload ev) [] = Ok (d', new)"
            using new(1) ev UpRecord by simp
          show ?thesis
          proof (cases "mode = DirectMode")
            case direct: True
            obtain res3 s3 where u: "uplink_direct s2 = (res3, s3)"
              by fastforce
            show ?thesis
              using relays_step [OF payload uplink_direct_relays [OF u new(3), of d' events h]]
                rec(1) Inr direct u new(2) False UpRecord f ev True by simp
          next
            case framed: False
            have "vision_decoder_ok d'"
              using run_bytes_ok [OF new(1) Cons.prems(1)] .
            from Cons.IH [OF this new(3)] show ?thesis
              using relays_step [OF payload] rec(1) Inr framed new(2) False UpRecord f ev True by auto
          qed
        qed
      qed
    qed
  qed
qed

section \<open>Properties\<close>

text \<open>
  C39.  The framed uplink hands the destination exactly what the client framed.  It always
  returns, whatever the records, the batching, the capacities the allocator grants and the
  writes that fail.  There are records it took from the front of what the client sent such that
  the prefetched bytes and these records decode, by the byte-at-a-time reference, to a payload
  of which the destination holds a prefix; when the relay succeeds it holds all of it, nothing
  is left in the stage, and the count is its length.  A Direct end leaves the decoder in Direct
  mode, the following records unread and the coordinator untouched; a framed end has shut the
  destination down and closed the direction.
\<close>

theorem uplink_delivers:
  assumes "length user = 16"
  shows "\<exists>res rest s h'. relay_uplink_framed alloc user buffer prefetched events wr h = Some (res, rest, s, h')
    \<and> (\<exists>first consumed tail d out. (first = [] \<or> first = prefetched_bytes buffer prefetched) \<and> events = consumed @ tail
        \<and> run_bytes (vision_decoder_new user) (first @ client_bytes consumed) [] = Ok (d, out)
        \<and> (\<exists>w. dw_bytes (up_dest s) = dw_bytes wr @ w \<and> prefix w out)
        \<and> (\<forall>stp. res = Ok stp \<longrightarrow> first = prefetched_bytes buffer prefetched \<and> tail = rest
             \<and> dw_bytes (up_dest s) = dw_bytes wr @ out \<and> uplink_ends stp out (vd_mode d) s h h'))"
proof -
  let ?d = "vision_decoder_new user" and ?init = "prefetched_bytes buffer prefetched"
  let ?s = "\<lparr>stage = [], stage_cap = alloc MAX_PLAINTEXT_LEN, up_dest = wr, up_bytes = 0\<rparr>"
  have ok: "vision_decoder_ok ?d" and framed: "vd_mode ?d = vision_mode.Framed"
    using vision_decoder_ok_new [OF assms] by (simp_all add: vision_decoder_new_def)
  have start: "staged wr [] ?s"
    by (simp add: staged_def sat_add_def)
  have "\<exists>r first d out. relay_uplink_framed alloc user buffer prefetched events wr h = Some r
      \<and> (first = ?init \<or> first = [] \<and> \<not> is_ok (fst r))
      \<and> run_bytes ?d first [] = Ok (d, out) \<and> relays wr out d events h r"
  proof (cases "?init = []")
    case True
    obtain r where "uplink_loop alloc events ?d ?s h = Some r" "relays wr [] ?d events h r"
      using uplink_loop_relays [OF ok start, of alloc events h] framed by auto
    then show ?thesis
      using True by (intro exI [of _ r] exI [of _ "[]"] exI [of _ ?d] exI [of _ "[]"]) (simp add: relay_uplink_framed_def)
  next
    case False
    obtain res d1 out1 where dec: "decode_append ?d ?init [] = Some (res, d1, out1)"
      "case run_bytes ?d ?init [] of Inl e \<Rightarrow> res = Err e \<and> vd_failed d1
        | Inr (d2, out2) \<Rightarrow> res = Ok (vd_mode d2) \<and> d1 = d2 \<and> out1 = out2"
      using decode_append_run [OF ok, of ?init "[]"] by blast
    show ?thesis
    proof (cases "run_bytes ?d ?init []")
      case (Inl e)
      have "received wr [] (set_stage alloc out1 ?s)"
        by (simp add: received_def set_stage_def)
      then show ?thesis
        using False dec Inl relays_stop [of wr "[]" _ ?d events h]
        by (intro exI [of _ "(Err (UplinkDecode e), events, set_stage alloc out1 ?s, h)"] exI [of _ "[]"] exI [of _ ?d] exI [of _ "[]"])
           (simp add: relay_uplink_framed_def)
    next
      case (Inr v)
      then have run: "run_bytes ?d ?init [] = Ok (d1, out1)" "res = Ok (vd_mode d1)"
        using dec(2) by auto
      let ?s1 = "set_stage alloc out1 ?s"
      have st: "staged wr out1 ?s1"
        using staged_set_stage [OF start, of out1 alloc] by simp
      obtain k s2 where f: "flush_uplink ?s1 = (k, s2)"
        by fastforce
      note fs = flush_staged [OF f st]
      have eq: "relay_uplink_framed alloc user buffer prefetched events wr h =
          (if \<not> k then Some (Err UplinkIo, events, s2, h)
           else if vd_mode d1 = DirectMode then Some (Ok (UplinkDirect (up_bytes s2)), events, s2, h)
           else uplink_loop alloc events d1 s2 h)"
        using False dec(1) run(2) f by (simp add: relay_uplink_framed_def)
      have "\<exists>r. relay_uplink_framed alloc user buffer prefetched events wr h = Some r \<and> relays wr out1 d1 events h r"
        unfolding eq using fs flushed_all [of wr out1 s2] uplink_loop_relays [of d1 wr out1 s2 alloc events h]
          run_bytes_ok [OF run(1) ok]
        by (auto intro: relays_stop relays_end simp: uplink_ends_def)
      then show ?thesis
        using run(1) by blast
    qed
  qed
  then obtain r first d out where "relay_uplink_framed alloc user buffer prefetched events wr h = Some r"
    "first = ?init \<or> first = [] \<and> \<not> is_ok (fst r)" "run_bytes ?d first [] = Ok (d, out)" "relays wr out d events h r"
    by blast
  then obtain res rest s h' where r: "relay_uplink_framed alloc user buffer prefetched events wr h = Some (res, rest, s, h')"
    "first = ?init \<or> first = [] \<and> \<not> is_ok res" "run_bytes ?d first [] = Ok (d, out)" "relays wr out d events h (res, rest, s, h')"
    by (cases r) auto
  then obtain consumed tail d' new where c: "events = consumed @ tail" "run_bytes d (client_bytes consumed) [] = Ok (d', new)"
    "received wr (out @ new) s" "\<forall>stp. res = Ok stp \<longrightarrow> tail = rest \<and> dw_bytes (up_dest s) = dw_bytes wr @ out @ new
       \<and> uplink_ends stp (out @ new) (vd_mode d') s h h'"
    unfolding relays_def by blast
  have "run_bytes ?d (first @ client_bytes consumed) [] = Ok (d', out @ new)"
    using r(3) c(2) run_bytes_out [of d "client_bytes consumed" out] by (simp add: run_bytes_append)
  moreover have "first = [] \<or> first = ?init" "res = Ok stp \<Longrightarrow> first = ?init" for stp
    using r(2) by auto
  ultimately show ?thesis
    using r(1) c unfolding received_def by blast
qed

definition demo_dest :: dest_writer where
  "demo_dest = \<lparr>dw_bytes = [], dw_failures = [], dw_shut = False\<rparr>"

text \<open>A client that sends one frame and closes.\<close>

lemma demo_uplink:
  "\<exists>s h'. relay_uplink_framed (\<lambda>_. 64) (replicate 16 7) [] (0, 0) [(False, UpRecord demo_frame), (False, UpCloseNotify)]
     demo_dest (handoff_new :: (nat, nat) direct_handoff) = Some (Ok (UplinkFramed 3), [], s, h')"
proof -
  let ?d = "vision_decoder_new (replicate 16 7)"
  have ok: "vision_decoder_ok ?d"
    by (simp add: vision_decoder_ok_new)
  have "case run_bytes ?d demo_frame [] of Inl _ \<Rightarrow> False | Inr (d, out) \<Rightarrow> out = [65, 66, 67] \<and> vd_mode d = Raw"
    by code_simp
  then obtain d where "run_bytes ?d demo_frame [] = Ok (d, [65, 66, 67])" "vd_mode d = Raw"
    by (auto split: sum.splits)
  then obtain payload d' out' where "decode_borrowed_append ?d demo_frame [] = Some (Ok (Raw, payload), d', out')"
    "(case payload of Borrowed content \<Rightarrow> out' @ content | Staged \<Rightarrow> out') = [65, 66, 67]"
    using decode_borrowed_run [OF ok, of demo_frame "[]"] by auto
  moreover have "length demo_frame = 25" "demo_frame \<noteq> []"
    by (simp_all add: demo_frame_def)
  ultimately show ?thesis
    by (simp add: relay_uplink_framed_def prefetched_bytes_def flush_unless_def flush_uplink_def uplink_record_def stage_room_def
        set_stage_def uplink_close_def dest_write_def dest_shutdown_def demo_dest_def sat_add_def)
qed

theorem uplink_delivers_witness:
  "\<exists>s h' out. relay_uplink_framed (\<lambda>_. 64) (replicate 16 7) [] (0, 0) [(False, UpRecord demo_frame), (False, UpCloseNotify)]
     demo_dest (handoff_new :: (nat, nat) direct_handoff) = Some (Ok (UplinkFramed 3), [], s, h')
   \<and> dw_bytes (up_dest s) = out \<and> length out = 3
   \<and> (\<exists>d. run_bytes (vision_decoder_new (replicate 16 7)) demo_frame [] = Ok (d, out))"
proof -
  have user: "length (replicate 16 (7 :: byte)) = 16"
    by simp
  let ?events = "[(False, UpRecord demo_frame), (False, UpCloseNotify)]"
  obtain s h' where run: "relay_uplink_framed (\<lambda>_. 64) (replicate 16 7) [] (0, 0) ?events demo_dest
      (handoff_new :: (nat, nat) direct_handoff) = Some (Ok (UplinkFramed 3), [], s, h')"
    using demo_uplink by blast
  have init: "prefetched_bytes [] (0, 0) = []"
    by (simp add: prefetched_bytes_def)
  obtain first consumed tail d out where "first = []" "?events = consumed @ tail"
    "run_bytes (vision_decoder_new (replicate 16 7)) (first @ client_bytes consumed) [] = Ok (d, out)" "tail = []"
    "dw_bytes (up_dest s) = dw_bytes demo_dest @ out" "uplink_ends (UplinkFramed 3) out (vd_mode d) s handoff_new h'"
    using uplink_delivers [OF user, of "\<lambda>_. 64" "[]" "(0, 0)" ?events demo_dest "handoff_new :: (nat, nat) direct_handoff"]
    unfolding run init option.inject prod.inject by blast
  then show ?thesis
    using run by (auto simp: client_bytes_def demo_dest_def uplink_ends_def sat_add_def)
qed

end
