(* ===== verification/Frame_Stream.thy ===== *)
theory Frame_Stream
  imports Stream_Decoder
begin

text \<open>
  Streams of frames.  The datagram protocols that run over a byte stream keep a plaintext
  buffer: whatever arrives is appended, every complete frame is drained off the front, and the
  bytes of an incomplete frame stay for the next arrival.  Such a loop is proved once, for any
  frame decoder that keeps the contract of the stream decoders and uses up at least one byte per frame,
  to be independent of how the stream was cut.
\<close>

section \<open>The loop\<close>

text \<open>
  One call of the loop: the frames and what is left in the buffer.  A decoder that used nothing
  would make the loop spin; it ends here, and the contract below excludes it.
\<close>

function drain_with ::
  "('e, 'a) decoder \<Rightarrow> ('e \<Rightarrow> bool) \<Rightarrow> bytes \<Rightarrow> 'e + ('a list \<times> bytes)"
where
  "drain_with dec incomplete buffer =
    (case dec buffer of
       Inl e \<Rightarrow> if incomplete e then Ok ([], buffer) else Err e
     | Inr (x, rest) \<Rightarrow>
        if length rest < length buffer
        then and_then (drain_with dec incomplete rest) (\<lambda>(xs, left). Ok (x # xs, left))
        else Ok ([x], rest))"
  by pat_completeness auto
termination
  by (relation "measure (\<lambda>(_, _, buffer). length buffer)") auto

declare drain_with.simps [simp del]

text \<open>The caller: each arrival is appended to what is left and drained.\<close>

fun feed_with ::
  "(bytes \<Rightarrow> 'e + ('a list \<times> bytes)) \<Rightarrow> bytes list \<Rightarrow> bytes \<Rightarrow> 'e + ('a list \<times> bytes)"
where
  "feed_with drain [] buffer = Ok ([], buffer)"
| "feed_with drain (seg # segs) buffer =
    and_then (drain (buffer @ seg)) (\<lambda>(xs, left).
    and_then (feed_with drain segs left) (\<lambda>(ys, left'). Ok (xs @ ys, left')))"

lemma feed_map_err: "feed_with (\<lambda>b. map_err g (drain b)) segs buffer = map_err g (feed_with drain segs buffer)"
proof (induction segs arbitrary: buffer)
  case (Cons seg segs)
  show ?case
  proof (cases "drain (buffer @ seg)")
    case (Inr r)
    then show ?thesis
      using Cons.IH [of "snd r"] by (cases "feed_with drain segs (snd r)") (auto simp: case_prod_beta)
  qed simp
qed simp

section \<open>Independence of the cuts\<close>

locale frame_decoder = stream_decoder +
  assumes dec_uses: "dec bs = Ok (x, rest) \<Longrightarrow> length rest < length bs"
begin

lemma drain_Err:
  "drain_with dec incomplete bs = Err e \<Longrightarrow> drain_with dec incomplete (bs @ ext) = Err e"
proof (induction "length bs" arbitrary: bs rule: less_induct)
  case less
  show ?case
  proof (cases "dec bs")
    case (Inl e')
    then show ?thesis
      using less.prems dec_final [OF Inl, of ext]
      by (simp add: drain_with.simps [of dec incomplete bs] drain_with.simps [of dec incomplete "bs @ ext"] split: if_splits)
  next
    case (Inr r)
    obtain x rest where r: "dec bs = Ok (x, rest)"
      using Inr by (cases r) simp
    have "drain_with dec incomplete rest = Err e"
      using less.prems dec_uses [OF r] r
      by (cases "drain_with dec incomplete rest") (auto simp: drain_with.simps [of dec incomplete bs])
    then show ?thesis
      using less.hyps [OF dec_uses [OF r]] dec_more [OF r, of ext] dec_uses [OF r]
      by (simp add: drain_with.simps [of dec incomplete "bs @ ext"])
  qed
qed

lemma drain_Ok:
  "drain_with dec incomplete bs = Ok (xs, left) \<Longrightarrow>
   drain_with dec incomplete (bs @ ext) =
     and_then (drain_with dec incomplete (left @ ext)) (\<lambda>(ys, left'). Ok (xs @ ys, left'))"
proof (induction "length bs" arbitrary: bs xs rule: less_induct)
  case less
  show ?case
  proof (cases "dec bs")
    case (Inl e')
    then show ?thesis
      using less.prems
      by (cases "drain_with dec incomplete (left @ ext)")
        (auto simp: drain_with.simps [of dec incomplete bs] split: if_splits)
  next
    case (Inr r)
    obtain x rest where r: "dec bs = Ok (x, rest)"
      using Inr by (cases r) simp
    obtain ys where y: "drain_with dec incomplete rest = Ok (ys, left)" "xs = x # ys"
      using less.prems dec_uses [OF r] r
      by (cases "drain_with dec incomplete rest") (auto simp: drain_with.simps [of dec incomplete bs])
    show ?thesis
      using less.hyps [OF dec_uses [OF r] y(1)] y(2) dec_more [OF r, of ext] dec_uses [OF r]
      by (cases "drain_with dec incomplete (left @ ext)")
        (auto simp: drain_with.simps [of dec incomplete "bs @ ext"])
  qed
qed

text \<open>What a call leaves in the buffer has no complete frame.\<close>

lemma drain_left: "drain_with dec incomplete bs = Ok (xs, left) \<Longrightarrow> drain_with dec incomplete left = Ok ([], left)"
proof (induction "length bs" arbitrary: bs xs rule: less_induct)
  case less
  show ?case
  proof (cases "dec bs")
    case (Inl e')
    then show ?thesis
      using less.prems drain_with.simps [of dec incomplete left]
      by (auto simp: drain_with.simps [of dec incomplete bs] split: if_splits)
  next
    case (Inr r)
    obtain x rest where r: "dec bs = Ok (x, rest)"
      using Inr by (cases r) simp
    then obtain ys where "drain_with dec incomplete rest = Ok (ys, left)"
      using less.prems dec_uses [OF r]
      by (cases "drain_with dec incomplete rest") (auto simp: drain_with.simps [of dec incomplete bs])
    then show ?thesis
      using less.hyps [OF dec_uses [OF r]] by blast
  qed
qed

text \<open>However a stream is cut, its frames are those of the whole stream, and an error shows in time.\<close>

lemma feed_drain:
  "drain_with dec incomplete buffer = Ok ([], buffer) \<Longrightarrow>
   feed_with (drain_with dec incomplete) segs buffer = drain_with dec incomplete (buffer @ concat segs)"
proof (induction segs arbitrary: buffer)
  case (Cons seg segs)
  show ?case
  proof (cases "drain_with dec incomplete (buffer @ seg)")
    case (Inl e)
    then show ?thesis
      using drain_Err [OF Inl] by simp
  next
    case (Inr r)
    obtain xs left where r: "drain_with dec incomplete (buffer @ seg) = Ok (xs, left)"
      using Inr by (cases r) simp
    show ?thesis
      using Cons.IH [OF drain_left [OF r]] drain_Ok [OF r, of "concat segs"] r by simp
  qed
qed simp

text \<open>Encoded frames one after the other are drained in order.\<close>

lemma drain_frames:
  assumes empty: "\<exists>e. dec [] = Err e \<and> incomplete e"
    and frames: "\<And>f x rest. (f, x) \<in> set fxs \<Longrightarrow> dec (f @ rest) = Ok (x, rest)"
  shows "drain_with dec incomplete (concat (map fst fxs)) = Ok (map snd fxs, [])"
  using frames
proof (induction fxs)
  case Nil
  then show ?case
    using empty by (auto simp: drain_with.simps [of dec incomplete "[]"])
next
  case (Cons fx fxs)
  obtain f x where fx: "fx = (f, x)"
    by (cases fx)
  have "drain_with dec incomplete (concat (map fst fxs)) = Ok (map snd fxs, [])"
    using Cons by (meson list.set_intros(2))
  moreover have d: "dec (f @ concat (map fst fxs)) = Ok (x, concat (map fst fxs))"
    using Cons.prems fx by simp
  ultimately show ?case
    using dec_uses [OF d] by (simp add: drain_with.simps [of dec incomplete "f @ _"] fx)
qed

end

end
