(* ===== verification/Vless_Xudp.thy ===== *)
theory Vless_Xudp
  imports Vless_Decode Frame_Stream
begin

text \<open>
  The XUDP datagram framing of \<open>src/protocol/vless/xudp.rs\<close> with its UDP/443 policy helpers, and
  the draining of frames from the Vision plaintext in \<open>src/server/xudp.rs\<close> and
  \<open>src/client/xudp.rs\<close>.
\<close>

unbundle bit_operations_syntax

section \<open>Frames\<close>

definition VISION_FLOW_UDP443 :: bytes where "VISION_FLOW_UDP443 = ascii ''xtls-rprx-vision-udp443''"
definition XUDP_MAX_META_LEN :: nat where "XUDP_MAX_META_LEN = 512"
definition XRAY_BUF_SIZE :: nat where "XRAY_BUF_SIZE = 8 * 1024"
definition XUDP_MAX_PAYLOAD_LEN :: nat where "XUDP_MAX_PAYLOAD_LEN = XRAY_BUF_SIZE - 666"

lemma max_payload [simp]: "XUDP_MAX_PAYLOAD_LEN = 7526"
  by (simp add: XUDP_MAX_PAYLOAD_LEN_def XRAY_BUF_SIZE_def)

text \<open>The address types of this framing; the values are those of the VLESS header.\<close>

definition XUDP_IPV4 :: byte where "XUDP_IPV4 = 0x01"
definition XUDP_DOMAIN :: byte where "XUDP_DOMAIN = 0x02"
definition XUDP_IPV6 :: byte where "XUDP_IPV6 = 0x03"

lemmas xudp_types = XUDP_IPV4_def XUDP_DOMAIN_def XUDP_IPV6_def

datatype xudp_session_status = XNew | XKeep | XEnd | XKeepAlive

fun xudp_status_byte :: "xudp_session_status \<Rightarrow> byte" where
  "xudp_status_byte XNew = 1"
| "xudp_status_byte XKeep = 2"
| "xudp_status_byte XEnd = 3"
| "xudp_status_byte XKeepAlive = 4"

definition xudp_status_from_byte :: "byte \<Rightarrow> xudp_session_status option" where
  "xudp_status_from_byte b =
    (if b = 1 then Some XNew else if b = 2 then Some XKeep else if b = 3 then Some XEnd
     else if b = 4 then Some XKeepAlive else None)"

lemma xudp_status_byte_inverse [simp]: "xudp_status_from_byte (xudp_status_byte s) = Some s"
  by (cases s) (simp_all add: xudp_status_from_byte_def)

definition XUDP_DATA :: byte where "XUDP_DATA = 0x01"

definition has_data :: "byte \<Rightarrow> bool" where
  "has_data option_byte \<longleftrightarrow> (option_byte AND XUDP_DATA) \<noteq> 0"

lemma has_data_DATA [simp]: "has_data XUDP_DATA"
  by (simp add: has_data_def XUDP_DATA_def)

datatype xudp_network = XTcp | XUdp

fun xudp_network_byte :: "xudp_network \<Rightarrow> byte" where
  "xudp_network_byte XTcp = 1"
| "xudp_network_byte XUdp = 2"

definition xudp_network_from_byte :: "byte \<Rightarrow> xudp_network option" where
  "xudp_network_from_byte b = (if b = 1 then Some XTcp else if b = 2 then Some XUdp else None)"

record xudp_packet =
  session_id :: u16
  xp_status :: xudp_session_status
  xp_option :: byte
  xp_destination :: "destination option"
  global_id :: "bytes option"
  xp_payload :: bytes

datatype xudp_codec_error =
    Truncated string
  | MetaTooLarge nat
  | MetaTooSmall nat
  | UnknownStatus byte
  | UnknownNetwork byte
  | TcpNetworkRejected
  | XudpAddressType byte
  | XudpDomainTooLong nat
  | XudpEmptyDomain
  | InvalidDomainUtf8
  | XudpPayloadTooLarge nat
  | TrailingMetaBytes nat
  | SessionIdMustBeZero u16

section \<open>Policy helpers\<close>

definition config_flow_allows_udp_443 :: "bytes \<Rightarrow> bool" where
  "config_flow_allows_udp_443 config_flow \<longleftrightarrow> config_flow = VISION_FLOW_UDP443"

definition wire_vision_flow_from_config :: "bytes \<Rightarrow> bytes" where
  "wire_vision_flow_from_config config_flow =
    (if config_flow = VISION_FLOW_UDP443 then VISION_FLOW else config_flow)"

definition vision_udp_command_allows_port :: "bool \<Rightarrow> u16 \<Rightarrow> bool" where
  "vision_udp_command_allows_port allow_udp_443 port \<longleftrightarrow> allow_udp_443 \<or> port \<noteq> 443"

definition meta_body_is_xudp :: "bytes \<Rightarrow> bool" where
  "meta_body_is_xudp body \<longleftrightarrow>
    length body \<ge> 5 \<and> body ! 0 = 0 \<and> body ! 1 = 0 \<and> body ! 4 = xudp_network_byte XUdp"

definition frame_looks_like_xudp :: "bytes \<Rightarrow> bool" where
  "frame_looks_like_xudp frame =
    (if length frame < 2 then False
     else
      (let meta_len = unat (be_u16 (take 2 frame))
       in if meta_len < 5 \<or> length frame < 2 + meta_len then False
          else meta_body_is_xudp (take meta_len (drop 2 frame))))"

section \<open>Encoding\<close>

definition write_port_then_address :: "destination \<Rightarrow> xudp_codec_error + bytes" where
  "write_port_then_address d =
    (case dst_address d of
       Ipv4 a \<Rightarrow> Ok (u16_be (dst_port d) @ [XUDP_IPV4] @ u32_be a)
     | Ipv6 a \<Rightarrow> Ok (u16_be (dst_port d) @ [XUDP_IPV6] @ u128_be a)
     | DomainName n \<Rightarrow>
        if n = [] then Err XudpEmptyDomain
        else if length n > 255 then Err (XudpDomainTooLong (length n))
        else Ok (u16_be (dst_port d) @ [XUDP_DOMAIN, of_nat (length n)] @ n))"

text \<open>The staged metadata.\<close>

definition xudp_meta ::
  "destination \<Rightarrow> bool \<Rightarrow> bytes option \<Rightarrow> bool \<Rightarrow> xudp_codec_error + bytes"
where
  "xudp_meta d new_association gid rewrite_destination =
    (if new_association then
       and_then (write_port_then_address d) (\<lambda>a.
         Ok ([0, 0, xudp_status_byte XNew, XUDP_DATA, xudp_network_byte XUdp] @ a
             @ (case gid of None \<Rightarrow> [] | Some i \<Rightarrow> i)))
     else if rewrite_destination then
       and_then (write_port_then_address d) (\<lambda>a.
         Ok ([0, 0, xudp_status_byte XKeep, XUDP_DATA, xudp_network_byte XUdp] @ a))
     else Ok [0, 0, xudp_status_byte XKeep, XUDP_DATA])"

definition encode_xudp_packet ::
  "destination \<Rightarrow> bytes \<Rightarrow> bool \<Rightarrow> bytes option \<Rightarrow> bool \<Rightarrow> bytes \<Rightarrow> (xudp_codec_error + unit) \<times> bytes"
where
  "encode_xudp_packet d payload new_association gid rewrite_destination output =
    (if length payload > XUDP_MAX_PAYLOAD_LEN then (Err (XudpPayloadTooLarge (length payload)), output)
     else
      (case xudp_meta d new_association gid rewrite_destination of
         Inl e \<Rightarrow> (Err e, output)
       | Inr meta \<Rightarrow>
          if length meta > XUDP_MAX_META_LEN then (Err (MetaTooLarge (length meta)), output)
          else (Ok (), output @ u16_be (of_nat (length meta)) @ meta
                        @ u16_be (of_nat (length payload)) @ payload)))"

section \<open>Decoding\<close>

definition read_port_then_address :: "bytes \<Rightarrow> xudp_codec_error + (destination \<times> nat)" where
  "read_port_then_address input =
    (if length input < 3 then Err (Truncated ''port/address'')
     else
      (let port = be_u16 (take 2 input); address_type = input ! 2
       in if address_type = XUDP_IPV4 then
            (if length input < 7 then Err (Truncated ''ipv4'')
             else Ok (\<lparr>dst_address = Ipv4 (be_u32 (take 4 (drop 3 input))), dst_port = port\<rparr>, 7))
          else if address_type = XUDP_IPV6 then
            (if length input < 19 then Err (Truncated ''ipv6'')
             else Ok (\<lparr>dst_address = Ipv6 (be_u128 (take 16 (drop 3 input))), dst_port = port\<rparr>, 19))
          else if address_type = XUDP_DOMAIN then
            (if length input < 4 then Err (Truncated ''domain length'')
             else
              (let len = unat (input ! 3)
               in if len = 0 then Err XudpEmptyDomain
                  else if length input < 4 + len then Err (Truncated ''domain'')
                  else if \<not> valid_utf8 (take len (drop 4 input)) then Err InvalidDomainUtf8
                  else Ok (\<lparr>dst_address = DomainName (take len (drop 4 input)), dst_port = port\<rparr>, 4 + len)))
          else Err (XudpAddressType address_type)))"

definition no_trailing :: "nat \<Rightarrow> bytes \<Rightarrow> 'a \<Rightarrow> xudp_codec_error + 'a" where
  "no_trailing cursor meta x = (if cursor \<noteq> length meta then Err (TrailingMetaBytes (length meta - cursor)) else Ok x)"

text \<open>The match on the status: destination and GlobalID of the metadata.\<close>

definition decode_new_meta :: "byte \<Rightarrow> bytes \<Rightarrow> xudp_codec_error + (destination option \<times> bytes option)" where
  "decode_new_meta option_byte meta =
    (if length meta < 5 then Err (Truncated ''network'')
     else
      (case xudp_network_from_byte (meta ! 4) of
         None \<Rightarrow> Err (UnknownNetwork (meta ! 4))
       | Some XTcp \<Rightarrow> Err TcpNetworkRejected
       | Some XUdp \<Rightarrow>
          and_then (read_port_then_address (drop 5 meta)) (\<lambda>(dest, consumed).
            let cursor = 5 + consumed
            in if has_data option_byte \<and> length meta \<ge> cursor + 8
               then no_trailing (cursor + 8) meta (Some dest, Some (take 8 (drop cursor meta)))
               else no_trailing cursor meta (Some dest, None))))"

definition decode_keep_meta :: "bytes \<Rightarrow> xudp_codec_error + (destination option \<times> bytes option)" where
  "decode_keep_meta meta =
    (if length meta > 4 then
       (if meta ! 4 = xudp_network_byte XUdp then
          and_then (read_port_then_address (drop 5 meta)) (\<lambda>(dest, consumed).
            no_trailing (5 + consumed) meta (Some dest, None))
        else if meta ! 4 = xudp_network_byte XTcp then Err TcpNetworkRejected
        else Err (UnknownNetwork (meta ! 4)))
     else no_trailing 4 meta (None, None))"

fun decode_status_meta ::
  "xudp_session_status \<Rightarrow> byte \<Rightarrow> bytes \<Rightarrow> xudp_codec_error + (destination option \<times> bytes option)"
where
  "decode_status_meta XNew option_byte meta = decode_new_meta option_byte meta"
| "decode_status_meta XKeep option_byte meta = decode_keep_meta meta"
| "decode_status_meta _ option_byte meta = no_trailing 4 meta (None, None)"

definition decode_xudp_meta :: "bytes \<Rightarrow> xudp_codec_error + xudp_packet" where
  "decode_xudp_meta meta =
    (let sid = be_u16 (take 2 meta)
     in if sid \<noteq> 0 then Err (SessionIdMustBeZero sid)
        else
          and_then (ok_or (UnknownStatus (meta ! 2)) (xudp_status_from_byte (meta ! 2))) (\<lambda>status.
          and_then (decode_status_meta status (meta ! 3) meta) (\<lambda>(dest, gid).
            Ok \<lparr>session_id = sid, xp_status = status, xp_option = meta ! 3, xp_destination = dest,
                global_id = gid, xp_payload = []\<rparr>)))"

definition decode_xudp_payload :: "bytes \<Rightarrow> nat \<Rightarrow> xudp_codec_error + (bytes \<times> nat)" where
  "decode_xudp_payload input consumed =
    (if length input < consumed + 2 then Err (Truncated ''payloadLen'')
     else
      (let payload_len = unat (be_u16 (take 2 (drop consumed input)))
       in if payload_len > XUDP_MAX_PAYLOAD_LEN then Err (XudpPayloadTooLarge payload_len)
          else if length input < consumed + 2 + payload_len then Err (Truncated ''payload'')
          else Ok (take payload_len (drop (consumed + 2) input), consumed + 2 + payload_len)))"

definition decode_xudp_packet :: "bytes \<Rightarrow> xudp_codec_error + (xudp_packet \<times> nat)" where
  "decode_xudp_packet input =
    (if length input < 2 then Err (Truncated ''metaLen'')
     else
      (let meta_len = unat (be_u16 (take 2 input))
       in if meta_len < 4 then Err (MetaTooSmall meta_len)
          else if meta_len > XUDP_MAX_META_LEN then Err (MetaTooLarge meta_len)
          else if length input < 2 + meta_len then Err (Truncated ''metadata'')
          else
            and_then (decode_xudp_meta (take meta_len (drop 2 input))) (\<lambda>packet.
              if has_data (xp_option packet) then
                and_then (decode_xudp_payload input (2 + meta_len)) (\<lambda>(payload, consumed).
                  Ok (packet\<lparr>xp_payload := payload\<rparr>, consumed))
              else Ok (packet, 2 + meta_len))))"

section \<open>Draining frames from a plaintext buffer\<close>

lemma decode_xudp_consumed:
  assumes "decode_xudp_packet input = Ok (packet, n)"
  shows "0 < n" "n \<le> length input"
  using assms
  by (auto simp: decode_xudp_packet_def decode_xudp_payload_def Let_def result_simps not_less split: if_splits)

text \<open>\<open>drain_xudp_frames\<close>: the packets and the bytes left in the buffer.\<close>

function drain_xudp_frames :: "bytes \<Rightarrow> xudp_codec_error + (xudp_packet list \<times> bytes)" where
  "drain_xudp_frames buffer =
    (if buffer = [] then Ok ([], [])
     else
      (case decode_xudp_packet buffer of
         Inr (packet, consumed) \<Rightarrow>
           and_then (drain_xudp_frames (drop consumed buffer)) (\<lambda>(packets, rest). Ok (packet # packets, rest))
       | Inl (Truncated _) \<Rightarrow> Ok ([], buffer)
       | Inl e \<Rightarrow> Err e))"
  by pat_completeness auto
termination
  by (relation "measure length") (auto dest: decode_xudp_consumed)

declare drain_xudp_frames.simps [simp del]

definition xudp_buffer_has_complete_frame :: "bytes \<Rightarrow> bool" where
  "xudp_buffer_has_complete_frame buffer = is_ok (decode_xudp_packet buffer)"

section \<open>Frames come back\<close>

text \<open>A domain is a Rust string: valid UTF-8 by its type.\<close>

definition string_destination :: "destination \<Rightarrow> bool" where
  "string_destination d \<longleftrightarrow> (case dst_address d of DomainName n \<Rightarrow> valid_utf8 n | _ \<Rightarrow> True)"

lemma read_written_address:
  assumes "write_port_then_address d = Ok a" and "string_destination d"
  shows "read_port_then_address (a @ rest) = Ok (d, length a)"
proof (cases "dst_address d")
  case (DomainName n)
  then have a: "a = u16_be (dst_port d) @ [XUDP_DOMAIN, of_nat (length n)] @ n" "n \<noteq> []" "length n \<le> 255"
    using assms(1) by (auto simp: write_port_then_address_def split: if_splits)
  obtain p1 p2 where p: "u16_be (dst_port d) = [p1, p2]"
    by (simp add: u16_be_def numeral_2_eq_2)
  have "be_u16 [p1, p2] = dst_port d"
    using p by (metis be_u16_u16_be)
  moreover have "d = \<lparr>dst_address = DomainName n, dst_port = dst_port d\<rparr>"
    using DomainName by (cases d) simp
  ultimately show ?thesis
    using a p assms(2) DomainName
    by (simp add: read_port_then_address_def xudp_types string_destination_def unat_of_nat_small)
next
  case (Ipv4 x)
  obtain p1 p2 where p: "u16_be (dst_port d) = [p1, p2]"
    by (simp add: u16_be_def numeral_2_eq_2)
  have "be_u16 [p1, p2] = dst_port d"
    using p by (metis be_u16_u16_be)
  moreover have "d = \<lparr>dst_address = Ipv4 x, dst_port = dst_port d\<rparr>"
    using Ipv4 by (cases d) simp
  ultimately show ?thesis
    using assms(1) p Ipv4 by (auto simp: write_port_then_address_def read_port_then_address_def xudp_types)
next
  case (Ipv6 x)
  obtain p1 p2 where p: "u16_be (dst_port d) = [p1, p2]"
    by (simp add: u16_be_def numeral_2_eq_2)
  have "be_u16 [p1, p2] = dst_port d"
    using p by (metis be_u16_u16_be)
  moreover have "d = \<lparr>dst_address = Ipv6 x, dst_port = dst_port d\<rparr>"
    using Ipv6 by (cases d) simp
  ultimately show ?thesis
    using assms(1) p Ipv6 by (auto simp: write_port_then_address_def read_port_then_address_def xudp_types)
qed

text \<open>What a sender asks to be framed.\<close>

record xudp_send =
  xs_destination :: destination
  xs_payload :: bytes
  xs_new :: bool
  xs_global_id :: "bytes option"
  xs_rewrite :: bool

definition xudp_send_ok :: "xudp_send \<Rightarrow> bool" where
  "xudp_send_ok q \<longleftrightarrow> string_destination (xs_destination q) \<and> (\<forall>i. xs_global_id q = Some i \<longrightarrow> length i = 8)"

text \<open>The packet the receiver should get.\<close>

definition sent_packet :: "xudp_send \<Rightarrow> xudp_packet" where
  "sent_packet q = \<lparr>session_id = 0, xp_status = (if xs_new q then XNew else XKeep), xp_option = XUDP_DATA,
     xp_destination = (if xs_new q \<or> xs_rewrite q then Some (xs_destination q) else None),
     global_id = (if xs_new q then xs_global_id q else None), xp_payload = xs_payload q\<rparr>"

definition encode_send :: "xudp_send \<Rightarrow> bytes \<Rightarrow> (xudp_codec_error + unit) \<times> bytes" where
  "encode_send q output =
    encode_xudp_packet (xs_destination q) (xs_payload q) (xs_new q) (xs_global_id q) (xs_rewrite q) output"

lemma decode_encoded_meta:
  assumes "xudp_meta (xs_destination q) (xs_new q) (xs_global_id q) (xs_rewrite q) = Ok meta" and "xudp_send_ok q"
  shows "decode_xudp_meta meta = Ok (sent_packet q\<lparr>xp_payload := []\<rparr>)" "4 \<le> length meta"
proof -
  have zero: "be_u16 [0, 0] = 0"
    by (simp add: be_u16_def of_be_def)
  have str: "string_destination (xs_destination q)" and gid: "\<And>i. xs_global_id q = Some i \<Longrightarrow> length i = 8"
    using assms(2) by (auto simp: xudp_send_ok_def)
  have addr: "read_port_then_address (a @ rest) = Ok (xs_destination q, length a)"
    if "write_port_then_address (xs_destination q) = Ok a" for a rest
    using read_written_address [OF that str] .
  have skip: "drop (5 + k) (b0 # b1 # b2 # b3 # b4 # xs) = drop k xs" for k and b0 b1 b2 b3 b4 :: byte and xs
    by (simp add: eval_nat_numeral)
  note simps = skip xudp_meta_def result_simps decode_xudp_meta_def zero decode_new_meta_def decode_keep_meta_def
    xudp_status_from_byte_def xudp_network_from_byte_def no_trailing_def sent_packet_def
  show "4 \<le> length meta"
    using assms(1) by (auto simp: simps split: if_splits)
  show "decode_xudp_meta meta = Ok (sent_packet q\<lparr>xp_payload := []\<rparr>)"
  proof (cases "xs_new q \<or> xs_rewrite q")
    case True
    then obtain a where a: "write_port_then_address (xs_destination q) = Ok a"
      using assms(1) by (auto simp: simps split: if_splits)
    show ?thesis
      using assms(1) True a addr [OF a] addr [OF a, of "[]"] gid
      by (cases "xs_new q"; cases "xs_global_id q") (auto simp: simps)
  next
    case False
    then show ?thesis
      using assms(1) by (auto simp: simps)
  qed
qed

lemma encode_send_Ok:
  assumes "encode_send q output = (Ok u, output')" and "xudp_send_ok q"
  obtains meta where "output' = output @ u16_be (of_nat (length meta)) @ meta @ u16_be (of_nat (length (xs_payload q))) @ xs_payload q"
    "decode_xudp_meta meta = Ok (sent_packet q\<lparr>xp_payload := []\<rparr>)" "4 \<le> length meta" "length meta \<le> 512"
    "length (xs_payload q) \<le> 7526"
proof -
  obtain meta where "xudp_meta (xs_destination q) (xs_new q) (xs_global_id q) (xs_rewrite q) = Ok meta" "length meta \<le> 512"
    "output' = output @ u16_be (of_nat (length meta)) @ meta @ u16_be (of_nat (length (xs_payload q))) @ xs_payload q"
    "length (xs_payload q) \<le> 7526"
    using assms(1) by (auto simp: encode_send_def encode_xudp_packet_def XUDP_MAX_META_LEN_def split: if_splits sum.splits)
  then show thesis
    using that decode_encoded_meta assms(2) by blast
qed

lemma decode_frame:
  assumes "decode_xudp_meta meta = Ok p" and "xp_option p = XUDP_DATA" and "4 \<le> length meta" and "length meta \<le> 512"
    and "length payload \<le> 7526"
  defines "f \<equiv> u16_be (of_nat (length meta)) @ meta @ u16_be (of_nat (length payload)) @ payload"
  shows "decode_xudp_packet (f @ rest) = Ok (p\<lparr>xp_payload := payload\<rparr>, length f)"
    "n < length f \<Longrightarrow> \<exists>field. decode_xudp_packet (take n f) = Err (Truncated field)"
proof -
  let ?m = "length meta" and ?p = "length payload"
  have m: "unat (of_nat ?m :: u16) = ?m" "unat (of_nat ?p :: u16) = ?p"
    using assms(4,5) by (simp_all add: unat_of_nat_small)
  have two: "take 2 (take n (u16_be x @ ys)) = u16_be x" if "2 \<le> n" for n x ys
    using that by (simp add: take_append)
  show "decode_xudp_packet (f @ rest) = Ok (p\<lparr>xp_payload := payload\<rparr>, length f)"
    using assms(1-5) m by (simp add: f_def decode_xudp_packet_def decode_xudp_payload_def XUDP_MAX_META_LEN_def Let_def)
  assume n: "n < length f"
  show "\<exists>field. decode_xudp_packet (take n f) = Err (Truncated field)"
  proof (cases "n < 2 + ?m")
    case True
    then show ?thesis
      using assms(3,4) m two [of n] n
      by (cases "n < 2") (auto simp: f_def decode_xudp_packet_def XUDP_MAX_META_LEN_def Let_def simp del: take_append)
  next
    case False
    have "take ?m (drop 2 (take n f)) = meta" "take 2 (take n f) = u16_be (of_nat ?m)"
      using False by (simp_all add: f_def)
    moreover have "decode_xudp_payload (take n f) (2 + ?m) = Err (Truncated (if n < 4 + ?m then ''payloadLen'' else ''payload''))"
      using False n m assms(5) by (auto simp: f_def decode_xudp_payload_def Let_def)
    ultimately show ?thesis
      using False n assms(1-4) m by (simp add: decode_xudp_packet_def XUDP_MAX_META_LEN_def Let_def)
  qed
qed

section \<open>The frame decoder as a stream decoder\<close>

definition xudp_incomplete :: "xudp_codec_error \<Rightarrow> bool" where
  "xudp_incomplete e \<longleftrightarrow> (case e of Truncated _ \<Rightarrow> True | _ \<Rightarrow> False)"

definition xudp_decoder :: "(xudp_codec_error, xudp_packet) decoder" where
  "xudp_decoder buffer = map_sum id (\<lambda>(packet, consumed). (packet, drop consumed buffer)) (decode_xudp_packet buffer)"

lemma decode_payload_decided:
  assumes "\<And>field. decode_xudp_payload input k \<noteq> Err (Truncated field)"
  shows "decode_xudp_payload (input @ ext) k = decode_xudp_payload input k"
proof -
  let ?n = "unat (be_u16 (take 2 (drop k input)))"
  have "k + 2 \<le> length input"
    by (rule ccontr) (use assms [of "''payloadLen''"] in \<open>simp add: decode_xudp_payload_def\<close>)
  moreover from this have "XUDP_MAX_PAYLOAD_LEN < ?n \<or> k + 2 + ?n \<le> length input"
    by (intro ccontr [of "_ \<or> _"]) (use assms [of "''payload''"] in \<open>simp add: decode_xudp_payload_def Let_def\<close>)
  ultimately show ?thesis
    by (auto simp: decode_xudp_payload_def Let_def)
qed

lemma decode_packet_decided:
  assumes "\<And>field. decode_xudp_packet input \<noteq> Err (Truncated field)"
  shows "decode_xudp_packet (input @ ext) = decode_xudp_packet input"
proof -
  let ?m = "unat (be_u16 (take 2 input))"
  have two: "2 \<le> length input"
    by (rule ccontr) (use assms [of "''metaLen''"] in \<open>simp add: decode_xudp_packet_def\<close>)
  consider "?m < 4" | "4 \<le> ?m" "?m > XUDP_MAX_META_LEN" | "4 \<le> ?m" "?m \<le> XUDP_MAX_META_LEN"
    by linarith
  then show ?thesis
  proof cases
    case 3
    have long: "2 + ?m \<le> length input"
      by (rule ccontr) (use assms [of "''metadata''"] two 3 in \<open>simp add: decode_xudp_packet_def Let_def\<close>)
    show ?thesis
    proof (cases "decode_xudp_meta (take ?m (drop 2 input))")
      case (Inr packet)
      have "decode_xudp_payload (input @ ext) (2 + ?m) = decode_xudp_payload input (2 + ?m)" if h: "has_data (xp_option packet)"
      proof (rule decode_payload_decided)
        fix field
        show "decode_xudp_payload input (2 + ?m) \<noteq> Err (Truncated field)"
          using assms [of field] two 3 long Inr h by (auto simp: decode_xudp_packet_def Let_def)
      qed
      then show ?thesis
        using two 3 long Inr by (simp add: decode_xudp_packet_def Let_def)
    qed (use two 3 long in \<open>simp add: decode_xudp_packet_def Let_def\<close>)
  qed (use two in \<open>simp_all add: decode_xudp_packet_def\<close>)
qed

interpretation xudp: frame_decoder xudp_decoder xudp_incomplete
proof (unfold_locales, goal_cases)
  case (1 bs x rest ext)
  then obtain n where n: "decode_xudp_packet bs = Ok (x, n)" "rest = drop n bs"
    by (cases "decode_xudp_packet bs") (auto simp: xudp_decoder_def)
  then show ?case
    using decode_packet_decided [of bs ext] decode_xudp_consumed [OF n(1)] by (simp add: xudp_decoder_def)
next
  case (2 bs e ext)
  then have "decode_xudp_packet bs = Err e"
    by (cases "decode_xudp_packet bs") (auto simp: xudp_decoder_def)
  then show ?case
    using 2(2) decode_packet_decided [of bs ext] by (cases e) (simp_all add: xudp_decoder_def xudp_incomplete_def)
next
  case (3 bs x rest)
  then obtain n where "rest = drop n bs"
    by (cases "decode_xudp_packet bs") (auto simp: xudp_decoder_def)
  then show ?case
    by (metis append_take_drop_id)
next
  case (4 bs x rest)
  then obtain n where n: "decode_xudp_packet bs = Ok (x, n)" "rest = drop n bs"
    by (cases "decode_xudp_packet bs") (auto simp: xudp_decoder_def)
  then show ?case
    using decode_xudp_consumed [OF n(1)] by simp
qed

lemma drain_xudp_frames_eq: "drain_xudp_frames buffer = drain_with xudp_decoder xudp_incomplete buffer"
proof (induction buffer rule: drain_xudp_frames.induct)
  case (1 buffer)
  show ?case
  proof (cases "decode_xudp_packet buffer")
    case (Inl e)
    then show ?thesis
      by (cases e) (auto simp: drain_xudp_frames.simps [of buffer] drain_with.simps [of _ _ buffer] xudp_decoder_def
          xudp_incomplete_def decode_xudp_packet_def)
  next
    case (Inr r)
    obtain packet n where r: "decode_xudp_packet buffer = Ok (packet, n)"
      using Inr by (cases r) simp
    then have "buffer \<noteq> []" "0 < n"
      using decode_xudp_consumed [OF r] by auto
    then show ?thesis
      using r 1 by (simp add: drain_xudp_frames.simps [of buffer] drain_with.simps [of _ _ buffer] xudp_decoder_def)
  qed
qed

section \<open>A stream of datagrams\<close>

fun encode_sends :: "xudp_send list \<Rightarrow> bytes \<Rightarrow> (xudp_codec_error + unit) \<times> bytes" where
  "encode_sends [] outp = (Ok (), outp)"
| "encode_sends (q # qs) outp =
    (case encode_send q outp of
       (Inl e, buf1) \<Rightarrow> (Err e, buf1)
     | (Inr _, buf1) \<Rightarrow> encode_sends qs buf1)"

lemma encode_sends_frames:
  assumes "encode_sends qs outp = (Ok (), stream)" and "\<forall>q \<in> set qs. xudp_send_ok q"
  shows "\<exists>fs. length fs = length qs \<and> stream = outp @ concat fs
    \<and> (\<forall>(f, x) \<in> set (zip fs (map sent_packet qs)). \<forall>rest. xudp_decoder (f @ rest) = Ok (x, rest))"
  using assms
proof (induction qs arbitrary: outp)
  case (Cons q qs)
  obtain out where e: "encode_send q outp = (Ok (), out)" and rest: "encode_sends qs out = (Ok (), stream)"
    using Cons.prems(1) by (auto split: prod.splits sum.splits)
  obtain meta where meta: "out = outp @ u16_be (of_nat (length meta)) @ meta @ u16_be (of_nat (length (xs_payload q))) @ xs_payload q"
    "decode_xudp_meta meta = Ok (sent_packet q\<lparr>xp_payload := []\<rparr>)" "4 \<le> length meta" "length meta \<le> 512" "length (xs_payload q) \<le> 7526"
    using encode_send_Ok [OF e] Cons.prems(2) by auto
  let ?f = "u16_be (of_nat (length meta)) @ meta @ u16_be (of_nat (length (xs_payload q))) @ xs_payload q"
  have "xudp_decoder (?f @ ext) = Ok (sent_packet q, ext)" for ext
    using decode_frame(1) [OF meta(2) _ meta(3-5), of ext] by (simp add: xudp_decoder_def sent_packet_def)
  moreover obtain fs where "length fs = length qs" "stream = out @ concat fs"
    "\<forall>(f, x) \<in> set (zip fs (map sent_packet qs)). \<forall>rest. xudp_decoder (f @ rest) = Ok (x, rest)"
    using Cons.IH [OF rest] Cons.prems(2) by auto
  ultimately show ?case
    using meta(1) by (intro exI [of _ "?f # fs"]) (simp del: append_assoc)
qed simp

text \<open>
  C1. A sender frames any sequence of datagrams into one stream.  However the transport cuts the
  stream, a receiver that appends every arrival to its buffer and drains the complete frames gets
  exactly these datagrams, in order, each with the destination and the GlobalID its frame carries,
  and its buffer ends empty.
\<close>

theorem xudp_stream_roundtrip:
  assumes "encode_sends qs [] = (Ok (), stream)" and "\<forall>q \<in> set qs. xudp_send_ok q" and "concat segs = stream"
  shows "feed_with drain_xudp_frames segs [] = Ok (map sent_packet qs, [])"
proof -
  obtain fs where fs: "length fs = length qs" "stream = concat fs"
    "\<forall>(f, x) \<in> set (zip fs (map sent_packet qs)). \<forall>rest. xudp_decoder (f @ rest) = Ok (x, rest)"
    using encode_sends_frames [OF assms(1,2)] by auto
  have empty: "\<exists>e. xudp_decoder [] = Err e \<and> xudp_incomplete e"
    by (simp add: xudp_decoder_def decode_xudp_packet_def xudp_incomplete_def)
  have "drain_with xudp_decoder xudp_incomplete stream = Ok (map sent_packet qs, [])"
    using xudp.drain_frames [OF empty, of "zip fs (map sent_packet qs)"] fs by fastforce
  moreover have "drain_with xudp_decoder xudp_incomplete [] = Ok ([], [])"
    using xudp.drain_frames [OF empty, of "[]"] by simp
  moreover have "drain_xudp_frames = drain_with xudp_decoder xudp_incomplete"
    using drain_xudp_frames_eq by blast
  ultimately show ?thesis
    using xudp.feed_drain [of "[]" segs] assms(3) by simp
qed

definition demo_sends :: "xudp_send list" where
  "demo_sends =
    [\<lparr>xs_destination = \<lparr>dst_address = DomainName [97, 98], dst_port = 53\<rparr>, xs_payload = [7, 8, 9], xs_new = True,
      xs_global_id = Some [1, 2, 3, 4, 5, 6, 7, 8], xs_rewrite = False\<rparr>,
     \<lparr>xs_destination = \<lparr>dst_address = Ipv4 0x01020304, dst_port = 443\<rparr>, xs_payload = [], xs_new = False,
      xs_global_id = None, xs_rewrite = True\<rparr>]"

theorem xudp_stream_roundtrip_witness:
  "\<exists>stream. encode_sends demo_sends [] = (Ok (), stream) \<and> length stream = 42
    \<and> feed_with drain_xudp_frames [take 1 stream, drop 1 stream] [] = Ok (map sent_packet demo_sends, [])"
proof -
  define stream where "stream = snd (encode_sends demo_sends [])"
  have e: "encode_sends demo_sends [] = (Ok (), stream)" "length stream = 42"
    by (simp_all add: stream_def demo_sends_def encode_send_def encode_xudp_packet_def xudp_meta_def
        write_port_then_address_def XUDP_MAX_META_LEN_def)
  have utf8: "valid_utf8 [97, 98]"
    by code_simp
  have ok: "\<forall>q \<in> set demo_sends. xudp_send_ok q"
    by (simp add: demo_sends_def xudp_send_ok_def string_destination_def utf8)
  have "concat [take 1 stream, drop 1 stream] = stream"
    by simp
  then show ?thesis
    using e xudp_stream_roundtrip [OF e(1) ok] by blast
qed

section \<open>Complete but malformed metadata\<close>

text \<open>Every proper prefix of a written destination is reported as truncated, never as malformed.\<close>

lemma read_cut_address:
  assumes "write_port_then_address d = Ok full" and "full = addr @ lost" and "lost \<noteq> []"
  shows "\<exists>field. read_port_then_address addr = Err (Truncated field)"
proof (cases "length addr < 3")
  case False
  have less: "length addr < length full"
    using assms(2,3) by simp
  have nth: "addr ! i = full ! i" if "i < length addr" for i
    using that assms(2) by (simp add: nth_append)
  show ?thesis
  proof (cases "dst_address d")
    case (DomainName n)
    then have full: "full = u16_be (dst_port d) @ [XUDP_DOMAIN, of_nat (length n)] @ n" "n \<noteq> []" "length n \<le> 255"
      using assms(1) by (auto simp: write_port_then_address_def split: if_splits)
    have "addr ! 2 = XUDP_DOMAIN"
      using nth [of 2] False by (simp add: full(1) nth_append)
    moreover have "unat (addr ! 3) = length n" if "3 < length addr"
      using nth [OF that] full(3) by (simp add: full(1) nth_append unat_of_nat)
    moreover have "length addr < 4 + length n"
      using less by (simp add: full(1))
    ultimately show ?thesis
      using False full(2)
      by (cases "length addr < 4") (auto simp: read_port_then_address_def Let_def XUDP_DOMAIN_def XUDP_IPV4_def XUDP_IPV6_def)
  qed (use assms(1) less nth [of 2] False in
    \<open>auto simp: write_port_then_address_def read_port_then_address_def Let_def nth_append XUDP_IPV4_def XUDP_IPV6_def\<close>)
qed (simp add: read_port_then_address_def)

lemma length_written_address: "write_port_then_address d = Ok a \<Longrightarrow> length a \<le> 259"
  by (auto simp: write_port_then_address_def split: address.splits if_splits)

text \<open>
  C1. Metadata that has arrived completely, with the right length, but whose destination is cut
  short is reported with the error for an incomplete frame: a New or Keep frame for UDP whose
  metadata holds only a proper prefix of some encoded destination.  The drain loop therefore
  waits for bytes that cannot change the decision: whatever follows the metadata, it delivers
  nothing, reports nothing and keeps every byte.
\<close>

theorem xudp_malformed_meta_stalls:
  assumes "write_port_then_address d = Ok (addr @ lost)" and "lost \<noteq> []"
    and "status = XNew \<or> status = XKeep"
    and "meta = [0, 0, xudp_status_byte status, option_byte, xudp_network_byte XUdp] @ addr"
  shows "drain_xudp_frames (u16_be (of_nat (length meta)) @ meta @ ext)
    = Ok ([], u16_be (of_nat (length meta)) @ meta @ ext)"
proof -
  let ?b = "u16_be (of_nat (length meta)) @ meta @ ext"
  obtain field where "read_port_then_address addr = Err (Truncated field)"
    using read_cut_address [OF assms(1) refl assms(2)] by blast
  then have dec: "decode_xudp_meta meta = Err (Truncated field)"
    using assms(3,4)
    by (auto simp: decode_xudp_meta_def decode_new_meta_def decode_keep_meta_def xudp_network_from_byte_def
        xudp_status_from_byte_def be_u16_def of_be_def)
  have len: "length meta \<le> 264" "4 \<le> length meta"
    using length_written_address [OF assms(1)] assms(4) by simp_all
  then have "unat (of_nat (length meta) :: u16) = length meta"
    by (simp add: unat_of_nat)
  then have "decode_xudp_packet ?b = Err (Truncated field)"
    using dec len by (simp add: decode_xudp_packet_def Let_def XUDP_MAX_META_LEN_def)
  moreover have "meta \<noteq> []"
    using len by auto
  ultimately show ?thesis
    by (simp add: drain_xudp_frames.simps [of ?b])
qed

text \<open>A New frame to 10.0.0.1:53 that lost the last byte of the address, before further frames.\<close>

theorem xudp_malformed_meta_stalls_witness:
  "drain_xudp_frames (u16_be 11 @ [0, 0, 1, 1, 2] @ [0, 53, 1, 10, 0, 0] @ snd (encode_sends demo_sends []))
    = Ok ([], u16_be 11 @ [0, 0, 1, 1, 2] @ [0, 53, 1, 10, 0, 0] @ snd (encode_sends demo_sends []))"
proof -
  have addr: "write_port_then_address \<lparr>dst_address = Ipv4 (be_u32 [10, 0, 0, 1]), dst_port = be_u16 [0, 53]\<rparr>
      = Ok ([0, 53, 1, 10, 0, 0] @ [1])"
    by (simp add: write_port_then_address_def XUDP_IPV4_def be_simps)
  define ext where "ext = snd (encode_sends demo_sends [])"
  show ?thesis
    using xudp_malformed_meta_stalls [OF addr _ disjI1 [OF refl] refl, of 1 ext] unfolding ext_def [symmetric] by simp
qed

end
