(* ===== verification/Nxr_Open.thy ===== *)
theory Nxr_Open
  imports Vless_Xudp Admission
begin

text \<open>
  The NXR openings of the LINE to LANDING hop: the TCP request of \<open>src/protocol/nxr/wire.rs\<close>,
  the UDP association open of \<open>src/protocol/nxr_udp/open.rs\<close>, the authenticator of
  \<open>src/server/nxr/auth.rs\<close> and the bounded read of \<open>src/server/nxr/request.rs\<close>.  HMAC-SHA256 is the
  parameter \<open>hmac key message\<close>; what is relied on is that a tag has 32 bytes.  Allocation
  failure is not modelled.
\<close>

section \<open>Layout and errors\<close>

definition NXR_MAGIC :: bytes where "NXR_MAGIC = ascii ''NXR'' @ [1]"
definition NXR_IPV4 :: byte where "NXR_IPV4 = 1"
definition NXR_DOMAIN :: byte where "NXR_DOMAIN = 2"
definition NXR_IPV6 :: byte where "NXR_IPV6 = 3"
definition ADDRESS_LENGTH_OFFSET :: nat where "ADDRESS_LENGTH_OFFSET = 6"
definition PORT_OFFSET :: nat where "PORT_OFFSET = 8"
definition TIMESTAMP_OFFSET :: nat where "TIMESTAMP_OFFSET = 10"
definition NONCE_OFFSET :: nat where "NONCE_OFFSET = 18"
definition ADDRESS_OFFSET :: nat where "ADDRESS_OFFSET = 34"
definition NXR_TAG_LEN :: nat where "NXR_TAG_LEN = 32"
definition MAX_DOMAIN_LEN :: nat where "MAX_DOMAIN_LEN = 253"
definition REQUEST_HEADER_LEN :: nat where "REQUEST_HEADER_LEN = ADDRESS_OFFSET"
definition MAX_REQUEST_LEN :: nat where "MAX_REQUEST_LEN = REQUEST_HEADER_LEN + MAX_DOMAIN_LEN + NXR_TAG_LEN"
definition FLAGS_OFFSET :: nat where "FLAGS_OFFSET = 4"
definition FLAG_TCP :: byte where "FLAG_TCP = 0"
definition FLAG_UDP :: byte where "FLAG_UDP = 1"
definition OPEN_TAG_LEN :: nat where "OPEN_TAG_LEN = 32"
definition UDP_OPEN_TRAILER :: nat where "UDP_OPEN_TRAILER = 16"
definition MAX_UDP_OPEN_LEN :: nat where
  "MAX_UDP_OPEN_LEN = REQUEST_HEADER_LEN + MAX_DOMAIN_LEN + UDP_OPEN_TRAILER + OPEN_TAG_LEN"

lemmas nxr_consts = ADDRESS_LENGTH_OFFSET_def PORT_OFFSET_def TIMESTAMP_OFFSET_def NONCE_OFFSET_def
  ADDRESS_OFFSET_def NXR_TAG_LEN_def MAX_DOMAIN_LEN_def REQUEST_HEADER_LEN_def MAX_REQUEST_LEN_def FLAGS_OFFSET_def
  FLAG_TCP_def FLAG_UDP_def OPEN_TAG_LEN_def UDP_OPEN_TRAILER_def MAX_UDP_OPEN_LEN_def NXR_IPV4_def NXR_DOMAIN_def NXR_IPV6_def

lemma length_magic [simp]: "length NXR_MAGIC = 4"
  by (simp add: NXR_MAGIC_def ascii_def)

datatype nxr_protocol_error =
    ReqLength | ReqVersion | ReqFlags | ReqAddress | ReqPort | ReqTimeWindow | ReqAuthentication | ReqAllocation

datatype nxr_udp_error =
    NxrLength | NxrTruncated | NxrVersion | NxrFlags | NxrWrongMode | NxrAddress | NxrPort | NxrTimeWindow
  | NxrAuthentication | NxrAllocation | NxrPayload | NxrFrameType | NxrDirection | NxrSequence

fun protocol_error_from_udp :: "nxr_udp_error \<Rightarrow> nxr_protocol_error" where
  "protocol_error_from_udp NxrLength = ReqLength"
| "protocol_error_from_udp NxrTruncated = ReqLength"
| "protocol_error_from_udp NxrPayload = ReqLength"
| "protocol_error_from_udp NxrVersion = ReqVersion"
| "protocol_error_from_udp NxrFlags = ReqFlags"
| "protocol_error_from_udp NxrWrongMode = ReqFlags"
| "protocol_error_from_udp NxrFrameType = ReqFlags"
| "protocol_error_from_udp NxrDirection = ReqFlags"
| "protocol_error_from_udp NxrSequence = ReqFlags"
| "protocol_error_from_udp NxrAddress = ReqAddress"
| "protocol_error_from_udp NxrPort = ReqPort"
| "protocol_error_from_udp NxrTimeWindow = ReqTimeWindow"
| "protocol_error_from_udp NxrAuthentication = ReqAuthentication"
| "protocol_error_from_udp NxrAllocation = ReqAllocation"

definition peek_open_flags :: "bytes \<Rightarrow> byte option" where
  "peek_open_flags header =
    (if length header < REQUEST_HEADER_LEN \<or> take (length NXR_MAGIC) header \<noteq> NXR_MAGIC then None
     else Some (header ! FLAGS_OFFSET))"

definition classify_open :: "bytes \<Rightarrow> byte option" where
  "classify_open header =
    (case peek_open_flags header of
       Some flags \<Rightarrow> if flags = FLAG_TCP \<or> flags = FLAG_UDP then Some flags else None
     | None \<Rightarrow> None)"

section \<open>Addresses\<close>

text \<open>
  The two modules have their own copies of these functions, which differ in the error only;
  \<open>bad\<close> is the address error of the module.
\<close>

fun address_shape :: "'e \<Rightarrow> address \<Rightarrow> 'e + (byte \<times> nat)" where
  "address_shape bad (Ipv4 _) = Ok (NXR_IPV4, 4)"
| "address_shape bad (DomainName d) =
    (if d = [] \<or> length d > MAX_DOMAIN_LEN then Err bad else Ok (NXR_DOMAIN, length d))"
| "address_shape bad (Ipv6 _) = Ok (NXR_IPV6, 16)"

fun nxr_address_bytes :: "address \<Rightarrow> bytes" where
  "nxr_address_bytes (Ipv4 a) = u32_be a"
| "nxr_address_bytes (DomainName d) = d"
| "nxr_address_bytes (Ipv6 a) = u128_be a"

definition parse_address :: "'e \<Rightarrow> byte \<Rightarrow> bytes \<Rightarrow> 'e + address" where
  "parse_address bad address_type address =
    (if address_type = NXR_IPV4 then
       (if length address = 4 then Ok (Ipv4 (be_u32 address)) else Err bad)
     else if address_type = NXR_DOMAIN then
       (if valid_utf8 address then Ok (DomainName address) else Err bad)
     else if address_type = NXR_IPV6 then
       (if length address = 16 then Ok (Ipv6 (be_u128 address)) else Err bad)
     else Err bad)"

definition valid_address_len :: "byte \<Rightarrow> nat \<Rightarrow> bool" where
  "valid_address_len address_type len =
    (if address_type = NXR_IPV4 then len = 4
     else if address_type = NXR_DOMAIN then 1 \<le> len \<and> len \<le> MAX_DOMAIN_LEN
     else if address_type = NXR_IPV6 then len = 16
     else False)"

text \<open>A domain is a Rust string: valid UTF-8 by its type.\<close>

definition string_address :: "address \<Rightarrow> bool" where
  "string_address a \<longleftrightarrow> (case a of DomainName n \<Rightarrow> valid_utf8 n | _ \<Rightarrow> True)"

text \<open>A parsed address of a declared length is exactly one that is written with this shape.\<close>

lemma parse_address_exact:
  "parse_address bad kind bs = Ok a \<and> valid_address_len kind (length bs)
   \<longleftrightarrow> address_shape bad a = Ok (kind, length bs) \<and> bs = nxr_address_bytes a \<and> string_address a"
proof (cases a)
  case (Ipv4 x)
  then show ?thesis
    by (auto simp: parse_address_def valid_address_len_def string_address_def nxr_consts be_simps split: if_splits)
next
  case (DomainName d)
  then show ?thesis
    by (auto simp: parse_address_def valid_address_len_def string_address_def nxr_consts Suc_le_eq split: if_splits)
next
  case (Ipv6 x)
  then show ?thesis
    by (auto simp: parse_address_def valid_address_len_def string_address_def nxr_consts be_simps split: if_splits)
qed

lemma address_shape_Ok:
  "address_shape bad a = Ok (kind, n) \<Longrightarrow> length (nxr_address_bytes a) = n \<and> n \<le> 253"
  by (cases a) (auto simp: nxr_consts split: if_splits)

section \<open>The TCP request\<close>

record authenticated_request =
  req_timestamp :: u64
  req_nonce :: bytes
  req_destination :: destination

text \<open>The fields both openings write before the address.\<close>

definition nxr_header :: "byte \<Rightarrow> byte \<Rightarrow> nat \<Rightarrow> u16 \<Rightarrow> u64 \<Rightarrow> bytes \<Rightarrow> bytes" where
  "nxr_header flag kind len port timestamp nonce =
    NXR_MAGIC @ [flag, kind] @ u16_be (of_nat len) @ u16_be port @ u64_be timestamp @ nonce"

definition encode_request ::
  "(bytes \<Rightarrow> bytes \<Rightarrow> bytes) \<Rightarrow> destination \<Rightarrow> u64 \<Rightarrow> bytes \<Rightarrow> bytes \<Rightarrow> nxr_protocol_error + bytes"
where
  "encode_request hmac d timestamp nonce key =
    and_then (address_shape ReqAddress (dst_address d)) (\<lambda>(kind, len).
      if dst_port d = 0 then Err ReqPort
      else if REQUEST_HEADER_LEN + len + NXR_TAG_LEN > MAX_REQUEST_LEN then Err ReqLength
      else
        (let authenticated = nxr_header FLAG_TCP kind len (dst_port d) timestamp nonce @ nxr_address_bytes (dst_address d)
         in Ok (authenticated @ hmac key authenticated)))"

definition request_len_from_header :: "bytes \<Rightarrow> nxr_protocol_error + nat" where
  "request_len_from_header header =
    (if length header \<noteq> REQUEST_HEADER_LEN then Err ReqLength
     else if take (length NXR_MAGIC) header \<noteq> NXR_MAGIC then Err ReqVersion
     else if header ! 4 \<noteq> FLAG_TCP then Err ReqFlags
     else
      (let address_len = unat (be_u16 (take 2 (drop ADDRESS_LENGTH_OFFSET header)));
           expected = REQUEST_HEADER_LEN + address_len + NXR_TAG_LEN
       in if \<not> valid_address_len (header ! 5) address_len then Err ReqAddress
          else if expected \<le> MAX_REQUEST_LEN then Ok expected else Err ReqLength))"

definition decode_authenticated_request ::
  "(bytes \<Rightarrow> bytes \<Rightarrow> bytes) \<Rightarrow> bytes \<Rightarrow> bytes \<Rightarrow> u64 \<Rightarrow> u64 \<Rightarrow> nxr_protocol_error + authenticated_request"
where
  "decode_authenticated_request hmac input key now maximum_time_difference =
    (if length input < REQUEST_HEADER_LEN then Err ReqLength
     else
      (let header = take REQUEST_HEADER_LEN input
       in and_then (request_len_from_header header) (\<lambda>expected.
        if length input \<noteq> expected then Err ReqLength
        else
          (let authenticated_len = expected - NXR_TAG_LEN;
               authenticated = take authenticated_len input;
               tag = drop authenticated_len input;
               timestamp = be_u64 (take 8 (drop TIMESTAMP_OFFSET header));
               port = be_u16 (take 2 (drop PORT_OFFSET header));
               nonce = take (ADDRESS_OFFSET - NONCE_OFFSET) (drop NONCE_OFFSET header)
           in if hmac key authenticated \<noteq> tag then Err ReqAuthentication
              else if abs_diff timestamp now > unat maximum_time_difference then Err ReqTimeWindow
              else if port = 0 then Err ReqPort
              else
                and_then (parse_address ReqAddress (header ! 5)
                    (take (authenticated_len - ADDRESS_OFFSET) (drop ADDRESS_OFFSET input))) (\<lambda>address.
                  Ok \<lparr>req_timestamp = timestamp, req_nonce = nonce,
                      req_destination = \<lparr>dst_address = address, dst_port = port\<rparr>\<rparr>)))))"

section \<open>The UDP association open\<close>

record udp_authenticated_open =
  uo_timestamp :: u64
  uo_nonce :: bytes
  uo_destination :: destination
  uo_user_id :: bytes

definition encode_udp_open ::
  "(bytes \<Rightarrow> bytes \<Rightarrow> bytes) \<Rightarrow> destination \<Rightarrow> bytes \<Rightarrow> u64 \<Rightarrow> bytes \<Rightarrow> bytes \<Rightarrow> nxr_udp_error + bytes"
where
  "encode_udp_open hmac d user_id timestamp nonce key =
    and_then (address_shape NxrAddress (dst_address d)) (\<lambda>(kind, len).
      if dst_port d = 0 then Err NxrPort
      else if REQUEST_HEADER_LEN + len + UDP_OPEN_TRAILER + OPEN_TAG_LEN > MAX_UDP_OPEN_LEN then Err NxrLength
      else
        (let authenticated = nxr_header FLAG_UDP kind len (dst_port d) timestamp nonce
               @ nxr_address_bytes (dst_address d) @ user_id
         in Ok (authenticated @ hmac key authenticated)))"

definition udp_open_len_from_header :: "bytes \<Rightarrow> nxr_udp_error + nat" where
  "udp_open_len_from_header header =
    (if length header \<noteq> REQUEST_HEADER_LEN then Err NxrLength
     else if take (length NXR_MAGIC) header \<noteq> NXR_MAGIC then Err NxrVersion
     else if header ! FLAGS_OFFSET \<noteq> FLAG_UDP then Err NxrWrongMode
     else
      (let address_len = unat (be_u16 (take 2 (drop ADDRESS_LENGTH_OFFSET header)))
       in if \<not> valid_address_len (header ! 5) address_len then Err NxrAddress
          else Ok (REQUEST_HEADER_LEN + address_len + UDP_OPEN_TRAILER + OPEN_TAG_LEN)))"

definition decode_udp_open ::
  "(bytes \<Rightarrow> bytes \<Rightarrow> bytes) \<Rightarrow> bytes \<Rightarrow> bytes \<Rightarrow> u64 \<Rightarrow> u64 \<Rightarrow> nxr_udp_error + udp_authenticated_open"
where
  "decode_udp_open hmac input key now maximum_time_difference =
    (if length input < REQUEST_HEADER_LEN then Err NxrLength
     else
      (let header = take REQUEST_HEADER_LEN input
       in and_then (udp_open_len_from_header header) (\<lambda>expected.
        if length input \<noteq> expected then Err NxrLength
        else
          (let authenticated_len = expected - OPEN_TAG_LEN;
               authenticated = take authenticated_len input;
               tag = drop authenticated_len input;
               timestamp = be_u64 (take 8 (drop TIMESTAMP_OFFSET header));
               port = be_u16 (take 2 (drop PORT_OFFSET header));
               nonce = take (ADDRESS_OFFSET - NONCE_OFFSET) (drop NONCE_OFFSET header);
               address_end = authenticated_len - UDP_OPEN_TRAILER
           in if hmac key authenticated \<noteq> tag then Err NxrAuthentication
              else if abs_diff timestamp now > unat maximum_time_difference then Err NxrTimeWindow
              else if port = 0 then Err NxrPort
              else
                and_then (parse_address NxrAddress (header ! 5)
                    (take (address_end - ADDRESS_OFFSET) (drop ADDRESS_OFFSET input))) (\<lambda>address.
                  Ok \<lparr>uo_timestamp = timestamp, uo_nonce = nonce,
                      uo_destination = \<lparr>dst_address = address, dst_port = port\<rparr>,
                      uo_user_id = take UDP_OPEN_TRAILER (drop address_end input)\<rparr>)))))"

definition open_authenticated_prefix :: "bytes \<Rightarrow> bytes option" where
  "open_authenticated_prefix open_wire =
    (if length open_wire > OPEN_TAG_LEN then Some (take (length open_wire - OPEN_TAG_LEN) open_wire) else None)"

section \<open>Decoding is exact\<close>

text \<open>The fields of a 34-byte header.\<close>

lemma header_split:
  assumes "length h = 34"
  obtains mg f k l p t n where "h = mg @ [f, k] @ l @ p @ t @ n" "length mg = 4" "length l = 2" "length p = 2"
    "length t = 8" "length n = 16"
proof
  show "h = take 4 h @ [h ! 4, h ! 5] @ take 2 (drop 6 h) @ take 2 (drop 8 h) @ take 8 (drop 10 h) @ drop 18 h"
  proof -
    have "drop 10 h = take 8 (drop 10 h) @ drop 18 h" "drop 8 h = take 2 (drop 8 h) @ drop 10 h"
      "drop 6 h = take 2 (drop 6 h) @ drop 8 h"
      using append_take_drop_id [of 8 "drop 10 h"] append_take_drop_id [of 2 "drop 8 h"]
        append_take_drop_id [of 2 "drop 6 h"] by simp_all
    moreover have "drop 4 h = [h ! 4, h ! 5] @ drop 6 h"
      using assms Cons_nth_drop_Suc [of 4 h] Cons_nth_drop_Suc [of 5 h] by simp
    ultimately show ?thesis
      using append_take_drop_id [of 4 h] by simp
  qed
qed (use assms in simp_all)

lemma header_fields:
  assumes "h = mg @ [f, k] @ l @ p @ t @ n" and "length mg = 4" and "length l = 2" and "length p = 2"
    and "length t = 8" and "length n = 16"
  shows "length h = 34" "take 4 h = mg" "h ! 4 = f" "h ! 5 = k" "take 2 (drop 6 h) = l" "take 2 (drop 8 h) = p"
    "take 8 (drop 10 h) = t" "take 16 (drop 18 h) = n"
  using assms(2-) by (simp_all add: assms(1) nth_append)

lemma nxr_header_fields:
  assumes "h = nxr_header flag kind len port timestamp nonce" and "length nonce = 16" and "len \<le> 253"
  shows "length h = 34" "take 4 h = NXR_MAGIC" "h ! 4 = flag" "h ! 5 = kind" "unat (be_u16 (take 2 (drop 6 h))) = len"
    "be_u16 (take 2 (drop 8 h)) = port" "be_u64 (take 8 (drop 10 h)) = timestamp" "take 16 (drop 18 h) = nonce"
  using header_fields [of h NXR_MAGIC flag kind "u16_be (of_nat len)" "u16_be port" "u64_be timestamp" nonce] assms
  by (simp_all add: nxr_header_def unat_of_nat_small)

text \<open>A header with these fields is the one the encoder writes.\<close>

lemma nxr_header_unique:
  assumes "length h = 34" and "take 4 h = NXR_MAGIC"
  shows "h = nxr_header (h ! 4) (h ! 5) (unat (be_u16 (take 2 (drop 6 h)))) (be_u16 (take 2 (drop 8 h)))
    (be_u64 (take 8 (drop 10 h))) (take 16 (drop 18 h))"
proof -
  obtain mg f k l p t n where h: "h = mg @ [f, k] @ l @ p @ t @ n" "length mg = 4" "length l = 2" "length p = 2"
    "length t = 8" "length n = 16"
    using header_split [OF assms(1)] .
  have "mg = NXR_MAGIC"
    using assms(2) header_fields(2) [OF h] by simp
  then show ?thesis
    using h(3-5) unfolding nxr_header_def header_fields [OF h] by (simp add: h(1) be_simps)
qed

lemma udp_open_Ok_iff:
  assumes "length h = 34"
  shows "udp_open_len_from_header h = Ok n \<longleftrightarrow> take 4 h = NXR_MAGIC \<and> h ! 4 = FLAG_UDP
    \<and> valid_address_len (h ! 5) (unat (be_u16 (take 2 (drop 6 h)))) \<and> n = unat (be_u16 (take 2 (drop 6 h))) + 82"
  using assms by (auto simp: udp_open_len_from_header_def nxr_consts Let_def)

lemma valid_address_le: "valid_address_len k n \<Longrightarrow> n \<le> 253"
  by (auto simp: valid_address_len_def nxr_consts split: if_splits)

lemma request_len_Ok_iff:
  assumes "length h = 34"
  shows "request_len_from_header h = Ok n \<longleftrightarrow> take 4 h = NXR_MAGIC \<and> h ! 4 = FLAG_TCP
    \<and> valid_address_len (h ! 5) (unat (be_u16 (take 2 (drop 6 h)))) \<and> n = unat (be_u16 (take 2 (drop 6 h))) + 66"
  using assms valid_address_le [of "h ! 5" "unat (be_u16 (take 2 (drop 6 h)))"]
  by (auto simp: request_len_from_header_def nxr_consts Let_def)

lemma decode_udp_open_Ok_iff:
  assumes "h = take 34 input" and "n = unat (be_u16 (take 2 (drop 6 h)))"
  shows "decode_udp_open hmac input key now md = Ok op \<longleftrightarrow>
    take 4 h = NXR_MAGIC \<and> h ! 4 = FLAG_UDP \<and> valid_address_len (h ! 5) n \<and> length input = n + 82
    \<and> hmac key (take (50 + n) input) = drop (50 + n) input
    \<and> abs_diff (be_u64 (take 8 (drop 10 h))) now \<le> unat md \<and> be_u16 (take 2 (drop 8 h)) \<noteq> 0
    \<and> (\<exists>a. parse_address NxrAddress (h ! 5) (take n (drop 34 input)) = Ok a
        \<and> op = \<lparr>uo_timestamp = be_u64 (take 8 (drop 10 h)), uo_nonce = take 16 (drop 18 h),
             uo_destination = \<lparr>dst_address = a, dst_port = be_u16 (take 2 (drop 8 h))\<rparr>,
             uo_user_id = take 16 (drop (34 + n) input)\<rparr>)"
proof (cases "length input < 34")
  case False
  then have h: "length h = 34"
    using assms(1) by simp
  have fixed: "REQUEST_HEADER_LEN = 34" "ADDRESS_OFFSET = 34" "OPEN_TAG_LEN = 32" "UDP_OPEN_TRAILER = 16"
    "NONCE_OFFSET = 18" "PORT_OFFSET = 8" "TIMESTAMP_OFFSET = 10"
    by (simp_all add: nxr_consts)
  note unf = decode_udp_open_def [of hmac input key now md, unfolded Let_def fixed, folded assms(1)]
  show ?thesis
  proof (cases "udp_open_len_from_header h")
    case (Inl e)
    then show ?thesis
      using udp_open_Ok_iff [OF h, of "n + 82"] assms(2) by (auto simp: unf)
  next
    case (Inr m)
    then have m: "m = n + 82" and ok: "take 4 h = NXR_MAGIC \<and> h ! 4 = FLAG_UDP \<and> valid_address_len (h ! 5) n"
      using udp_open_Ok_iff [OF h] assms(2) by auto
    show ?thesis
      using False ok by (auto simp: unf Inr m result_simps)
  qed
qed (auto simp: decode_udp_open_def nxr_consts)

lemma request_Ok_iff:
  assumes "h = take 34 input" and "n = unat (be_u16 (take 2 (drop 6 h)))"
  shows "decode_authenticated_request hmac input key now md = Ok rq \<longleftrightarrow>
    take 4 h = NXR_MAGIC \<and> h ! 4 = FLAG_TCP \<and> valid_address_len (h ! 5) n \<and> length input = n + 66
    \<and> hmac key (take (34 + n) input) = drop (34 + n) input
    \<and> abs_diff (be_u64 (take 8 (drop 10 h))) now \<le> unat md \<and> be_u16 (take 2 (drop 8 h)) \<noteq> 0
    \<and> (\<exists>a. parse_address ReqAddress (h ! 5) (take n (drop 34 input)) = Ok a
        \<and> rq = \<lparr>req_timestamp = be_u64 (take 8 (drop 10 h)), req_nonce = take 16 (drop 18 h),
             req_destination = \<lparr>dst_address = a, dst_port = be_u16 (take 2 (drop 8 h))\<rparr>\<rparr>)"
proof (cases "length input < 34")
  case False
  then have h: "length h = 34"
    using assms(1) by simp
  have fixed: "REQUEST_HEADER_LEN = 34" "ADDRESS_OFFSET = 34" "NXR_TAG_LEN = 32"
    "NONCE_OFFSET = 18" "PORT_OFFSET = 8" "TIMESTAMP_OFFSET = 10"
    by (simp_all add: nxr_consts)
  note unf = decode_authenticated_request_def [of hmac input key now md, unfolded Let_def fixed, folded assms(1)]
  show ?thesis
  proof (cases "request_len_from_header h")
    case (Inl e)
    then show ?thesis
      using request_len_Ok_iff [OF h, of "n + 66"] assms(2) by (auto simp: unf)
  next
    case (Inr m)
    then have m: "m = n + 66" and ok: "take 4 h = NXR_MAGIC \<and> h ! 4 = FLAG_TCP \<and> valid_address_len (h ! 5) n"
      using request_len_Ok_iff [OF h] assms(2) by auto
    show ?thesis
      using False ok by (auto simp: unf Inr m result_simps)
  qed
qed (auto simp: decode_authenticated_request_def nxr_consts)

lemma take_pieces:
  "take (34 + n) bs = take 34 bs @ take n (drop 34 bs)"
  "take (50 + n) bs = take 34 bs @ take n (drop 34 bs) @ take 16 (drop (34 + n) bs)"
proof -
  show one: "take (34 + n) bs = take 34 bs @ take n (drop 34 bs)"
    by (rule take_add)
  show "take (50 + n) bs = take 34 bs @ take n (drop 34 bs) @ take 16 (drop (34 + n) bs)"
  proof -
    have "34 + n + 16 = 50 + n"
      by simp
    then show ?thesis
      using take_add [of "34 + n" 16 bs] one by (simp only: append_assoc)
  qed
qed

lemma decode_udp_open_encoded:
  assumes hmac: "\<And>k m. length (hmac k m) = 32"
    and enc: "encode_udp_open hmac (uo_destination op) (uo_user_id op) (uo_timestamp op) (uo_nonce op) key = Ok input"
    and str: "string_address (dst_address (uo_destination op))" and len: "length (uo_user_id op) = 16" "length (uo_nonce op) = 16"
    and win: "abs_diff (uo_timestamp op) now \<le> unat md"
  shows "decode_udp_open hmac input key now md = Ok op"
proof -
  let ?a = "dst_address (uo_destination op)"
  obtain kind n where shape: "address_shape NxrAddress ?a = Ok (kind, n)" and port: "dst_port (uo_destination op) \<noteq> 0"
    and input: "input = (nxr_header FLAG_UDP kind n (dst_port (uo_destination op)) (uo_timestamp op) (uo_nonce op)
      @ nxr_address_bytes ?a @ uo_user_id op) @ hmac key (nxr_header FLAG_UDP kind n (dst_port (uo_destination op))
      (uo_timestamp op) (uo_nonce op) @ nxr_address_bytes ?a @ uo_user_id op)"
    using enc by (auto simp: encode_udp_open_def Let_def result_simps split: if_splits)
  let ?h = "nxr_header FLAG_UDP kind n (dst_port (uo_destination op)) (uo_timestamp op) (uo_nonce op)"
  have n: "length (nxr_address_bytes ?a) = n" "n \<le> 253"
    using address_shape_Ok [OF shape] by auto
  note f = nxr_header_fields [OF refl len(2) n(2), of FLAG_UDP kind "dst_port (uo_destination op)" "uo_timestamp op"]
  have parts: "take 34 input = ?h" "take (50 + n) input = ?h @ nxr_address_bytes ?a @ uo_user_id op"
    "drop (50 + n) input = hmac key (?h @ nxr_address_bytes ?a @ uo_user_id op)" "take n (drop 34 input) = nxr_address_bytes ?a"
    "take 16 (drop (34 + n) input) = uo_user_id op" "length input = n + 82"
    using f(1) n(1) len(1) hmac by (simp_all add: input)
  have "parse_address NxrAddress kind (nxr_address_bytes ?a) = Ok ?a" "valid_address_len kind n"
    using parse_address_exact [of NxrAddress kind "nxr_address_bytes ?a" ?a] shape str n(1) by auto
  moreover have op: "\<lparr>uo_timestamp = uo_timestamp op, uo_nonce = uo_nonce op,
      uo_destination = \<lparr>dst_address = ?a, dst_port = dst_port (uo_destination op)\<rparr>, uo_user_id = uo_user_id op\<rparr> = op"
    by (intro udp_authenticated_open.equality destination.equality) simp_all
  ultimately show ?thesis
    using f parts port win len(2) op
    by (subst decode_udp_open_Ok_iff [OF parts(1) [symmetric] f(5) [symmetric]]) simp
qed

lemma decode_udp_open_exact:
  assumes hmac: "\<And>k m. length (hmac k m) = 32"
  shows "decode_udp_open hmac input key now md = Ok op \<longleftrightarrow>
    encode_udp_open hmac (uo_destination op) (uo_user_id op) (uo_timestamp op) (uo_nonce op) key = Ok input
    \<and> string_address (dst_address (uo_destination op)) \<and> length (uo_user_id op) = 16 \<and> length (uo_nonce op) = 16
    \<and> abs_diff (uo_timestamp op) now \<le> unat md" (is "?dec \<longleftrightarrow> ?enc")
proof
  assume dec: ?dec
  define h where "h = take 34 input"
  define n where "n = unat (be_u16 (take 2 (drop 6 h)))"
  note d = dec [unfolded decode_udp_open_Ok_iff [OF h_def n_def]]
  have len: "length input = n + 82" "length h = 34"
    using d h_def by auto
  obtain a where a: "parse_address NxrAddress (h ! 5) (take n (drop 34 input)) = Ok a"
    and op: "op = \<lparr>uo_timestamp = be_u64 (take 8 (drop 10 h)), uo_nonce = take 16 (drop 18 h),
      uo_destination = \<lparr>dst_address = a, dst_port = be_u16 (take 2 (drop 8 h))\<rparr>, uo_user_id = take 16 (drop (34 + n) input)\<rparr>"
    using d by blast
  have "length (take n (drop 34 input)) = n"
    using len by simp
  then have addr: "address_shape NxrAddress a = Ok (h ! 5, n)" "take n (drop 34 input) = nxr_address_bytes a" "string_address a"
    using parse_address_exact [of NxrAddress "h ! 5" "take n (drop 34 input)" a] a d by auto
  have h: "nxr_header FLAG_UDP (h ! 5) n (be_u16 (take 2 (drop 8 h))) (be_u64 (take 8 (drop 10 h))) (take 16 (drop 18 h)) = h"
    using nxr_header_unique [of h] d len(2) n_def by simp
  have auth: "take (50 + n) input = h @ nxr_address_bytes a @ take 16 (drop (34 + n) input)"
    using take_pieces(2) [of n input] addr(2) by (simp add: h_def)
  have "encode_udp_open hmac (uo_destination op) (uo_user_id op) (uo_timestamp op) (uo_nonce op) key
      = Ok (take (50 + n) input @ drop (50 + n) input)"
    using d address_shape_Ok [OF addr(1)] unfolding auth
    by (simp add: encode_udp_open_def addr(1) op nxr_consts) (simp add: h [unfolded FLAG_UDP_def])
  then show ?enc
    using d addr(3) len op by simp
qed (auto intro: decode_udp_open_encoded hmac)

lemma request_encoded:
  assumes hmac: "\<And>k m. length (hmac k m) = 32"
    and enc: "encode_request hmac (req_destination rq) (req_timestamp rq) (req_nonce rq) key = Ok input"
    and str: "string_address (dst_address (req_destination rq))" and len: "length (req_nonce rq) = 16"
    and win: "abs_diff (req_timestamp rq) now \<le> unat md"
  shows "decode_authenticated_request hmac input key now md = Ok rq"
proof -
  let ?a = "dst_address (req_destination rq)"
  obtain kind n where shape: "address_shape ReqAddress ?a = Ok (kind, n)" and port: "dst_port (req_destination rq) \<noteq> 0"
    and input: "input = (nxr_header FLAG_TCP kind n (dst_port (req_destination rq)) (req_timestamp rq) (req_nonce rq)
      @ nxr_address_bytes ?a) @ hmac key (nxr_header FLAG_TCP kind n (dst_port (req_destination rq))
      (req_timestamp rq) (req_nonce rq) @ nxr_address_bytes ?a)"
    using enc by (auto simp: encode_request_def Let_def result_simps split: if_splits)
  let ?h = "nxr_header FLAG_TCP kind n (dst_port (req_destination rq)) (req_timestamp rq) (req_nonce rq)"
  have n: "length (nxr_address_bytes ?a) = n" "n \<le> 253"
    using address_shape_Ok [OF shape] by auto
  note f = nxr_header_fields [OF refl len n(2), of FLAG_TCP kind "dst_port (req_destination rq)" "req_timestamp rq"]
  have parts: "take 34 input = ?h" "take (34 + n) input = ?h @ nxr_address_bytes ?a"
    "drop (34 + n) input = hmac key (?h @ nxr_address_bytes ?a)" "take n (drop 34 input) = nxr_address_bytes ?a"
    "length input = n + 66"
    using f(1) n(1) hmac by (simp_all add: input)
  have "parse_address ReqAddress kind (nxr_address_bytes ?a) = Ok ?a" "valid_address_len kind n"
    using parse_address_exact [of ReqAddress kind "nxr_address_bytes ?a" ?a] shape str n(1) by auto
  moreover have "\<lparr>req_timestamp = req_timestamp rq, req_nonce = req_nonce rq,
      req_destination = \<lparr>dst_address = ?a, dst_port = dst_port (req_destination rq)\<rparr>\<rparr> = rq"
    by (intro authenticated_request.equality destination.equality) simp_all
  ultimately show ?thesis
    using f parts port win len
    by (subst request_Ok_iff [OF parts(1) [symmetric] f(5) [symmetric]]) simp
qed

lemma request_exact:
  assumes hmac: "\<And>k m. length (hmac k m) = 32"
  shows "decode_authenticated_request hmac input key now md = Ok rq \<longleftrightarrow>
    encode_request hmac (req_destination rq) (req_timestamp rq) (req_nonce rq) key = Ok input
    \<and> string_address (dst_address (req_destination rq)) \<and> length (req_nonce rq) = 16
    \<and> abs_diff (req_timestamp rq) now \<le> unat md" (is "?dec \<longleftrightarrow> ?enc")
proof
  assume dec: ?dec
  define h where "h = take 34 input"
  define n where "n = unat (be_u16 (take 2 (drop 6 h)))"
  note d = dec [unfolded request_Ok_iff [OF h_def n_def]]
  have len: "length input = n + 66" "length h = 34"
    using d h_def by auto
  obtain a where a: "parse_address ReqAddress (h ! 5) (take n (drop 34 input)) = Ok a"
    and rq: "rq = \<lparr>req_timestamp = be_u64 (take 8 (drop 10 h)), req_nonce = take 16 (drop 18 h),
      req_destination = \<lparr>dst_address = a, dst_port = be_u16 (take 2 (drop 8 h))\<rparr>\<rparr>"
    using d by blast
  have "length (take n (drop 34 input)) = n"
    using len by simp
  then have addr: "address_shape ReqAddress a = Ok (h ! 5, n)" "take n (drop 34 input) = nxr_address_bytes a" "string_address a"
    using parse_address_exact [of ReqAddress "h ! 5" "take n (drop 34 input)" a] a d by auto
  have h: "nxr_header FLAG_TCP (h ! 5) n (be_u16 (take 2 (drop 8 h))) (be_u64 (take 8 (drop 10 h))) (take 16 (drop 18 h)) = h"
    using nxr_header_unique [of h] d len(2) n_def by simp
  have auth: "take (34 + n) input = h @ nxr_address_bytes a"
    using take_pieces(1) [of n input] addr(2) by (simp add: h_def)
  have "encode_request hmac (req_destination rq) (req_timestamp rq) (req_nonce rq) key
      = Ok (take (34 + n) input @ drop (34 + n) input)"
    using d address_shape_Ok [OF addr(1)] unfolding auth
    by (simp add: encode_request_def addr(1) rq nxr_consts) (simp add: h [unfolded FLAG_TCP_def])
  then show ?enc
    using d addr(3) len rq by simp
qed (auto intro: request_encoded hmac)

section \<open>Authentication at the LANDING\<close>

datatype nxr_authentication_error = AuthProtocol nxr_protocol_error | AuthReplay nonce_error

record nxr_authenticator =
  na_key :: bytes
  na_replay :: nonce_cache
  maximum_time_difference :: u64

text \<open>\<open>at\<close> is the monotonic clock the nonce is reserved at.\<close>

definition authenticate ::
  "(bytes \<Rightarrow> bytes \<Rightarrow> bytes) \<Rightarrow> nxr_authenticator \<Rightarrow> bytes \<Rightarrow> u64 \<Rightarrow> time
   \<Rightarrow> (nxr_authentication_error + destination) \<times> nxr_authenticator"
where
  "authenticate hmac self request now at =
    (case decode_authenticated_request hmac request (na_key self) now (maximum_time_difference self) of
       Inl e \<Rightarrow> (Err (AuthProtocol e), self)
     | Inr authenticated \<Rightarrow>
        (case reserve_at (na_replay self) (req_nonce authenticated) at of
           (Inl e, replay) \<Rightarrow> (Err (AuthReplay e), self\<lparr>na_replay := replay\<rparr>)
         | (Inr _, replay) \<Rightarrow> (Ok (req_destination authenticated), self\<lparr>na_replay := replay\<rparr>)))"

definition SESSION_MAC_LABEL :: bytes where
  "SESSION_MAC_LABEL = ascii ''rust-reality/nxr-udp/v1/session-mac'' @ [0]"

definition derive_session :: "(bytes \<Rightarrow> bytes \<Rightarrow> bytes) \<Rightarrow> bytes \<Rightarrow> bytes \<Rightarrow> bytes" where
  "derive_session hmac key prefix = hmac key (SESSION_MAC_LABEL @ prefix)"

definition authenticate_udp ::
  "(bytes \<Rightarrow> bytes \<Rightarrow> bytes) \<Rightarrow> nxr_authenticator \<Rightarrow> bytes \<Rightarrow> u64 \<Rightarrow> time
   \<Rightarrow> (nxr_authentication_error + (udp_authenticated_open \<times> bytes)) \<times> nxr_authenticator"
where
  "authenticate_udp hmac self request now at =
    (case decode_udp_open hmac request (na_key self) now (maximum_time_difference self) of
       Inl e \<Rightarrow> (Err (AuthProtocol (protocol_error_from_udp e)), self)
     | Inr op \<Rightarrow>
        (case reserve_at (na_replay self) (uo_nonce op) at of
           (Inl e, replay) \<Rightarrow> (Err (AuthReplay e), self\<lparr>na_replay := replay\<rparr>)
         | (Inr _, replay) \<Rightarrow>
            (case open_authenticated_prefix request of
               None \<Rightarrow> (Err (AuthProtocol ReqLength), self\<lparr>na_replay := replay\<rparr>)
             | Some prefix \<Rightarrow>
                (Ok (op, derive_session hmac (na_key self) prefix), self\<lparr>na_replay := replay\<rparr>))))"

section \<open>Reading and dispatching one connection\<close>

text \<open>
  The errors of the system, of admission control and of the connector carry no payload here: the
  code only logs it.
\<close>

datatype nxr_landing_error =
    LandingAdmission | LandingReclaimed | LandingPreAuthPeerClosed | LandingPreAuthGenerationRetired
  | LandingTimeout | LandingRead | LandingProtocol nxr_protocol_error | LandingAllocation | LandingClock
  | LandingAuthentication nxr_authentication_error | LandingDestination | LandingRelay
  | LandingDescriptorBudget | LandingUdpIo | LandingUdpProtocol nxr_udp_error

text \<open>
  What a connection delivers: its bytes, and whether it then ends or stays silent until the
  deadline.
\<close>

record tcp_input =
  ti_bytes :: bytes
  ti_ends :: bool

definition read_exact_before :: "nat \<Rightarrow> tcp_input \<Rightarrow> nxr_landing_error + (bytes \<times> tcp_input)" where
  "read_exact_before n stream =
    (if n \<le> length (ti_bytes stream)
     then Ok (take n (ti_bytes stream), stream\<lparr>ti_bytes := drop n (ti_bytes stream)\<rparr>)
     else if ti_ends stream then Err LandingRead else Err LandingTimeout)"

definition read_request_after_first :: "byte \<Rightarrow> tcp_input \<Rightarrow> nxr_landing_error + (bytes \<times> tcp_input)" where
  "read_request_after_first first_byte stream =
    and_then (read_exact_before (REQUEST_HEADER_LEN - 1) stream) (\<lambda>(bs, stream').
      let header = first_byte # bs
      in and_then
          (if peek_open_flags header = Some FLAG_UDP
           then map_err (\<lambda>e. LandingProtocol (protocol_error_from_udp e)) (udp_open_len_from_header header)
           else map_err LandingProtocol (request_len_from_header header)) (\<lambda>expected.
         and_then (read_exact_before (expected - REQUEST_HEADER_LEN) stream') (\<lambda>(rest, stream'').
           Ok (header @ rest, stream''))))"

datatype nxr_admission = TcpRelay destination | UdpAssociation destination bytes

text \<open>The dispatch of \<open>handle\<close> on a complete request.\<close>

definition admit_request ::
  "(bytes \<Rightarrow> bytes \<Rightarrow> bytes) \<Rightarrow> nxr_authenticator \<Rightarrow> bytes \<Rightarrow> u64 \<Rightarrow> time
   \<Rightarrow> (nxr_landing_error + nxr_admission) \<times> nxr_authenticator"
where
  "admit_request hmac self request now at =
    (case (if length request < REQUEST_HEADER_LEN then None else peek_open_flags (take REQUEST_HEADER_LEN request)) of
       None \<Rightarrow> (Err (LandingProtocol ReqVersion), self)
     | Some flags \<Rightarrow>
        if flags = FLAG_TCP then
          (let (r, self') = authenticate hmac self request now at
           in (map_err LandingAuthentication (map_sum id TcpRelay r), self'))
        else if flags = FLAG_UDP then
          (let (r, self') = authenticate_udp hmac self request now at
           in (map_err LandingAuthentication (map_sum id (\<lambda>(op, session). UdpAssociation (uo_destination op) session) r),
               self'))
        else (Err (LandingProtocol ReqFlags), self))"

definition landing_open ::
  "(bytes \<Rightarrow> bytes \<Rightarrow> bytes) \<Rightarrow> nxr_authenticator \<Rightarrow> byte \<Rightarrow> tcp_input \<Rightarrow> u64 \<Rightarrow> time
   \<Rightarrow> (nxr_landing_error + (nxr_admission \<times> tcp_input)) \<times> nxr_authenticator"
where
  "landing_open hmac self first_byte stream now at =
    (case read_request_after_first first_byte stream of
       Inl e \<Rightarrow> (Err e, self)
     | Inr (request, stream') \<Rightarrow>
        (let (r, self') = admit_request hmac self request now at
         in (map_sum id (\<lambda>a. (a, stream')) r, self')))"

section \<open>No opening is admitted twice\<close>

definition request_nonce :: "bytes \<Rightarrow> nonce" where
  "request_nonce request = take 16 (drop 18 request)"

definition request_timestamp :: "bytes \<Rightarrow> u64" where
  "request_timestamp request = be_u64 (take 8 (drop 10 request))"

record nxr_arrival =
  nr_request :: bytes
  nr_now :: u64
  nr_mono :: time

definition admit_arrival ::
  "(bytes \<Rightarrow> bytes \<Rightarrow> bytes) \<Rightarrow> bytes \<Rightarrow> u64 \<Rightarrow> nonce_cache \<Rightarrow> nxr_arrival
   \<Rightarrow> (nxr_landing_error + nxr_admission) \<times> nonce_cache"
where
  "admit_arrival hmac key md cache a =
    (let (r, self') = admit_request hmac \<lparr>na_key = key, na_replay = cache, maximum_time_difference = md\<rparr>
           (nr_request a) (nr_now a) (nr_mono a)
     in (r, na_replay self'))"

fun landing_requests ::
  "(bytes \<Rightarrow> bytes \<Rightarrow> bytes) \<Rightarrow> bytes \<Rightarrow> u64 \<Rightarrow> nonce_cache \<Rightarrow> nxr_arrival list \<Rightarrow> (nxr_landing_error + nxr_admission) list"
where
  "landing_requests hmac key md cache [] = []"
| "landing_requests hmac key md cache (a # as) =
    fst (admit_arrival hmac key md cache a) # landing_requests hmac key md (snd (admit_arrival hmac key md cache a)) as"

lemma header_stamps:
  "take 16 (drop 18 (take 34 request)) = request_nonce request"
  "be_u64 (take 8 (drop 10 (take 34 request))) = request_timestamp request"
  by (simp_all add: request_nonce_def request_timestamp_def drop_take)

lemma decoded_stamps:
  "decode_udp_open hmac request key now md = Ok op \<Longrightarrow> uo_nonce op = request_nonce request
     \<and> abs_diff (request_timestamp request) now \<le> unat md"
  "decode_authenticated_request hmac request key now md = Ok rq \<Longrightarrow> req_nonce rq = request_nonce request
     \<and> abs_diff (request_timestamp request) now \<le> unat md"
  unfolding decode_udp_open_Ok_iff [OF refl refl] request_Ok_iff [OF refl refl] header_stamps
  by (elim conjE exE; simp only: udp_authenticated_open.simps authenticated_request.simps)+

lemma authenticate_facts:
  "fst (authenticate hmac self request now at) = Ok d \<Longrightarrow>
     abs_diff (request_timestamp request) now \<le> unat (maximum_time_difference self)
     \<and> fst (reserve_at (na_replay self) (request_nonce request) at) = Ok ()
     \<and> na_replay (snd (authenticate hmac self request now at)) = snd (reserve_at (na_replay self) (request_nonce request) at)"
  "na_replay (snd (authenticate hmac self request now at)) = na_replay self
   \<or> na_replay (snd (authenticate hmac self request now at)) = snd (reserve_at (na_replay self) (request_nonce request) at)"
proof -
  show "na_replay (snd (authenticate hmac self request now at)) = na_replay self
   \<or> na_replay (snd (authenticate hmac self request now at)) = snd (reserve_at (na_replay self) (request_nonce request) at)"
  proof (cases "decode_authenticated_request hmac request (na_key self) now (maximum_time_difference self)")
    case (Inr rq)
    then show ?thesis
      using decoded_stamps(2) [OF Inr] by (simp add: authenticate_def split: prod.split sum.split)
  qed (simp add: authenticate_def)
  assume ok: "fst (authenticate hmac self request now at) = Ok d"
  then obtain rq where rq: "decode_authenticated_request hmac request (na_key self) now (maximum_time_difference self) = Ok rq"
    by (auto simp: authenticate_def split: sum.splits)
  show "abs_diff (request_timestamp request) now \<le> unat (maximum_time_difference self)
     \<and> fst (reserve_at (na_replay self) (request_nonce request) at) = Ok ()
     \<and> na_replay (snd (authenticate hmac self request now at)) = snd (reserve_at (na_replay self) (request_nonce request) at)"
    using ok rq decoded_stamps(2) [OF rq] by (auto simp: authenticate_def split: prod.splits sum.splits)
qed

lemma authenticate_udp_facts:
  "fst (authenticate_udp hmac self request now at) = Ok d \<Longrightarrow>
     abs_diff (request_timestamp request) now \<le> unat (maximum_time_difference self)
     \<and> fst (reserve_at (na_replay self) (request_nonce request) at) = Ok ()
     \<and> na_replay (snd (authenticate_udp hmac self request now at)) = snd (reserve_at (na_replay self) (request_nonce request) at)"
  "na_replay (snd (authenticate_udp hmac self request now at)) = na_replay self
   \<or> na_replay (snd (authenticate_udp hmac self request now at)) = snd (reserve_at (na_replay self) (request_nonce request) at)"
proof -
  show "na_replay (snd (authenticate_udp hmac self request now at)) = na_replay self
   \<or> na_replay (snd (authenticate_udp hmac self request now at)) = snd (reserve_at (na_replay self) (request_nonce request) at)"
  proof (cases "decode_udp_open hmac request (na_key self) now (maximum_time_difference self)")
    case (Inr op)
    then show ?thesis
      using decoded_stamps(1) [OF Inr] by (simp add: authenticate_udp_def split: prod.split sum.split option.split)
  qed (simp add: authenticate_udp_def)
  assume ok: "fst (authenticate_udp hmac self request now at) = Ok d"
  then obtain op where op: "decode_udp_open hmac request (na_key self) now (maximum_time_difference self) = Ok op"
    by (auto simp: authenticate_udp_def split: sum.splits)
  show "abs_diff (request_timestamp request) now \<le> unat (maximum_time_difference self)
     \<and> fst (reserve_at (na_replay self) (request_nonce request) at) = Ok ()
     \<and> na_replay (snd (authenticate_udp hmac self request now at)) = snd (reserve_at (na_replay self) (request_nonce request) at)"
    using ok op decoded_stamps(1) [OF op] by (auto simp: authenticate_udp_def split: prod.splits sum.splits option.splits)
qed

lemma admit_request_facts:
  "fst (admit_request hmac self request now at) = Ok d \<Longrightarrow>
     abs_diff (request_timestamp request) now \<le> unat (maximum_time_difference self)
     \<and> fst (reserve_at (na_replay self) (request_nonce request) at) = Ok ()
     \<and> na_replay (snd (admit_request hmac self request now at)) = snd (reserve_at (na_replay self) (request_nonce request) at)"
  "na_replay (snd (admit_request hmac self request now at)) = na_replay self
   \<or> na_replay (snd (admit_request hmac self request now at)) = snd (reserve_at (na_replay self) (request_nonce request) at)"
proof -
  let ?t = "authenticate hmac self request now at" and ?u = "authenticate_udp hmac self request now at"
  have "(\<exists>e. admit_request hmac self request now at = (Err e, self))
    \<or> admit_request hmac self request now at = (map_err LandingAuthentication (map_sum id TcpRelay (fst ?t)), snd ?t)
    \<or> admit_request hmac self request now at = (map_err LandingAuthentication
        (map_sum id (\<lambda>(op, session). UdpAssociation (uo_destination op) session) (fst ?u)), snd ?u)"
  proof (cases "if length request < REQUEST_HEADER_LEN then None else peek_open_flags (take REQUEST_HEADER_LEN request)")
    case (Some flags)
    show ?thesis
      unfolding admit_request_def Some option.case case_prod_beta Let_def by simp
  qed (simp add: admit_request_def)
  then consider e where "admit_request hmac self request now at = (Err e, self)"
    | "admit_request hmac self request now at = (map_err LandingAuthentication (map_sum id TcpRelay (fst ?t)), snd ?t)"
    | "admit_request hmac self request now at = (map_err LandingAuthentication
        (map_sum id (\<lambda>(op, session). UdpAssociation (uo_destination op) session) (fst ?u)), snd ?u)"
    by blast
  note kind = this
  show "na_replay (snd (admit_request hmac self request now at)) = na_replay self
   \<or> na_replay (snd (admit_request hmac self request now at)) = snd (reserve_at (na_replay self) (request_nonce request) at)"
    by (cases rule: kind) (use authenticate_facts(2) authenticate_udp_facts(2) in simp_all)
  assume ok: "fst (admit_request hmac self request now at) = Ok d"
  show "abs_diff (request_timestamp request) now \<le> unat (maximum_time_difference self)
     \<and> fst (reserve_at (na_replay self) (request_nonce request) at) = Ok ()
     \<and> na_replay (snd (admit_request hmac self request now at)) = snd (reserve_at (na_replay self) (request_nonce request) at)"
  proof (cases rule: kind)
    case 2
    then obtain x where "fst ?t = Ok x"
      using ok by (cases "fst ?t") auto
    then show ?thesis
      using authenticate_facts(1) 2 by simp
  next
    case 3
    then obtain x where "fst ?u = Ok x"
      using ok by (cases "fst ?u") auto
    then show ?thesis
      using authenticate_udp_facts(1) 3 by simp
  qed (use ok in simp)
qed

interpretation nxr_admission: timed_admission reserve_at cache_ok remembered retention "admit_arrival hmac key md"
  "\<lambda>a. request_nonce (nr_request a)" "\<lambda>a. request_timestamp (nr_request a)" nr_now nr_mono "unat md"
  for hmac key md
proof (unfold_locales, goal_cases)
  case (1 s a r s')
  then show ?case
    using admit_request_facts(1) [of hmac "\<lparr>na_key = key, na_replay = s, maximum_time_difference = md\<rparr>" "nr_request a" "nr_now a" "nr_mono a"]
    by (simp add: admit_arrival_def case_prod_beta Let_def)
next
  case (2 s a)
  then show ?case
    using admit_request_facts(2) [of hmac "\<lparr>na_key = key, na_replay = s, maximum_time_difference = md\<rparr>" "nr_request a" "nr_now a" "nr_mono a"]
    by (simp add: admit_arrival_def case_prod_beta Let_def)
qed

lemma landing_requests_admissions:
  "landing_requests hmac key md c as = nxr_admission.admissions hmac key md c as"
  by (induction as arbitrary: c) simp_all

definition request_clocks_agree :: "nxr_arrival list \<Rightarrow> bool" where
  "request_clocks_agree as \<longleftrightarrow> (\<forall>i j. i < j \<and> j < length as \<longrightarrow>
     nr_mono (as ! j) - nr_mono (as ! i)
       < (unat (nr_now (as ! j)) - unat (nr_now (as ! i)) + 1) * 1000000000)"

lemma retention_seconds:
  assumes "unat md < 2 ^ 63"
  shows "unat (replay_retention_seconds md) = 2 * unat md + 1"
proof -
  have "replay_retention_seconds md = of_nat (2 * unat md + 1)"
    using assms by (simp add: replay_retention_seconds_def mult.commute)
  moreover have "2 * unat md + 1 < 2 ^ LENGTH(64)"
    using assms by simp
  ultimately show ?thesis
    by (simp only: unat_of_nat_small)
qed

lemma decoded_flags:
  "decode_udp_open hmac input key now md = Ok op \<Longrightarrow> take 34 input ! 4 = FLAG_UDP"
  "decode_authenticated_request hmac input key now md = Ok rq \<Longrightarrow> take 34 input ! 4 = FLAG_TCP"
  unfolding decode_udp_open_Ok_iff [OF refl refl] request_Ok_iff [OF refl refl] by blast+

lemma admit_udp:
  assumes dec: "decode_udp_open hmac request (na_key self) now (maximum_time_difference self) = Ok op"
    and res: "reserve_at (na_replay self) (uo_nonce op) at = (Ok (), replay)"
  shows "admit_request hmac self request now at =
    (Ok (UdpAssociation (uo_destination op) (derive_session hmac (na_key self) (take (length request - 32) request))),
     self\<lparr>na_replay := replay\<rparr>)"
proof -
  define h where "h = take 34 request"
  obtain n where d: "take 4 h = NXR_MAGIC" "h ! 4 = FLAG_UDP" and n: "length request = n + 82"
    using dec [unfolded decode_udp_open_Ok_iff [OF h_def refl]] by blast
  have peek: "peek_open_flags h = Some FLAG_UDP"
    using d n by (simp add: h_def peek_open_flags_def REQUEST_HEADER_LEN_def ADDRESS_OFFSET_def FLAGS_OFFSET_def)
  have prefix: "open_authenticated_prefix request = Some (take (length request - 32) request)"
    using n by (simp add: open_authenticated_prefix_def OPEN_TAG_LEN_def)
  have "authenticate_udp hmac self request now at =
      (Ok (op, derive_session hmac (na_key self) (take (length request - 32) request)), self\<lparr>na_replay := replay\<rparr>)"
    unfolding authenticate_udp_def dec sum.case res prod.case prefix option.case ..
  moreover have "(if length request < REQUEST_HEADER_LEN then None else peek_open_flags (take REQUEST_HEADER_LEN request)) = Some FLAG_UDP"
    using peek n unfolding h_def by (simp add: REQUEST_HEADER_LEN_def ADDRESS_OFFSET_def)
  ultimately show ?thesis
    unfolding admit_request_def by (simp add: FLAG_TCP_def FLAG_UDP_def)
qed

text \<open>A concrete tag function, for the witnesses.\<close>

definition demo_hmac :: "bytes \<Rightarrow> bytes \<Rightarrow> bytes" where
  "demo_hmac k m = take 32 (k @ m @ replicate 32 0)"

lemma length_demo_hmac [simp]: "length (demo_hmac k m) = 32"
  by (simp add: demo_hmac_def)

definition demo_destination :: destination where
  "demo_destination = \<lparr>dst_address = Ipv4 0x01020304, dst_port = 53\<rparr>"

definition demo_open :: "nxr_udp_error + bytes" where
  "demo_open = encode_udp_open demo_hmac demo_destination (replicate 16 7) 1000 (replicate 16 9) [5]"

lemma demo_open_Ok:
  obtains wire where "demo_open = Ok wire"
  by (simp add: demo_open_def encode_udp_open_def demo_destination_def nxr_consts Let_def)

section \<open>Properties\<close>

text \<open>
  C1. The decoders of both openings are exact: they accept precisely the bytes the encoder
  writes under the same key for the fields they return, with a timestamp inside the window and
  a well-formed domain name, and no bytes are accepted as both a TCP request and a UDP open.
\<close>

theorem nxr_open_exact:
  assumes "\<And>k m. length (hmac k m) = 32"
  shows "(decode_udp_open hmac input key now md = Ok op \<longleftrightarrow>
      encode_udp_open hmac (uo_destination op) (uo_user_id op) (uo_timestamp op) (uo_nonce op) key = Ok input
      \<and> string_address (dst_address (uo_destination op)) \<and> length (uo_user_id op) = 16 \<and> length (uo_nonce op) = 16
      \<and> abs_diff (uo_timestamp op) now \<le> unat md)
    \<and> (decode_authenticated_request hmac input key now md = Ok rq \<longleftrightarrow>
      encode_request hmac (req_destination rq) (req_timestamp rq) (req_nonce rq) key = Ok input
      \<and> string_address (dst_address (req_destination rq)) \<and> length (req_nonce rq) = 16
      \<and> abs_diff (req_timestamp rq) now \<le> unat md)
    \<and> \<not> (is_ok (decode_udp_open hmac input key now md) \<and> is_ok (decode_authenticated_request hmac input key' now' md'))"
proof -
  have "\<not> (is_ok (decode_udp_open hmac input key now md) \<and> is_ok (decode_authenticated_request hmac input key' now' md'))"
    using decoded_flags [of hmac input] by (auto simp: FLAG_TCP_def FLAG_UDP_def elim!: is_ok.elims)
  then show ?thesis
    using decode_udp_open_exact [OF assms] request_exact [OF assms] by (intro conjI) assumption+
qed

theorem nxr_open_exact_witness:
  "\<exists>wire. demo_open = Ok wire \<and> decode_udp_open demo_hmac wire [5] 1010 30
     = Ok \<lparr>uo_timestamp = 1000, uo_nonce = replicate 16 9, uo_destination = demo_destination, uo_user_id = replicate 16 7\<rparr>
   \<and> \<not> is_ok (decode_authenticated_request demo_hmac wire [5] 1010 30)"
proof -
  obtain wire where w: "demo_open = Ok wire"
    by (rule demo_open_Ok)
  let ?op = "\<lparr>uo_timestamp = 1000, uo_nonce = replicate 16 9, uo_destination = demo_destination, uo_user_id = replicate 16 7\<rparr>"
  have "decode_udp_open demo_hmac wire [5] 1010 30 = Ok ?op"
    using nxr_open_exact [of demo_hmac wire "[5]" 1010 30 ?op] w
    by (simp add: demo_open_def string_address_def demo_destination_def abs_diff_def)
  moreover from this have "\<not> is_ok (decode_authenticated_request demo_hmac wire [5] 1010 30)"
    using nxr_open_exact [of demo_hmac wire "[5]" 1010 30 ?op
        "\<lparr>req_timestamp = 0, req_nonce = [], req_destination = demo_destination\<rparr>" "[5]" 1010 30] by simp
  ultimately show ?thesis
    using w by blast
qed

text \<open>
  C1. No NXR opening is admitted twice.  Consider any run of connections at a LANDING with one key,
  one maximum time difference below \<open>2 ^ 63\<close> seconds, and a cache that starts empty with the
  retention configured for that difference.  Provided that monotonic times do not decrease and
  that between two arrivals the monotonic clock advances less than a second more than the wall
  clock, once a request has been admitted every later arrival of the same bytes is refused --
  TCP or UDP, inside the retention by the cache, after it by the timestamp window.
\<close>

theorem nxr_never_replayed:
  assumes "cache_new cap (unat (replay_retention_seconds md) * 1000000000) = Ok c" and "unat md < 2 ^ 63"
    and "sorted (map nr_mono as)" and "request_clocks_agree as"
    and "i < j" and "j < length as" and "nr_request (as ! i) = nr_request (as ! j)"
    and "landing_requests hmac key md c as ! i = Ok r"
  shows "\<exists>e. landing_requests hmac key md c as ! j = Err e"
proof -
  have keep: "(2 * unat md + 1) * 1000000000 \<le> retention c"
    using assms(1) retention_seconds [OF assms(2)] by (auto simp: cache_new_def split: if_splits)
  have clocks: "nxr_admission.clocks_ok as"
    using assms(4) unfolding nxr_admission.clocks_ok_def request_clocks_agree_def .
  show ?thesis
    using nxr_admission.admitted_once [OF cache_ok_new [OF assms(1)] keep assms(3) clocks assms(5,6), of hmac key r]
      assms(7,8) by (simp add: landing_requests_admissions)
qed

theorem nxr_never_replayed_witness:
  "\<exists>wire c r e. demo_open = Ok wire \<and> cache_new 8 (unat (replay_retention_seconds 30) * 1000000000) = Ok c
   \<and> landing_requests demo_hmac [5] 30 c
       [\<lparr>nr_request = wire, nr_now = 1010, nr_mono = 5\<rparr>, \<lparr>nr_request = wire, nr_now = 1020, nr_mono = 10000000005\<rparr>] = [Ok r, Err e]"
proof -
  obtain wire where w: "demo_open = Ok wire"
    by (rule demo_open_Ok)
  obtain c where c: "cache_new 8 (unat (replay_retention_seconds 30) * 1000000000) = Ok c"
    by (simp add: cache_new_def retention_seconds)
  let ?as = "[\<lparr>nr_request = wire, nr_now = 1010, nr_mono = 5\<rparr>, \<lparr>nr_request = wire, nr_now = 1020, nr_mono = 10000000005\<rparr>]"
  let ?op = "\<lparr>uo_timestamp = 1000, uo_nonce = replicate 16 9, uo_destination = demo_destination, uo_user_id = replicate 16 7\<rparr>"
  have dec: "decode_udp_open demo_hmac wire [5] 1010 30 = Ok ?op"
    using decode_udp_open_exact [of demo_hmac wire "[5]" 1010 30 ?op] w
    by (simp add: demo_open_def string_address_def demo_destination_def abs_diff_def)
  obtain replay where res: "reserve_at c (replicate 16 9) 5 = (Ok (), replay)"
    using cache_new_reserve [OF c, of "replicate 16 9" 5]
    by (cases "reserve_at c (replicate 16 9) 5"; cases "fst (reserve_at c (replicate 16 9) 5)") (auto simp: handoff_reserve_at_def)
  obtain r where r: "landing_requests demo_hmac [5] 30 c ?as ! 0 = Ok r"
    using admit_udp [of demo_hmac wire "\<lparr>na_key = [5], na_replay = c, maximum_time_difference = 30\<rparr>" 1010 ?op 5 replay] dec res
    by (simp add: admit_arrival_def)
  have "\<exists>e. landing_requests demo_hmac [5] 30 c ?as ! 1 = Err e"
    by (rule nxr_never_replayed [OF c _ _ _ _ _ _ r]) (auto simp: request_clocks_agree_def less_Suc_eq)
  then obtain e where e: "landing_requests demo_hmac [5] 30 c ?as ! 1 = Err e"
    by blast
  have "landing_requests demo_hmac [5] 30 c ?as = [Ok r, Err e]"
    using r e by (intro nth_equalityI) (auto simp: less_Suc_eq)
  then show ?thesis
    using w c by blast
qed

end
