(* ===== verification/Nxr_Frames.thy ===== *)
theory Nxr_Frames
  imports Nxr_Open
begin

text \<open>
  The datagram frames of an NXR UDP association (\<open>src/protocol/nxr_udp/wire.rs\<close>, \<open>fields.rs\<close>,
  \<open>seq.rs\<close> and the frame MAC of \<open>keys.rs\<close>): a length prefix, a body and a MAC that covers the
  direction and the body.
\<close>

unbundle bit_operations_syntax

section \<open>Layout\<close>

definition DIR_LINE_TO_LANDING :: byte where "DIR_LINE_TO_LANDING = 0"
definition DIR_LANDING_TO_LINE :: byte where "DIR_LANDING_TO_LINE = 1"
definition FRAME_TYPE_DATAGRAM :: byte where "FRAME_TYPE_DATAGRAM = 1"
definition FRAME_TYPE_CLOSE :: byte where "FRAME_TYPE_CLOSE = 2"
definition FRAME_FLAG_DESTINATION :: byte where "FRAME_FLAG_DESTINATION = 1"
definition SESSION_TAG_LEN :: nat where "SESSION_TAG_LEN = 32"
definition NXR_UDP_MAX_PAYLOAD :: nat where "NXR_UDP_MAX_PAYLOAD = XUDP_MAX_PAYLOAD_LEN"
definition FRAME_LEN_SIZE :: nat where "FRAME_LEN_SIZE = 4"
definition MAX_FRAME_DEST_LEN :: nat where "MAX_FRAME_DEST_LEN = 1 + 2 + 2 + MAX_DOMAIN_LEN"
definition MAX_FRAME_BODY_LEN :: nat where
  "MAX_FRAME_BODY_LEN = 1 + 1 + 4 + MAX_FRAME_DEST_LEN + 2 + NXR_UDP_MAX_PAYLOAD"

lemma frame_sizes [simp]:
  "SESSION_TAG_LEN = 32" "NXR_UDP_MAX_PAYLOAD = 7526" "FRAME_LEN_SIZE = 4" "MAX_FRAME_BODY_LEN = 7792"
  by (simp_all add: SESSION_TAG_LEN_def NXR_UDP_MAX_PAYLOAD_def FRAME_LEN_SIZE_def MAX_FRAME_BODY_LEN_def
      MAX_FRAME_DEST_LEN_def nxr_consts)

lemmas frame_tags = DIR_LINE_TO_LANDING_def DIR_LANDING_TO_LINE_def FRAME_TYPE_DATAGRAM_def FRAME_TYPE_CLOSE_def
  FRAME_FLAG_DESTINATION_def

record nxr_udp_frame =
  nf_type :: byte
  nf_seq :: u32
  nf_destination :: "destination option"
  nf_payload :: bytes

section \<open>Encoding\<close>

definition FRAME_MAC_LABEL :: bytes where
  "FRAME_MAC_LABEL = ascii ''rust-reality/nxr-udp/v1/frame-mac'' @ [0]"

definition frame_tag :: "(bytes \<Rightarrow> bytes \<Rightarrow> bytes) \<Rightarrow> bytes \<Rightarrow> byte \<Rightarrow> bytes \<Rightarrow> bytes" where
  "frame_tag hmac session direction body = hmac session (FRAME_MAC_LABEL @ [direction] @ body)"

definition verify_frame :: "(bytes \<Rightarrow> bytes \<Rightarrow> bytes) \<Rightarrow> bytes \<Rightarrow> byte \<Rightarrow> bytes \<Rightarrow> bytes \<Rightarrow> nxr_udp_error + unit" where
  "verify_frame hmac session direction body tag =
    guard (hmac session (FRAME_MAC_LABEL @ [direction] @ body) = tag) NxrAuthentication"

text \<open>The fields of an optional destination: checked first, written second.\<close>

definition destination_shape :: "destination option \<Rightarrow> nxr_udp_error + (byte \<times> nat) option" where
  "destination_shape dest =
    (case dest of
       None \<Rightarrow> Ok None
     | Some d \<Rightarrow>
        and_then (address_shape NxrAddress (dst_address d)) (\<lambda>(kind, len).
          if dst_port d = 0 then Err NxrPort
          else if len \<ge> 2 ^ 16 then Err NxrAddress
          else Ok (Some (kind, len))))"

definition destination_field :: "destination option \<Rightarrow> (byte \<times> nat) option \<Rightarrow> bytes" where
  "destination_field dest shape =
    (case (dest, shape) of
       (Some d, Some (kind, len)) \<Rightarrow>
         [kind] @ u16_be (of_nat len) @ u16_be (dst_port d) @ nxr_address_bytes (dst_address d)
     | _ \<Rightarrow> [])"

definition frame_body :: "byte \<Rightarrow> u32 \<Rightarrow> destination option \<Rightarrow> (byte \<times> nat) option \<Rightarrow> bytes \<Rightarrow> bytes" where
  "frame_body frame_type seq dest shape payload =
    [frame_type, (if dest \<noteq> None then 1 else 0) * FRAME_FLAG_DESTINATION] @ u32_be seq
    @ destination_field dest shape @ u16_be (of_nat (length payload)) @ payload"

definition encode_frame ::
  "(bytes \<Rightarrow> bytes \<Rightarrow> bytes) \<Rightarrow> bytes \<Rightarrow> byte \<Rightarrow> byte \<Rightarrow> u32 \<Rightarrow> destination option \<Rightarrow> bytes \<Rightarrow> nxr_udp_error + bytes"
where
  "encode_frame hmac session direction frame_type seq dest payload =
    (if length payload > NXR_UDP_MAX_PAYLOAD then Err NxrPayload
     else if frame_type \<noteq> FRAME_TYPE_DATAGRAM \<and> frame_type \<noteq> FRAME_TYPE_CLOSE then Err NxrFrameType
     else if direction \<noteq> DIR_LINE_TO_LANDING \<and> direction \<noteq> DIR_LANDING_TO_LINE then Err NxrDirection
     else
      and_then (destination_shape dest) (\<lambda>shape.
        let dest_len = (case shape of None \<Rightarrow> 0 | Some (_, len) \<Rightarrow> 5 + len);
            body_len = 1 + 1 + 4 + dest_len + 2 + length payload
        in if body_len > MAX_FRAME_BODY_LEN then Err NxrLength
           else if length payload \<ge> 2 ^ 16 then Err NxrPayload
           else
            (let body = frame_body frame_type seq dest shape payload
             in Ok (u32_be (of_nat body_len) @ body @ frame_tag hmac session direction body))))"

section \<open>Decoding\<close>

definition frame_wire_len_from_prefix :: "bytes \<Rightarrow> nxr_udp_error + nat" where
  "frame_wire_len_from_prefix prefix =
    (if length prefix < FRAME_LEN_SIZE then Err NxrTruncated
     else
      (let body_len = unat (be_u32 (take FRAME_LEN_SIZE prefix))
       in if body_len = 0 \<or> body_len > MAX_FRAME_BODY_LEN then Err NxrLength
          else Ok (FRAME_LEN_SIZE + body_len + SESSION_TAG_LEN)))"

definition decode_destination :: "bytes \<Rightarrow> nxr_udp_error + (destination \<times> nat)" where
  "decode_destination input =
    (if length input < 5 then Err NxrTruncated
     else
      (let address_type = input ! 0;
           address_len = unat (be_u16 (take 2 (drop 1 input)));
           port = be_u16 (take 2 (drop 3 input))
       in if port = 0 then Err NxrPort
          else if length input < 5 + address_len then Err NxrTruncated
          else
            and_then (parse_address NxrAddress address_type (take address_len (drop 5 input))) (\<lambda>address.
              Ok (\<lparr>dst_address = address, dst_port = port\<rparr>, 5 + address_len))))"

definition read_u16_at :: "bytes \<Rightarrow> nat \<Rightarrow> nxr_udp_error + u16" where
  "read_u16_at input offset =
    (if length input < offset + 2 then Err NxrLength else Ok (be_u16 (take 2 (drop offset input))))"

definition parse_frame_body :: "bytes \<Rightarrow> nxr_udp_error + nxr_udp_frame" where
  "parse_frame_body body =
    (if length body < 8 then Err NxrLength
     else
      (let frame_type = body ! 0; flags = body ! 1; seq = be_u32 (take 4 (drop 2 body))
       in if frame_type \<noteq> FRAME_TYPE_DATAGRAM \<and> frame_type \<noteq> FRAME_TYPE_CLOSE then Err NxrFrameType
          else if flags AND NOT FRAME_FLAG_DESTINATION \<noteq> 0 then Err NxrFlags
          else
            and_then
              (if flags AND FRAME_FLAG_DESTINATION \<noteq> 0
               then and_then (decode_destination (drop 6 body)) (\<lambda>(dest, consumed). Ok (Some dest, 6 + consumed))
               else Ok (None, 6)) (\<lambda>(dest, offset).
            and_then (read_u16_at body offset) (\<lambda>len.
              let payload_len = unat len; start = offset + 2
              in if payload_len > NXR_UDP_MAX_PAYLOAD then Err NxrPayload
                 else if start + payload_len \<noteq> length body then Err NxrLength
                 else Ok \<lparr>nf_type = frame_type, nf_seq = seq, nf_destination = dest,
                          nf_payload = take payload_len (drop start body)\<rparr>))))"

definition decode_frame :: "(bytes \<Rightarrow> bytes \<Rightarrow> bytes) \<Rightarrow> bytes \<Rightarrow> bytes \<Rightarrow> byte \<Rightarrow> nxr_udp_error + (nxr_udp_frame \<times> nat)" where
  "decode_frame hmac input session direction =
    and_then (frame_wire_len_from_prefix input) (\<lambda>wire_len.
      if length input < wire_len then Err NxrTruncated
      else
        (let body_len = wire_len - (FRAME_LEN_SIZE + SESSION_TAG_LEN);
             body = take body_len (drop FRAME_LEN_SIZE input);
             tag = drop (FRAME_LEN_SIZE + body_len) (take wire_len input)
         in and_then (verify_frame hmac session direction body tag) (\<lambda>_.
            and_then (parse_frame_body body) (\<lambda>frame. Ok (frame, wire_len)))))"

lemma wire_len_bounds: "frame_wire_len_from_prefix bs = Ok n \<Longrightarrow> 37 \<le> n \<and> n \<le> 7828"
  by (auto simp: frame_wire_len_from_prefix_def Let_def split: if_splits)

lemma decode_frame_consumed: "decode_frame hmac input session direction = Ok (frame, n) \<Longrightarrow> 37 \<le> n \<and> n \<le> length input"
  using wire_len_bounds by (auto simp: decode_frame_def Let_def result_simps split: if_splits)

text \<open>
  The draining loop: it waits only for a frame whose bytes are not all there; every error of a
  complete frame, truncation inside it included, is final.
\<close>

function drain_frames ::
  "(bytes \<Rightarrow> bytes \<Rightarrow> bytes) \<Rightarrow> bytes \<Rightarrow> bytes \<Rightarrow> byte \<Rightarrow> nxr_udp_error + (nxr_udp_frame list \<times> bytes)"
where
  "drain_frames hmac buffer session direction =
    (if length buffer < FRAME_LEN_SIZE then Ok ([], buffer)
     else case frame_wire_len_from_prefix buffer of
       Inl e \<Rightarrow> if e = NxrTruncated then Ok ([], buffer) else Err e
     | Inr wire_len \<Rightarrow>
        if length buffer < wire_len then Ok ([], buffer)
        else case decode_frame hmac (take wire_len buffer) session direction of
          Inl e \<Rightarrow> Err e
        | Inr (frame, consumed) \<Rightarrow>
            and_then (drain_frames hmac (drop consumed buffer) session direction) (\<lambda>(frames, rest).
              Ok (frame # frames, rest)))"
  by pat_completeness auto
termination
  by (relation "measure (\<lambda>(_, buffer, _, _). length buffer)") (auto dest: decode_frame_consumed)

declare drain_frames.simps [simp del]

section \<open>Sequence numbers\<close>

definition seq_new :: u64 where "seq_new = 0"

definition next_out :: "u64 \<Rightarrow> nxr_udp_error + (u32 \<times> u64)" where
  "next_out nxt = (if unat nxt < 2 ^ 32 then Ok (ucast nxt, nxt + 1) else Err NxrSequence)"

definition accept_in :: "u64 \<Rightarrow> u32 \<Rightarrow> nxr_udp_error + u64" where
  "accept_in nxt seq = (if ucast seq \<noteq> nxt then Err NxrSequence else Ok (nxt + 1))"

section \<open>Frames come back\<close>

lemma destination_shape_Some:
  assumes "destination_shape (Some d) = Ok shape"
  obtains kind n where "shape = Some (kind, n)" "address_shape NxrAddress (dst_address d) = Ok (kind, n)" "dst_port d \<noteq> 0"
    "length (nxr_address_bytes (dst_address d)) = n" "n \<le> 253"
  using assms address_shape_Ok [of NxrAddress "dst_address d"]
  by (auto simp: destination_shape_def result_simps split: if_splits)

lemma decode_written_destination:
  assumes "destination_shape (Some d) = Ok shape" and "string_address (dst_address d)"
  shows "decode_destination (destination_field (Some d) shape @ rest) = Ok (d, length (destination_field (Some d) shape))"
proof -
  obtain kind n where sh: "shape = Some (kind, n)" "address_shape NxrAddress (dst_address d) = Ok (kind, n)" "dst_port d \<noteq> 0"
    "length (nxr_address_bytes (dst_address d)) = n" "n \<le> 253"
    using assms(1) by (rule destination_shape_Some)
  have "parse_address NxrAddress kind (nxr_address_bytes (dst_address d)) = Ok (dst_address d)"
    using parse_address_exact [of NxrAddress kind "nxr_address_bytes (dst_address d)" "dst_address d"] sh assms(2) by auto
  then show ?thesis
    using sh by (simp add: decode_destination_def destination_field_def unat_of_nat_small)
qed

lemma parse_frame_bodyI:
  assumes "8 \<le> length body" and "body ! 0 = FRAME_TYPE_DATAGRAM \<or> body ! 0 = FRAME_TYPE_CLOSE"
    and "body ! 1 AND NOT FRAME_FLAG_DESTINATION = 0"
    and "(if body ! 1 AND FRAME_FLAG_DESTINATION \<noteq> 0
      then and_then (decode_destination (drop 6 body)) (\<lambda>(dest, consumed). Ok (Some dest, 6 + consumed)) else Ok (None, 6))
      = Ok (dest, offset)"
    and "read_u16_at body offset = Ok len" and "unat len \<le> 7526" and "offset + 2 + unat len = length body"
  shows "parse_frame_body body = Ok \<lparr>nf_type = body ! 0, nf_seq = be_u32 (take 4 (drop 2 body)), nf_destination = dest,
    nf_payload = take (unat len) (drop (offset + 2) body)\<rparr>"
proof -
  have "\<not> length body < 8" "\<not> (body ! 0 \<noteq> FRAME_TYPE_DATAGRAM \<and> body ! 0 \<noteq> FRAME_TYPE_CLOSE)" "\<not> 7526 < unat len"
    using assms(1,2,6) by auto
  then show ?thesis
    unfolding parse_frame_body_def Let_def assms(4) assms(3) by (simp add: assms(5,7) del: add_2_eq_Suc')
qed

lemma parse_frame_body_encoded:
  assumes shape: "destination_shape dest = Ok shape" and str: "\<And>d. dest = Some d \<Longrightarrow> string_address (dst_address d)"
    and ft: "frame_type = FRAME_TYPE_DATAGRAM \<or> frame_type = FRAME_TYPE_CLOSE" and len: "length payload \<le> 7526"
  shows "parse_frame_body (frame_body frame_type seq dest shape payload)
    = Ok \<lparr>nf_type = frame_type, nf_seq = seq, nf_destination = dest, nf_payload = payload\<rparr>"
proof -
  let ?f = "destination_field dest shape" and ?body = "frame_body frame_type seq dest shape payload"
  have p: "unat (of_nat (length payload) :: u16) = length payload"
    using len by (simp add: unat_of_nat_small)
  define A where "A = [frame_type, (if dest \<noteq> None then 1 else 0) * FRAME_FLAG_DESTINATION] @ u32_be seq"
  have A: "?body = A @ ?f @ u16_be (of_nat (length payload)) @ payload" "length A = 6"
    by (simp_all add: frame_body_def A_def)
  have drops: "drop 6 ?body = ?f @ u16_be (of_nat (length payload)) @ payload"
    "drop (6 + length ?f) ?body = u16_be (of_nat (length payload)) @ payload"
    "drop (6 + length ?f + 2) ?body = payload" "length ?body = 8 + length ?f + length payload"
    unfolding A(1) by (simp_all add: A(2))
  have head: "?body ! 0 = frame_type" "?body ! 1 = (if dest \<noteq> None then 1 else 0)" "take 4 (drop 2 ?body) = u32_be seq"
    by (simp_all add: frame_body_def frame_tags)
  have field: "(if ?body ! 1 AND FRAME_FLAG_DESTINATION \<noteq> 0
      then and_then (decode_destination (drop 6 ?body)) (\<lambda>(dest, consumed). Ok (Some dest, 6 + consumed)) else Ok (None, 6))
    = Ok (dest, 6 + length ?f)"
  proof (cases dest)
    case None
    then show ?thesis
      using head(2) by (simp add: destination_field_def)
  next
    case (Some d)
    then show ?thesis
      using head(2) drops(1) decode_written_destination [of d shape] shape str by (simp add: frame_tags)
  qed
  have read: "read_u16_at ?body (6 + length ?f) = Ok (of_nat (length payload))"
    using drops(2,4) by (simp add: read_u16_at_def)
  have flags: "?body ! 1 AND NOT FRAME_FLAG_DESTINATION = 0"
    using head(2) by (simp add: frame_tags)
  show ?thesis
    using parse_frame_bodyI [OF _ _ flags field read] drops(3,4) ft p len head(1,3) by simp
qed

lemma encode_frame_Ok:
  assumes "encode_frame hmac session direction frame_type seq dest payload = Ok wire"
    and "\<And>d. dest = Some d \<Longrightarrow> string_address (dst_address d)"
  obtains body where "wire = u32_be (of_nat (length body)) @ body @ frame_tag hmac session direction body"
    "8 \<le> length body" "length body \<le> 7792"
    "parse_frame_body body = Ok \<lparr>nf_type = frame_type, nf_seq = seq, nf_destination = dest, nf_payload = payload\<rparr>"
proof -
  obtain shape where shape: "destination_shape dest = Ok shape"
    and len: "length payload \<le> 7526" and ft: "frame_type = FRAME_TYPE_DATAGRAM \<or> frame_type = FRAME_TYPE_CLOSE"
    and bound: "1 + 1 + 4 + (case shape of None \<Rightarrow> 0 | Some (_, n) \<Rightarrow> 5 + n) + 2 + length payload \<le> 7792"
    and wire: "wire = u32_be (of_nat (1 + 1 + 4 + (case shape of None \<Rightarrow> 0 | Some (_, n) \<Rightarrow> 5 + n) + 2 + length payload))
      @ frame_body frame_type seq dest shape payload @ frame_tag hmac session direction (frame_body frame_type seq dest shape payload)"
    using assms(1) by (auto simp: encode_frame_def Let_def result_simps simp del: One_nat_def split: if_splits)
  have "length (destination_field dest shape) = (case shape of None \<Rightarrow> 0 | Some (_, n) \<Rightarrow> 5 + n)"
  proof (cases dest)
    case None
    then show ?thesis
      using shape by (simp add: destination_shape_def destination_field_def)
  next
    case (Some d)
    obtain kind n where "shape = Some (kind, n)" "length (nxr_address_bytes (dst_address d)) = n"
      using shape unfolding Some by (rule destination_shape_Some)
    then show ?thesis
      using Some by (simp add: destination_field_def)
  qed
  then have "length (frame_body frame_type seq dest shape payload)
      = 1 + 1 + 4 + (case shape of None \<Rightarrow> 0 | Some (_, n) \<Rightarrow> 5 + n) + 2 + length payload"
    by (simp add: frame_body_def)
  then show thesis
    using that [of "frame_body frame_type seq dest shape payload"] wire bound parse_frame_body_encoded [OF shape assms(2) ft len]
    by simp
qed

section \<open>The frame decoder as a stream decoder\<close>

text \<open>One turn of the loop; \<open>None\<close> stands for waiting.\<close>

definition nxr_decoder :: "(bytes \<Rightarrow> bytes \<Rightarrow> bytes) \<Rightarrow> bytes \<Rightarrow> byte \<Rightarrow> (nxr_udp_error option, nxr_udp_frame) decoder" where
  "nxr_decoder hmac session direction bs =
    (if length bs < 4 then Err None
     else case frame_wire_len_from_prefix bs of
       Inl e \<Rightarrow> Err (if e = NxrTruncated then None else Some e)
     | Inr n \<Rightarrow>
        if length bs < n then Err None
        else case decode_frame hmac (take n bs) session direction of
          Inl e \<Rightarrow> Err (Some e)
        | Inr (frame, consumed) \<Rightarrow> Ok (frame, drop consumed bs))"

lemma prefix_append: "4 \<le> length bs \<Longrightarrow> frame_wire_len_from_prefix (bs @ ext) = frame_wire_len_from_prefix bs"
  by (simp add: frame_wire_len_from_prefix_def)

lemma nxr_decoder_decided:
  assumes "nxr_decoder hmac session direction bs \<noteq> Err None"
  shows "nxr_decoder hmac session direction (bs @ ext) = map_sum id (\<lambda>(f, rest). (f, rest @ ext)) (nxr_decoder hmac session direction bs)"
proof -
  have four: "4 \<le> length bs"
    using assms by (auto simp: nxr_decoder_def not_less [symmetric])
  show ?thesis
  proof (cases "frame_wire_len_from_prefix bs")
    case (Inl e)
    then show ?thesis
      using four prefix_append [OF four, of ext] by (simp add: nxr_decoder_def)
  next
    case (Inr n)
    then have n: "n \<le> length bs"
      using assms four by (auto simp: nxr_decoder_def not_less [symmetric])
    show ?thesis
    proof (cases "decode_frame hmac (take n bs) session direction")
      case (Inl e)
      then show ?thesis
        using four Inr n prefix_append [OF four, of ext] by (simp add: nxr_decoder_def)
    next
      case r: (Inr r)
      obtain f c where fc: "decode_frame hmac (take n bs) session direction = Ok (f, c)"
        using r by (cases r) simp
      then have "c \<le> length bs"
        using decode_frame_consumed [OF fc] n by simp
      then show ?thesis
        using four Inr n fc prefix_append [OF four, of ext] by (simp add: nxr_decoder_def)
    qed
  qed
qed

lemma nxr_decoder_Ok:
  assumes "nxr_decoder hmac session direction bs = Ok (f, rest)"
  obtains c where "rest = drop c bs" "37 \<le> c" "c \<le> length bs"
proof -
  obtain n c where n: "decode_frame hmac (take n bs) session direction = Ok (f, c)" "n \<le> length bs" "rest = drop c bs"
    using assms by (auto simp: nxr_decoder_def split: if_splits sum.splits)
  then show thesis
    using that [of c] decode_frame_consumed [OF n(1)] by simp
qed

interpretation nxr: frame_decoder "nxr_decoder hmac session direction" "\<lambda>e. e = None" for hmac session direction
proof (unfold_locales, goal_cases)
  case (1 bs x rest ext)
  then show ?case
    using nxr_decoder_decided [of hmac session direction bs ext] by simp
next
  case (2 bs e ext)
  then show ?case
    using nxr_decoder_decided [of hmac session direction bs ext] by simp
next
  case (3 bs x rest)
  then show ?case
    by (metis append_take_drop_id nxr_decoder_Ok)
next
  case (4 bs x rest)
  then show ?case
    by (rule nxr_decoder_Ok) simp
qed

lemma drain_frames_eq:
  "drain_frames hmac buffer session direction = map_err the (drain_with (nxr_decoder hmac session direction) (\<lambda>e. e = None) buffer)"
proof (induction hmac buffer session direction rule: drain_frames.induct)
  case (1 hmac buffer session direction)
  note unf = drain_frames.simps [of hmac buffer session direction]
    drain_with.simps [of "nxr_decoder hmac session direction" "\<lambda>e. e = None" buffer]
  show ?case
  proof (cases "nxr_decoder hmac session direction buffer")
    case (Inl e)
    then have "drain_frames hmac buffer session direction = (if e = None then Ok ([], buffer) else Err (the e))"
      by (auto simp: unf(1) nxr_decoder_def [of hmac session direction buffer] split: if_splits sum.splits)
    then show ?thesis
      by (simp add: unf(2) Inl)
  next
    case (Inr r)
    obtain f rest where r: "nxr_decoder hmac session direction buffer = Ok (f, rest)"
      using Inr by (cases r) simp
    then obtain n c where n: "\<not> length buffer < FRAME_LEN_SIZE" "frame_wire_len_from_prefix buffer = Ok n" "\<not> length buffer < n"
      "decode_frame hmac (take n buffer) session direction = Ok (f, c)" "rest = drop c buffer"
      by (auto simp: nxr_decoder_def split: if_splits sum.splits)
    have "length rest < length buffer"
      using nxr.dec_uses [OF r] .
    then show ?thesis
      using 1 [OF n(1-4) refl] n r
      by (cases "drain_with (nxr_decoder hmac session direction) (\<lambda>e. e = None) rest") (auto simp: unf)
  qed
qed

text \<open>What the loop leaves is shorter than one frame.\<close>

lemma drain_frames_left:
  assumes "drain_frames hmac buffer session direction = Ok (frames, rest)"
  shows "length rest < 7828"
proof -
  have "drain_with (nxr_decoder hmac session direction) (\<lambda>e. e = None) buffer = Ok (frames, rest)"
    using assms by (simp add: drain_frames_eq result_simps)
  then have "drain_with (nxr_decoder hmac session direction) (\<lambda>e. e = None) rest = Ok ([], rest)"
    by (rule nxr.drain_left)
  then have wait: "nxr_decoder hmac session direction rest = Err None"
    using nxr.dec_uses [of hmac session direction rest]
    by (auto simp: drain_with.simps [of _ _ rest] result_simps split: sum.splits if_splits)
  show ?thesis
  proof (cases "frame_wire_len_from_prefix rest")
    case (Inr n)
    then show ?thesis
      using wait wire_len_bounds [OF Inr] by (auto simp: nxr_decoder_def split: if_splits sum.splits)
  qed (use wait in \<open>auto simp: nxr_decoder_def frame_wire_len_from_prefix_def Let_def split: if_splits\<close>)
qed

lemma nxr_decoder_encoded:
  assumes "encode_frame hmac session direction frame_type seq dest payload = Ok wire"
    and "\<And>d. dest = Some d \<Longrightarrow> string_address (dst_address d)" and hmac: "\<And>k m. length (hmac k m) = 32"
  shows "nxr_decoder hmac session direction (wire @ rest)
    = Ok (\<lparr>nf_type = frame_type, nf_seq = seq, nf_destination = dest, nf_payload = payload\<rparr>, rest)"
proof -
  obtain body where body: "wire = u32_be (of_nat (length body)) @ body @ frame_tag hmac session direction body"
    "8 \<le> length body" "length body \<le> 7792"
    "parse_frame_body body = Ok \<lparr>nf_type = frame_type, nf_seq = seq, nf_destination = dest, nf_payload = payload\<rparr>"
    using assms(1,2) by (rule encode_frame_Ok)
  have tag: "length (frame_tag hmac session direction body) = 32"
    by (simp add: frame_tag_def hmac)
  have n: "unat (of_nat (length body) :: u32) = length body"
    using body(3) by (simp add: unat_of_nat_small)
  have pre: "frame_wire_len_from_prefix (wire @ ext) = Ok (36 + length body)" for ext
    using body(2,3) n by (auto simp: body(1) frame_wire_len_from_prefix_def Let_def)
  have len: "length wire = 36 + length body"
    by (simp add: body(1) tag)
  have "decode_frame hmac wire session direction = Ok (\<lparr>nf_type = frame_type, nf_seq = seq, nf_destination = dest, nf_payload = payload\<rparr>, 36 + length body)"
    using pre [of "[]"] len body(4) by (simp add: decode_frame_def Let_def verify_frame_def body(1) tag) (simp add: frame_tag_def)
  then show ?thesis
    using pre [of rest] len by (simp add: nxr_decoder_def)
qed

end
