(* ===== verification/Xudp_Globals.thy ===== *)
theory Xudp_Globals
  imports Nxr_Frames "HOL-Library.AList" "HOL-Library.Multiset"
begin

text \<open>
  Egress classes and the GlobalID map of \<open>src/server/xudp.rs\<close>.  The map is process-wide and guarded
  by one mutex, so its operations are taken one after the other; a hash map is an association
  list with distinct keys.  A lease is a handle: it is released once, by \<open>release\<close> or by its drop.
\<close>

section \<open>Egress classes\<close>

datatype xudp_outbound_unsupported = UnsupportedNxr | UnsupportedHandoff | UnsupportedBlock | UnsupportedOther

datatype xudp_route_class = RouteDirect | RouteNxr | RouteHandoff | RouteBlock | RouteUnsupported

datatype xudp_egress_capability = EgressDirect | EgressNxr | EgressHandoff

fun authorize_xudp_egress :: "xudp_route_class \<Rightarrow> xudp_outbound_unsupported + xudp_egress_capability" where
  "authorize_xudp_egress RouteDirect = Ok EgressDirect"
| "authorize_xudp_egress RouteNxr = Ok EgressNxr"
| "authorize_xudp_egress RouteHandoff = Ok EgressHandoff"
| "authorize_xudp_egress RouteBlock = Err UnsupportedBlock"
| "authorize_xudp_egress RouteUnsupported = Err UnsupportedOther"

fun require_direct_xudp_landward :: "xudp_egress_capability \<Rightarrow> xudp_outbound_unsupported + unit" where
  "require_direct_xudp_landward EgressDirect = Ok ()"
| "require_direct_xudp_landward EgressNxr = Err UnsupportedNxr"
| "require_direct_xudp_landward EgressHandoff = Err UnsupportedHandoff"

fun require_nxr_xudp_landward :: "xudp_egress_capability \<Rightarrow> xudp_outbound_unsupported + unit" where
  "require_nxr_xudp_landward EgressNxr = Ok ()"
| "require_nxr_xudp_landward EgressDirect = Err UnsupportedOther"
| "require_nxr_xudp_landward EgressHandoff = Err UnsupportedHandoff"

fun require_handoff_xudp_landward :: "xudp_egress_capability \<Rightarrow> xudp_outbound_unsupported + unit" where
  "require_handoff_xudp_landward EgressHandoff = Ok ()"
| "require_handoff_xudp_landward EgressDirect = Err UnsupportedOther"
| "require_handoff_xudp_landward EgressNxr = Err UnsupportedNxr"

text \<open>The three carriers exclude each other, and each is reached by exactly one route class.\<close>

lemma egress_exclusive:
  "is_ok (require_direct_xudp_landward c) \<longleftrightarrow> c = EgressDirect"
  "is_ok (require_nxr_xudp_landward c) \<longleftrightarrow> c = EgressNxr"
  "is_ok (require_handoff_xudp_landward c) \<longleftrightarrow> c = EgressHandoff"
  "authorize_xudp_egress r = Ok EgressDirect \<longleftrightarrow> r = RouteDirect"
  by (cases c; simp)+ (cases r; simp)

section \<open>The GlobalID map\<close>

datatype xudp_session_error =
    SessionCodec xudp_codec_error
  | SessionOutbound xudp_outbound_unsupported
  | SessionIo
  | SessionNxrConnect
  | SessionNxrCarrier nxr_udp_error
  | EgressCapabilityChanged
  | AssociationLimit
  | FdBudgetExhausted
  | MissingNewDestination
  | UnauthorizedRewrite
  | ResolveFailed
  | SessionIdleTimeout
  | AssociationConflict
  | UnexpectedVisionDirect
  | SessionHandoffUdp
  | HandoffUdpOpenTimeout
  | HandoffUdpClosed

definition XUDP_MAX_ASSOCIATIONS :: nat where "XUDP_MAX_ASSOCIATIONS = 256"
definition XUDP_ASSOCIATION_IDLE :: time where "XUDP_ASSOCIATION_IDLE = 60 * 1000000000"

record global_entry =
  ge_expire :: time
  active_leases :: nat
  ge_owner :: bytes

type_synonym global_map = "(bytes \<times> global_entry) list"

definition purge_locked :: "global_map \<Rightarrow> time \<Rightarrow> global_map" where
  "purge_locked m now = filter (\<lambda>(_, e). \<not> (active_leases e = 0 \<and> now \<ge> ge_expire e)) m"

definition acquire :: "global_map \<Rightarrow> bytes \<Rightarrow> bytes \<Rightarrow> time \<Rightarrow> (xudp_session_error + unit) \<times> global_map" where
  "acquire m i owner now =
    (let m' = purge_locked m now
     in case map_of m' i of
          Some e \<Rightarrow>
            if ge_owner e \<noteq> owner then (Err AssociationConflict, m')
            else if active_leases e + 1 \<ge> 2 ^ 64 then (Err AssociationLimit, m')
            else (Ok (), AList.update i (e\<lparr>active_leases := active_leases e + 1\<rparr>) m')
        | None \<Rightarrow>
            if length m' \<ge> XUDP_MAX_ASSOCIATIONS then (Err AssociationLimit, m')
            else (Ok (), AList.update i
                    \<lparr>ge_expire = now + XUDP_ASSOCIATION_IDLE, active_leases = 1, ge_owner = owner\<rparr> m'))"

text \<open>\<open>None\<close> is the arithmetic overflow of the decrement.\<close>

definition release_lease :: "global_map \<Rightarrow> bytes \<Rightarrow> time \<Rightarrow> global_map option" where
  "release_lease m i now =
    (case map_of m i of
       None \<Rightarrow> Some m
     | Some e \<Rightarrow>
        if active_leases e = 0 then None
        else
         (let e' = e\<lparr>active_leases := active_leases e - 1\<rparr>
          in Some (AList.update i
               (if active_leases e' = 0 then e'\<lparr>ge_expire := now + XUDP_ASSOCIATION_IDLE\<rparr> else e') m)))"

section \<open>Runs of the map\<close>

text \<open>The map with the leases that are out, each with the user it was given to.\<close>

inductive global_step :: "global_map \<times> (bytes \<times> bytes) list \<Rightarrow> global_map \<times> (bytes \<times> bytes) list \<Rightarrow> bool" where
  Acquired: "acquire m i owner now = (Ok (), m') \<Longrightarrow> global_step (m, ls) (m', (i, owner) # ls)"
| Refused: "acquire m i owner now = (Err e, m') \<Longrightarrow> global_step (m, ls) (m', ls)"
| Released: "(i, owner) \<in> set ls \<Longrightarrow> release_lease m i now = Some m' \<Longrightarrow> global_step (m, ls) (m', remove1 (i, owner) ls)"
| Purged: "global_step (m, ls) (purge_locked m now, ls)"

inductive_cases global_stepE: "global_step s t"

definition leases_of :: "bytes \<Rightarrow> (bytes \<times> bytes) list \<Rightarrow> nat" where
  "leases_of i ls = length (filter (\<lambda>l. fst l = i) ls)"

definition global_ok :: "global_map \<times> (bytes \<times> bytes) list \<Rightarrow> bool" where
  "global_ok s \<longleftrightarrow> (let (m, ls) = s in distinct (map fst m) \<and> length m \<le> XUDP_MAX_ASSOCIATIONS
     \<and> (\<forall>i e. map_of m i = Some e \<longrightarrow> active_leases e = leases_of i ls)
     \<and> (\<forall>(i, owner) \<in> set ls. \<exists>e. map_of m i = Some e \<and> ge_owner e = owner))"

lemma map_of_purge:
  "distinct (map fst m) \<Longrightarrow> map_of (purge_locked m now) i =
    (case map_of m i of Some e \<Rightarrow> if active_leases e = 0 \<and> now \<ge> ge_expire e then None else Some e | None \<Rightarrow> None)"
proof (induction m)
  case (Cons a m)
  obtain k e where a: "a = (k, e)"
    by (cases a)
  have "map_of m k = None"
    using Cons.prems a by (simp add: map_of_eq_None_iff)
  then show ?case
    using Cons a by (auto simp: purge_locked_def)
qed (simp add: purge_locked_def)

lemma leases_pos: "(i, owner) \<in> set ls \<Longrightarrow> 0 < leases_of i ls"
  by (force simp: leases_of_def filter_empty_conv)

lemma global_okD:
  assumes "global_ok (m, ls)"
  shows "distinct (map fst m)" "length m \<le> XUDP_MAX_ASSOCIATIONS"
    "map_of m i = Some e \<Longrightarrow> active_leases e = leases_of i ls"
    "(i, owner) \<in> set ls \<Longrightarrow> \<exists>e. map_of m i = Some e \<and> ge_owner e = owner"
  using assms by (auto simp: global_ok_def)

lemma one_owner: "global_ok (m, ls) \<Longrightarrow> (i, a) \<in> set ls \<Longrightarrow> (i, b) \<in> set ls \<Longrightarrow> a = b"
  using global_okD(4) by (metis option.inject)

lemma purge_ok:
  assumes "global_ok (m, ls)"
  shows "global_ok (purge_locked m now, ls)"
proof -
  have ok: "distinct (map fst m)" "length m \<le> XUDP_MAX_ASSOCIATIONS"
    "\<And>i e. map_of m i = Some e \<Longrightarrow> active_leases e = leases_of i ls"
    "\<And>i owner. (i, owner) \<in> set ls \<Longrightarrow> \<exists>e. map_of m i = Some e \<and> ge_owner e = owner"
    using assms by (auto simp: global_ok_def)
  have "distinct (map fst (purge_locked m now))"
    using ok(1) by (simp add: purge_locked_def distinct_map_filter)
  moreover have "length (purge_locked m now) \<le> XUDP_MAX_ASSOCIATIONS"
    using ok(2) by (simp add: purge_locked_def) (meson le_trans length_filter_le)
  moreover have "\<exists>e. map_of (purge_locked m now) i = Some e \<and> ge_owner e = owner" if "(i, owner) \<in> set ls" for i owner
    using ok(3,4) [of i] leases_pos [OF that] that by (fastforce simp: map_of_purge [OF ok(1)])
  ultimately show ?thesis
    using ok(3) by (auto simp: global_ok_def map_of_purge [OF ok(1)] split: option.splits if_splits)
qed

lemma length_update:
  "length (AList.update k v m) = (if map_of m k = None then Suc (length m) else length m)"
  by (induction m) auto

text \<open>Setting the count of one id to the number of its leases keeps the invariant.\<close>

lemma update_ok:
  assumes ok: "global_ok (m, ls)" and room: "map_of m i = None \<Longrightarrow> length m < XUDP_MAX_ASSOCIATIONS"
    and others: "\<And>k. k \<noteq> i \<Longrightarrow> leases_of k ls' = leases_of k ls" and own: "active_leases e = leases_of i ls'"
    and keep: "\<And>k owner. (k, owner) \<in> set ls' \<Longrightarrow> if k = i then owner = ge_owner e else (k, owner) \<in> set ls"
  shows "global_ok (AList.update i e m, ls')"
proof -
  have old: "distinct (map fst m)" "length m \<le> XUDP_MAX_ASSOCIATIONS"
    "\<And>i e. map_of m i = Some e \<Longrightarrow> active_leases e = leases_of i ls"
    "\<And>i owner. (i, owner) \<in> set ls \<Longrightarrow> \<exists>e. map_of m i = Some e \<and> ge_owner e = owner"
    using ok by (auto simp: global_ok_def)
  have "length (AList.update i e m) \<le> XUDP_MAX_ASSOCIATIONS"
    unfolding length_update using old(2) room by (cases "map_of m i") (simp_all add: Suc_le_eq)
  moreover have "\<exists>e'. map_of (AList.update i e m) k = Some e' \<and> ge_owner e' = owner" if "(k, owner) \<in> set ls'" for k owner
    using keep [OF that] old(4) [of k owner] by (auto simp: update_conv' split: if_splits)
  ultimately show ?thesis
    using old(1,3) others own by (auto simp: global_ok_def update_conv' distinct_update)
qed

lemma leases_of_Cons: "leases_of k ((i, owner) # ls) = (if k = i then Suc (leases_of k ls) else leases_of k ls)"
  by (simp add: leases_of_def)

lemma leases_of_remove1:
  "(i, owner) \<in> set ls \<Longrightarrow> leases_of k (remove1 (i, owner) ls) = (if k = i then leases_of k ls - 1 else leases_of k ls)"
proof (induction ls)
  case (Cons l ls)
  show ?case
  proof (cases "l = (i, owner)")
    case False
    then have "(i, owner) \<in> set ls"
      using Cons.prems by simp
    then show ?thesis
      using Cons.IH leases_pos [of i owner ls] False by (cases l) (auto simp: leases_of_Cons split: if_splits)
  qed (simp add: leases_of_Cons)
qed simp

lemma acquire_ok:
  assumes ok: "global_ok (m, ls)" and acq: "acquire m i owner now = (r, m')"
  shows "global_ok (m', if is_ok r then (i, owner) # ls else ls)"
proof -
  let ?m = "purge_locked m now"
  have p: "global_ok (?m, ls)"
    using purge_ok [OF ok] .
  have own: "ge_owner e = w" if "map_of ?m i = Some e" "(i, w) \<in> set ls" for e w
    using global_okD(4) [OF p that(2)] that(1) by simp
  show ?thesis
  proof (cases "map_of ?m i")
    case None
    then have none: "leases_of i ls = 0" "\<And>w. (i, w) \<notin> set ls"
      using global_okD(4) [OF p, of i] by (auto simp: leases_of_def filter_empty_conv)
    have new: "global_ok (AList.update i e ?m, (i, owner) # ls)"
      if "length ?m < XUDP_MAX_ASSOCIATIONS" "active_leases e = 1" "ge_owner e = owner" for e
      using that none by (intro update_ok [OF p]) (auto simp: leases_of_Cons)
    show ?thesis
      using acq p new by (cases "length ?m \<ge> XUDP_MAX_ASSOCIATIONS") (auto simp: acquire_def None)
  next
    case (Some e)
    have count: "active_leases e = leases_of i ls"
      using global_okD(3) [OF p Some] .
    have more: "global_ok (AList.update i (e\<lparr>active_leases := active_leases e + 1\<rparr>) ?m, (i, owner) # ls)"
      if "ge_owner e = owner"
      using that count Some own [OF Some] by (intro update_ok [OF p]) (auto simp: leases_of_Cons)
    show ?thesis
      using acq p more by (cases "ge_owner e = owner"; cases "active_leases e + 1 \<ge> 2 ^ 64") (auto simp: acquire_def Some)
  qed
qed

lemma release_ok:
  assumes ok: "global_ok (m, ls)" and lease: "(i, owner) \<in> set ls"
  shows "\<exists>m'. release_lease m i now = Some m' \<and> global_ok (m', remove1 (i, owner) ls)"
proof -
  obtain e where e: "map_of m i = Some e" "ge_owner e = owner" "active_leases e = leases_of i ls"
    using global_okD(3,4) [OF ok, of i] lease by blast
  have pos: "0 < active_leases e"
    using e(3) leases_pos [OF lease] by simp
  have own: "w = owner" if "(i, w) \<in> set ls" for w
    using one_owner [OF ok that lease] .
  have "global_ok (AList.update i e' m, remove1 (i, owner) ls)"
    if "active_leases e' = active_leases e - 1" "ge_owner e' = owner" for e'
  proof (rule update_ok [OF ok])
    fix k w
    assume "(k, w) \<in> set (remove1 (i, owner) ls)"
    then have "(k, w) \<in> set ls"
      using set_remove1_subset [of "(i, owner)" ls] by blast
    then show "if k = i then w = ge_owner e' else (k, w) \<in> set ls"
      using own that(2) by (cases "k = i") simp_all
  qed (use e that leases_of_remove1 [OF lease] in simp_all)
  then show ?thesis
    using e pos by (simp add: release_lease_def Let_def)
qed

lemma global_step_ok: "global_step s t \<Longrightarrow> global_ok s \<Longrightarrow> global_ok t"
proof (induction rule: global_step.induct)
  case (Acquired m i owner now m' ls)
  then show ?case
    using acquire_ok [of m ls i owner now "Ok ()" m'] by simp
next
  case (Refused m i owner now e m' ls)
  then show ?case
    using acquire_ok [of m ls i owner now "Err e" m'] by simp
next
  case (Released i owner ls m now m')
  then show ?case
    using release_ok [of m ls i owner now] by simp
next
  case (Purged m ls now)
  then show ?case
    by (rule purge_ok)
qed

lemma global_reachable_ok: "global_step\<^sup>*\<^sup>* ([], []) s \<Longrightarrow> global_ok s"
proof (induction rule: rtranclp_induct)
  case base
  show ?case
    by (simp add: global_ok_def)
qed (rule global_step_ok)

section \<open>Properties\<close>

text \<open>
  C1. A GlobalID belongs to one user at a time.  In every reachable state of the process-wide
  map, whatever the order and times of its operations: the leases that are out on one id are
  all of the same user, and a later claim by another user is refused with a conflict; at most
  256 ids are retained; and releasing any lease that is out succeeds, without underflow of its count.
\<close>

theorem global_id_exclusive:
  assumes "global_step\<^sup>*\<^sup>* ([], []) (m, ls)" and "(i, owner) \<in> set ls"
  shows "(\<forall>w. (i, w) \<in> set ls \<longrightarrow> w = owner) \<and> length m \<le> XUDP_MAX_ASSOCIATIONS
    \<and> (\<forall>w now. w \<noteq> owner \<longrightarrow> fst (acquire m i w now) = Err AssociationConflict)
    \<and> (\<forall>now. \<exists>m'. release_lease m i now = Some m')"
proof -
  have ok: "global_ok (m, ls)"
    using global_reachable_ok [OF assms(1)] .
  have claim: "fst (acquire m i w now) = Err AssociationConflict" if "w \<noteq> owner" for w now
  proof -
    obtain e where "map_of (purge_locked m now) i = Some e" "ge_owner e = owner"
      using global_okD(4) [OF purge_ok [OF ok] assms(2)] by blast
    then show ?thesis
      using that by (simp add: acquire_def)
  qed
  have "w = owner" if "(i, w) \<in> set ls" for w
    using one_owner [OF ok that assms(2)] .
  moreover have "length m \<le> XUDP_MAX_ASSOCIATIONS"
    using ok by (simp add: global_ok_def)
  moreover have "\<exists>m'. release_lease m i now = Some m'" for now
    using release_ok [OF ok assms(2), of now] by (elim exE conjE) (intro exI)
  ultimately show ?thesis
    using claim by simp
qed

theorem global_id_exclusive_witness:
  "\<exists>m. global_step\<^sup>*\<^sup>* ([], []) (m, [([1], [7])]) \<and> fst (acquire m [1] [8] 5) = Err AssociationConflict
     \<and> (\<exists>m'. release_lease m [1] 9 = Some m')"
proof -
  let ?m = "[([1], \<lparr>ge_expire = 60000000000, active_leases = 1, ge_owner = [7]\<rparr>)]"
  have "acquire [] [1] [7] 0 = (Ok (), ?m)"
    by (simp add: acquire_def purge_locked_def XUDP_MAX_ASSOCIATIONS_def XUDP_ASSOCIATION_IDLE_def)
  then have reach: "global_step\<^sup>*\<^sup>* ([], []) (?m, [([1], [7])])"
    using global_step.Acquired [of "[]" "[1]" "[7]" 0 ?m "[]"] by blast
  show ?thesis
    using global_id_exclusive [OF reach, of "[1]" "[7]"] reach by (intro exI [of "\<lambda>m. global_step\<^sup>*\<^sup>* ([], []) (m, [([1], [7])]) \<and> _ m" ?m]) simp
qed

end
