(* ===== verification/Nxr_Association.thy ===== *)
theory Nxr_Association
  imports Xudp_Globals
begin

text \<open>
  Both ends of an NXR UDP association: \<open>XudpNxrAssociation\<close> of \<open>src/server/xudp.rs\<close> on the LINE and
  \<open>handle_udp_association\<close> of \<open>src/server/nxr/udp.rs\<close> on the LANDING.  A socket is the bytes or
  datagrams that went through it; the environment decides when an operation on it fails.
\<close>

section \<open>The LINE\<close>

record nxr_line =
  nl_session :: bytes
  nl_seq_out :: u64
  nl_seq_in :: u64
  last_uplink_destination :: destination
  nl_inbound :: bytes
  pending_downlink :: "nxr_udp_frame list"
  nl_last_activity :: time
  uplink_datagrams :: nat
  downlink_datagrams :: nat
  nl_written :: bytes

definition line_new :: "bytes \<Rightarrow> destination \<Rightarrow> bytes \<Rightarrow> time \<Rightarrow> nxr_line" where
  "line_new session dest written now =
    \<lparr>nl_session = session, nl_seq_out = seq_new, nl_seq_in = seq_new, last_uplink_destination = dest, nl_inbound = [],
     pending_downlink = [], nl_last_activity = now, uplink_datagrams = 0, downlink_datagrams = 0, nl_written = written\<rparr>"

text \<open>
  \<open>dial_nxr_udp_carrier\<close> with the timestamp and nonce it draws: the open request is written
  and the session key derived from its authenticated prefix.
\<close>

definition line_dial ::
  "(bytes \<Rightarrow> bytes \<Rightarrow> bytes) \<Rightarrow> bytes \<Rightarrow> destination \<Rightarrow> bytes \<Rightarrow> u64 \<Rightarrow> bytes \<Rightarrow> time \<Rightarrow> nxr_protocol_error + nxr_line"
where
  "line_dial hmac key dest user_id timestamp nonce now =
    and_then (map_err protocol_error_from_udp (encode_udp_open hmac dest user_id timestamp nonce key)) (\<lambda>request.
    and_then (ok_or (protocol_error_from_udp NxrLength) (open_authenticated_prefix request)) (\<lambda>prefix.
      Ok (line_new (derive_session hmac key prefix) dest request now)))"

text \<open>The destination field of the frame for a packet; \<open>None\<close> repeats the previous one.\<close>

definition rewrite_destination ::
  "nxr_line \<Rightarrow> xudp_packet \<Rightarrow> destination option \<Rightarrow> xudp_session_error + (destination option \<times> nxr_line)"
where
  "rewrite_destination self packet authorized =
    (if xp_destination packet \<noteq> None then
       (case authorized of
          None \<Rightarrow> Err UnauthorizedRewrite
        | Some dest \<Rightarrow>
           if dest \<noteq> last_uplink_destination self
           then Ok (Some dest, self\<lparr>last_uplink_destination := dest\<rparr>)
           else Ok (None, self))
     else if xp_status packet = XNew then Err MissingNewDestination
     else Ok (None, self))"

text \<open>\<open>fault\<close> is the number of bytes a failing \<open>write_all\<close> has written, \<open>None\<close> when it succeeds.\<close>

definition line_send ::
  "(bytes \<Rightarrow> bytes \<Rightarrow> bytes) \<Rightarrow> nxr_line \<Rightarrow> byte \<Rightarrow> destination option \<Rightarrow> bytes \<Rightarrow> nat option
   \<Rightarrow> (xudp_session_error + unit) \<times> nxr_line"
where
  "line_send hmac self frame_type dest payload fault =
    (case next_out (nl_seq_out self) of
       Inl e \<Rightarrow> (Err (SessionNxrCarrier e), self)
     | Inr (seq, nxt) \<Rightarrow>
        (let self' = self\<lparr>nl_seq_out := nxt\<rparr>
         in case encode_frame hmac (nl_session self) DIR_LINE_TO_LANDING frame_type seq dest payload of
              Inl e \<Rightarrow> (Err (SessionNxrCarrier e), self')
            | Inr wire \<Rightarrow>
               (case fault of
                  Some n \<Rightarrow> (Err SessionIo, self'\<lparr>nl_written := nl_written self @ take n wire\<rparr>)
                | None \<Rightarrow> (Ok (), self'\<lparr>nl_written := nl_written self @ wire\<rparr>))))"

definition line_uplink ::
  "(bytes \<Rightarrow> bytes \<Rightarrow> bytes) \<Rightarrow> nxr_line \<Rightarrow> xudp_packet \<Rightarrow> destination option \<Rightarrow> nat option \<Rightarrow> time
   \<Rightarrow> (xudp_session_error + unit) \<times> nxr_line"
where
  "line_uplink hmac self packet authorized fault now =
    (if xp_status packet = XEnd \<or> xp_status packet = XKeepAlive
     then (Ok (), self\<lparr>nl_last_activity := now\<rparr>)
     else case rewrite_destination self packet authorized of
       Inl e \<Rightarrow> (Err e, self)
     | Inr (dest_for_frame, self1) \<Rightarrow>
        if xp_payload packet \<noteq> [] \<or> dest_for_frame \<noteq> None then
          (case line_send hmac self1 FRAME_TYPE_DATAGRAM dest_for_frame (xp_payload packet) fault of
             (Inl e, self2) \<Rightarrow> (Err e, self2)
           | (Inr _, self2) \<Rightarrow>
              (Ok (), self2\<lparr>uplink_datagrams := (if xp_payload packet \<noteq> [] then sat_add (uplink_datagrams self2) 1
                                                else uplink_datagrams self2),
                           nl_last_activity := now\<rparr>))
        else (Ok (), self1\<lparr>nl_last_activity := now\<rparr>))"

text \<open>\<open>close\<close>: a CLOSE frame when one can be made, whatever becomes of its write.\<close>

definition line_close :: "(bytes \<Rightarrow> bytes \<Rightarrow> bytes) \<Rightarrow> nxr_line \<Rightarrow> nat option \<Rightarrow> nxr_line" where
  "line_close hmac self fault = snd (line_send hmac self FRAME_TYPE_CLOSE None [] fault)"

definition finish_downlink_frame ::
  "nxr_line \<Rightarrow> nxr_udp_frame \<Rightarrow> time \<Rightarrow> (xudp_session_error + bytes) \<times> nxr_line"
where
  "finish_downlink_frame self frame now =
    (case accept_in (nl_seq_in self) (nf_seq frame) of
       Inl e \<Rightarrow> (Err (SessionNxrCarrier e), self)
     | Inr nxt \<Rightarrow>
        (let self' = self\<lparr>nl_seq_in := nxt\<rparr>
         in if nf_type frame = FRAME_TYPE_CLOSE then (Err SessionIo, self')
            else if nf_type frame \<noteq> FRAME_TYPE_DATAGRAM then (Err (SessionNxrCarrier NxrFrameType), self')
            else case nf_destination frame of
              None \<Rightarrow> (Err (SessionNxrCarrier NxrAddress), self')
            | Some dest \<Rightarrow>
               (case encode_xudp_packet dest (nf_payload frame) False None True [] of
                  (Inl e, _) \<Rightarrow> (Err (SessionCodec e), self')
                | (Inr _, out) \<Rightarrow>
                   (Ok out, self'\<lparr>downlink_datagrams := sat_add (downlink_datagrams self') 1, nl_last_activity := now\<rparr>))))"

definition NXR_LINE_FRAME_BUFFER :: nat where "NXR_LINE_FRAME_BUFFER = 256 * 1024"

text \<open>
  One call of \<open>recv_downlink_frame\<close> over the reads the carrier will return; an empty read is
  its end and \<open>None\<close> is a call still waiting when the reads given are used up.
\<close>

fun recv_downlink_frame ::
  "(bytes \<Rightarrow> bytes \<Rightarrow> bytes) \<Rightarrow> nxr_line \<Rightarrow> bytes list \<Rightarrow> time
   \<Rightarrow> (xudp_session_error + bytes) option \<times> nxr_line \<times> bytes list"
and read_downlink ::
  "(bytes \<Rightarrow> bytes \<Rightarrow> bytes) \<Rightarrow> nxr_line \<Rightarrow> bytes list \<Rightarrow> time
   \<Rightarrow> (xudp_session_error + bytes) option \<times> nxr_line \<times> bytes list"
where
  "recv_downlink_frame hmac self reads now =
    (case pending_downlink self of
       frame # frames \<Rightarrow>
         (let (r, self') = finish_downlink_frame (self\<lparr>pending_downlink := frames\<rparr>) frame now in (Some r, self', reads))
     | [] \<Rightarrow>
        if length (nl_inbound self) \<ge> 4 then
          (case drain_frames hmac (nl_inbound self) (nl_session self) DIR_LANDING_TO_LINE of
             Inl e \<Rightarrow> (Some (Err (SessionNxrCarrier e)), self, reads)
           | Inr ([], rest) \<Rightarrow> read_downlink hmac (self\<lparr>nl_inbound := rest\<rparr>) reads now
           | Inr (frame # frames, rest) \<Rightarrow>
               (let (r, self') = finish_downlink_frame (self\<lparr>nl_inbound := rest, pending_downlink := frames\<rparr>) frame now
                in (Some r, self', reads)))
        else read_downlink hmac self reads now)"
| "read_downlink hmac self [] now = (None, self, [])"
| "read_downlink hmac self (seg # reads) now =
    (if seg = [] then (Some (Err SessionIo), self, reads)
     else
      (let self' = self\<lparr>nl_inbound := nl_inbound self @ seg\<rparr>
       in if length (nl_inbound self') > NXR_LINE_FRAME_BUFFER
          then (Some (Err (SessionNxrCarrier NxrLength)), self', reads)
          else recv_downlink_frame hmac self' reads now))"

section \<open>The LANDING\<close>

record nxr_landing =
  la_current :: socket_addr
  la_inbound :: bytes
  la_seq_in :: u64
  la_seq_out :: u64
  la_uplink :: nat
  la_downlink :: nat
  la_sent :: "(bytes \<times> socket_addr) list"
  la_written :: bytes

definition MAX_FRAME_BUFFER :: nat where "MAX_FRAME_BUFFER = 256 * 1024"

definition socket_addr_for_udp :: "destination \<Rightarrow> nxr_landing_error + socket_addr" where
  "socket_addr_for_udp d =
    (case dst_address d of
       Ipv4 a \<Rightarrow> Ok \<lparr>sa_ip = V4 a, sa_port = dst_port d\<rparr>
     | Ipv6 a \<Rightarrow> Ok \<lparr>sa_ip = V6 a, sa_port = dst_port d\<rparr>
     | DomainName _ \<Rightarrow> Err (LandingUdpProtocol NxrAddress))"

definition destination_from_socket :: "socket_addr \<Rightarrow> destination" where
  "destination_from_socket a =
    \<lparr>dst_address = (case sa_ip a of V4 x \<Rightarrow> Ipv4 x | V6 x \<Rightarrow> Ipv6 x), dst_port = sa_port a\<rparr>"

definition landing_new :: "socket_addr \<Rightarrow> nxr_landing" where
  "landing_new current =
    \<lparr>la_current = current, la_inbound = [], la_seq_in = seq_new, la_seq_out = seq_new, la_uplink = 0, la_downlink = 0,
     la_sent = [], la_written = []\<rparr>"

text \<open>The start of an association: the initial destination must be an address.\<close>

definition landing_start :: "destination \<Rightarrow> nxr_landing_error + nxr_landing" where
  "landing_start dest = and_then (socket_addr_for_udp dest) (\<lambda>current. Ok (landing_new current))"

datatype landing_outcome = Relaying nxr_landing | Ended nxr_landing | Broken nxr_landing_error nxr_landing

text \<open>\<open>sends payload target\<close>: whether the UDP socket takes the datagram.\<close>

definition landing_datagram :: "(bytes \<Rightarrow> socket_addr \<Rightarrow> bool) \<Rightarrow> nxr_landing \<Rightarrow> bytes \<Rightarrow> landing_outcome" where
  "landing_datagram sends st payload =
    (if length payload > NXR_UDP_MAX_PAYLOAD then Broken (LandingUdpProtocol NxrPayload) st
     else if payload \<noteq> [] then
       (if sends payload (la_current st)
        then Relaying (st\<lparr>la_sent := la_sent st @ [(payload, la_current st)], la_uplink := sat_add (la_uplink st) (length payload)\<rparr>)
        else Broken LandingUdpIo st)
     else Relaying st)"

definition landing_frame :: "(bytes \<Rightarrow> socket_addr \<Rightarrow> bool) \<Rightarrow> nxr_landing \<Rightarrow> nxr_udp_frame \<Rightarrow> landing_outcome" where
  "landing_frame sends st frame =
    (case accept_in (la_seq_in st) (nf_seq frame) of
       Inl e \<Rightarrow> Broken (LandingUdpProtocol e) st
     | Inr nxt \<Rightarrow>
        (let st' = st\<lparr>la_seq_in := nxt\<rparr>
         in if nf_type frame = FRAME_TYPE_CLOSE then Ended st'
            else if nf_type frame \<noteq> FRAME_TYPE_DATAGRAM then Broken (LandingUdpProtocol NxrFrameType) st'
            else case nf_destination frame of
              None \<Rightarrow> landing_datagram sends st' (nf_payload frame)
            | Some dest \<Rightarrow>
               (case socket_addr_for_udp dest of
                  Inl e \<Rightarrow> Broken e st'
                | Inr a \<Rightarrow> landing_datagram sends (st'\<lparr>la_current := a\<rparr>) (nf_payload frame))))"

fun landing_frames :: "(bytes \<Rightarrow> socket_addr \<Rightarrow> bool) \<Rightarrow> nxr_landing \<Rightarrow> nxr_udp_frame list \<Rightarrow> landing_outcome" where
  "landing_frames sends st [] = Relaying st"
| "landing_frames sends st (frame # frames) =
    (case landing_frame sends st frame of
       Relaying st' \<Rightarrow> landing_frames sends st' frames
     | finished \<Rightarrow> finished)"

text \<open>The events \<open>select!\<close> waits for.\<close>

datatype landing_event =
    InboundRead bytes
  | InboundFailed
  | UdpReceived bytes socket_addr "nat option"
  | UdpFailed
  | LandingIdle

fun landing_event_step ::
  "(bytes \<Rightarrow> bytes \<Rightarrow> bytes) \<Rightarrow> bytes \<Rightarrow> (bytes \<Rightarrow> socket_addr \<Rightarrow> bool) \<Rightarrow> nxr_landing \<Rightarrow> landing_event \<Rightarrow> landing_outcome"
where
  "landing_event_step hmac session sends st (InboundRead seg) =
    (if seg = [] then Ended st
     else
      (let st' = st\<lparr>la_inbound := la_inbound st @ seg\<rparr>
       in if length (la_inbound st') > MAX_FRAME_BUFFER then Broken (LandingUdpProtocol NxrLength) st'
          else case drain_frames hmac (la_inbound st') session DIR_LINE_TO_LANDING of
            Inl e \<Rightarrow> Broken (LandingUdpProtocol e) st'
          | Inr (frames, rest) \<Rightarrow> landing_frames sends (st'\<lparr>la_inbound := rest\<rparr>) frames))"
| "landing_event_step hmac session sends st InboundFailed = Broken LandingRead st"
| "landing_event_step hmac session sends st (UdpReceived payload from fault) =
    (if length payload > NXR_UDP_MAX_PAYLOAD then Broken (LandingUdpProtocol NxrPayload) st
     else case next_out (la_seq_out st) of
       Inl e \<Rightarrow> Broken (LandingUdpProtocol e) st
     | Inr (seq, nxt) \<Rightarrow>
        (let st' = st\<lparr>la_seq_out := nxt\<rparr>
         in case encode_frame hmac session DIR_LANDING_TO_LINE FRAME_TYPE_DATAGRAM seq
                   (Some (destination_from_socket from)) payload of
              Inl e \<Rightarrow> Broken (LandingUdpProtocol e) st'
            | Inr wire \<Rightarrow>
               (case fault of
                  Some n \<Rightarrow> Broken LandingUdpIo (st'\<lparr>la_written := la_written st @ take n wire\<rparr>)
                | None \<Rightarrow> Relaying (st'\<lparr>la_written := la_written st @ wire,
                                      la_downlink := sat_add (la_downlink st) (length payload)\<rparr>))))"
| "landing_event_step hmac session sends st UdpFailed = Broken LandingUdpIo st"
| "landing_event_step hmac session sends st LandingIdle = Ended st"

fun handle_udp_association ::
  "(bytes \<Rightarrow> bytes \<Rightarrow> bytes) \<Rightarrow> bytes \<Rightarrow> (bytes \<Rightarrow> socket_addr \<Rightarrow> bool) \<Rightarrow> nxr_landing \<Rightarrow> landing_event list \<Rightarrow> landing_outcome"
where
  "handle_udp_association hmac session sends st [] = Relaying st"
| "handle_udp_association hmac session sends st (ev # evs) =
    (case landing_event_step hmac session sends st ev of
       Relaying st' \<Rightarrow> handle_udp_association hmac session sends st' evs
     | finished \<Rightarrow> finished)"

section \<open>What the uplink should do\<close>

text \<open>A call of the LINE's uplink: the packet, the destination routing authorised for it, the time.\<close>

type_synonym uplink_call = "xudp_packet \<times> destination option \<times> time"

fun line_uplinks ::
  "(bytes \<Rightarrow> bytes \<Rightarrow> bytes) \<Rightarrow> nxr_line \<Rightarrow> uplink_call list \<Rightarrow> (xudp_session_error + unit) \<times> nxr_line"
where
  "line_uplinks hmac self [] = (Ok (), self)"
| "line_uplinks hmac self ((packet, authorized, now) # calls) =
    (case line_uplink hmac self packet authorized None now of
       (Inl e, self') \<Rightarrow> (Err e, self')
     | (Inr _, self') \<Rightarrow> line_uplinks hmac self' calls)"

text \<open>
  The specification: every nonempty payload of a New or Keep packet goes to the destination that
  was authorised last, the one of the open before the first.
\<close>

fun uplink_spec :: "destination \<Rightarrow> uplink_call list \<Rightarrow> (bytes \<times> destination) list" where
  "uplink_spec current [] = []"
| "uplink_spec current ((packet, authorized, now) # calls) =
    (if xp_status packet = XEnd \<or> xp_status packet = XKeepAlive then uplink_spec current calls
     else
      (let current' = (case authorized of Some dest \<Rightarrow> if xp_destination packet \<noteq> None then dest else current | None \<Rightarrow> current)
       in (if xp_payload packet = [] then [] else [(xp_payload packet, current')]) @ uplink_spec current' calls))"

definition ip_destination :: "destination \<Rightarrow> bool" where
  "ip_destination d \<longleftrightarrow> (case dst_address d of DomainName _ \<Rightarrow> False | _ \<Rightarrow> True)"

definition socket_of :: "destination \<Rightarrow> socket_addr" where
  "socket_of d = \<lparr>sa_ip = (case dst_address d of Ipv6 a \<Rightarrow> V6 a | Ipv4 a \<Rightarrow> V4 a | DomainName _ \<Rightarrow> V4 0), sa_port = dst_port d\<rparr>"

lemma ip_destination_socket:
  "ip_destination d \<Longrightarrow> socket_addr_for_udp d = Ok (socket_of d)" "ip_destination d \<Longrightarrow> string_address (dst_address d)"
  by (auto simp: ip_destination_def socket_addr_for_udp_def socket_of_def string_address_def split: address.splits)

section \<open>The LANDING on the frames of the LINE\<close>

lemma landing_datagram_Relaying:
  assumes "landing_datagram sends st payload = Relaying st'"
  shows "landing_datagram sends (st\<lparr>la_inbound := b\<rparr>) payload = Relaying (st'\<lparr>la_inbound := b\<rparr>)"
  using assms by (auto simp: landing_datagram_def split: if_splits)

lemma landing_frame_inbound:
  assumes "landing_frame sends st f = Relaying st'"
  shows "landing_frame sends (st\<lparr>la_inbound := b\<rparr>) f = Relaying (st'\<lparr>la_inbound := b\<rparr>)"
proof -
  obtain nxt where nxt: "accept_in (la_seq_in st) (nf_seq f) = Ok nxt"
    using assms by (auto simp: landing_frame_def split: sum.splits)
  have ft: "nf_type f \<noteq> FRAME_TYPE_CLOSE" "nf_type f = FRAME_TYPE_DATAGRAM"
    using assms nxt by (auto simp: landing_frame_def Let_def split: if_splits)
  show ?thesis
  proof (cases "nf_destination f")
    case None
    then show ?thesis
      using assms nxt ft landing_datagram_Relaying [of sends "st\<lparr>la_seq_in := nxt\<rparr>" "nf_payload f" st' b]
      by (cases st) (simp add: landing_frame_def)
  next
    case (Some d)
    then obtain a where a: "socket_addr_for_udp d = Ok a"
      using assms nxt ft by (auto simp: landing_frame_def Let_def split: sum.splits)
    show ?thesis
      using assms nxt ft Some a landing_datagram_Relaying [of sends "st\<lparr>la_seq_in := nxt, la_current := a\<rparr>" "nf_payload f" st' b]
      by (cases st) (simp add: landing_frame_def)
  qed
qed

lemma landing_frames_inbound:
  "landing_frames sends st fs = Relaying st' \<Longrightarrow> landing_frames sends (st\<lparr>la_inbound := b\<rparr>) fs = Relaying (st'\<lparr>la_inbound := b\<rparr>)"
proof (induction fs arbitrary: st)
  case (Cons f fs)
  then obtain s where "landing_frame sends st f = Relaying s" "landing_frames sends s fs = Relaying st'"
    by (auto split: landing_outcome.splits)
  then show ?case
    using Cons.IH landing_frame_inbound [of sends st f s b] by simp
qed simp

lemma landing_frames_append:
  "landing_frames sends st (fs @ gs) = Relaying st' \<longleftrightarrow>
    (\<exists>s. landing_frames sends st fs = Relaying s \<and> landing_frames sends s gs = Relaying st')"
  by (induction fs arbitrary: st) (auto split: landing_outcome.splits)

text \<open>The reads of the LANDING process the frames of the stream, however it is cut.\<close>

lemma landing_reads:
  assumes "feed_with (\<lambda>b. drain_frames hmac b session DIR_LINE_TO_LANDING) segs (la_inbound st) = Ok (frames, rest)"
    and "length (la_inbound st) < 7828" and "\<forall>seg \<in> set segs. seg \<noteq> [] \<and> length seg \<le> 240000"
    and "landing_frames sends st frames = Relaying st'"
  shows "handle_udp_association hmac session sends st (map InboundRead segs) = Relaying (st'\<lparr>la_inbound := rest\<rparr>)"
  using assms
proof (induction segs arbitrary: st frames st')
  case Nil
  then show ?case
    by auto
next
  case (Cons seg segs)
  obtain fs left gs where fs: "drain_frames hmac (la_inbound st @ seg) session DIR_LINE_TO_LANDING = Ok (fs, left)"
    and gs: "feed_with (\<lambda>b. drain_frames hmac b session DIR_LINE_TO_LANDING) segs left = Ok (gs, rest)" and frames: "frames = fs @ gs"
    using Cons.prems(1) by (auto simp: result_simps)
  obtain s where s: "landing_frames sends st fs = Relaying s" "landing_frames sends s gs = Relaying st'"
    using Cons.prems(4) frames by (auto simp: landing_frames_append)
  have "landing_event_step hmac session sends st (InboundRead seg) = Relaying (s\<lparr>la_inbound := left\<rparr>)"
    using fs landing_frames_inbound [OF s(1), of left] Cons.prems(2,3) by (simp add: MAX_FRAME_BUFFER_def)
  moreover have "handle_udp_association hmac session sends (s\<lparr>la_inbound := left\<rparr>) (map InboundRead segs)
      = Relaying (st'\<lparr>la_inbound := left\<rparr>\<lparr>la_inbound := rest\<rparr>)"
    using Cons.IH [of "s\<lparr>la_inbound := left\<rparr>" gs "st'\<lparr>la_inbound := left\<rparr>"] gs landing_frames_inbound [OF s(2), of left] drain_frames_left [OF fs] Cons.prems(3)
    by simp
  ultimately show ?case
    by simp
qed

lemma next_accepted: "next_out n = Ok (seq, m) \<Longrightarrow> accept_in n seq = Ok m"
proof -
  assume "next_out n = Ok (seq, m)"
  then have n: "unat n < 2 ^ 32" "seq = ucast n" "m = n + 1"
    by (auto simp: next_out_def split: if_splits)
  have "unat (ucast (ucast n :: u32) :: u64) = unat n"
    using n(1) by (simp add: unsigned_ucast_eq unsigned_take_bit_eq take_bit_nat_eq_self)
  then have "(ucast seq :: u64) = n"
    unfolding n(2) by (simp add: word_unat_eq_iff)
  then show "accept_in n seq = Ok m"
    by (simp add: accept_in_def n(3))
qed

text \<open>One uplink call: the frame it writes makes the LANDING follow the LINE.\<close>

definition follows :: "nxr_line \<Rightarrow> nxr_landing \<Rightarrow> bool" where
  "follows line st \<longleftrightarrow> la_seq_in st = nl_seq_out line \<and> la_current st = socket_of (last_uplink_destination line)"

lemma line_send_Ok:
  assumes "line_send hmac self ft dest payload None = (Ok (), self')" and str: "\<And>d. dest = Some d \<Longrightarrow> string_address (dst_address d)"
    and hmac: "\<And>k m. length (hmac k m) = 32"
  obtains wire f where "nl_session self' = nl_session self \<and> nl_written self' = nl_written self @ wire
      \<and> last_uplink_destination self' = last_uplink_destination self"
    "\<forall>rest. nxr_decoder hmac (nl_session self) DIR_LINE_TO_LANDING (wire @ rest) = Ok (f, rest)"
    "accept_in (nl_seq_out self) (nf_seq f) = Ok (nl_seq_out self')" "nf_type f = ft" "nf_destination f = dest" "nf_payload f = payload"
    "length payload \<le> 7526"
proof -
  obtain seq nxt wire where nxt: "next_out (nl_seq_out self) = Ok (seq, nxt)"
    and wire: "encode_frame hmac (nl_session self) DIR_LINE_TO_LANDING ft seq dest payload = Ok wire"
    and self': "self' = self\<lparr>nl_seq_out := nxt, nl_written := nl_written self @ wire\<rparr>"
    using assms(1) by (auto simp: line_send_def Let_def split: sum.splits)
  have "length payload \<le> 7526"
    using wire by (auto simp: encode_frame_def not_less split: if_splits)
  then show thesis
    using that [of wire "\<lparr>nf_type = ft, nf_seq = seq, nf_destination = dest, nf_payload = payload\<rparr>"]
      nxr_decoder_encoded [OF wire str hmac] next_accepted [OF nxt] self' by simp
qed

lemma line_uplink_follows:
  assumes up: "line_uplink hmac self packet authorized None now = (Ok (), self')"
    and ip: "\<And>d. authorized = Some d \<Longrightarrow> ip_destination d" and hmac: "\<And>k m. length (hmac k m) = 32"
  shows "\<exists>fws. nl_session self' = nl_session self \<and> nl_written self' = nl_written self @ concat (map fst fws)
    \<and> (\<forall>(w, f) \<in> set fws. \<forall>rest. nxr_decoder hmac (nl_session self) DIR_LINE_TO_LANDING (w @ rest) = Ok (f, rest))
    \<and> (\<forall>st. follows self st \<longrightarrow> (\<exists>st'. landing_frames (\<lambda>_ _. True) st (map snd fws) = Relaying st' \<and> follows self' st'
        \<and> la_sent st' = la_sent st @ map (\<lambda>(p, d). (p, socket_of d)) (uplink_spec (last_uplink_destination self) [(packet, authorized, now)])))
    \<and> (\<forall>calls. uplink_spec (last_uplink_destination self) ((packet, authorized, now) # calls)
        = uplink_spec (last_uplink_destination self) [(packet, authorized, now)] @ uplink_spec (last_uplink_destination self') calls)"
proof (cases "xp_status packet = XEnd \<or> xp_status packet = XKeepAlive")
  case True
  then have "self' = self\<lparr>nl_last_activity := now\<rparr>"
    using up by (simp add: line_uplink_def)
  then show ?thesis
    using True by (intro exI [of _ "[]"]) (simp add: follows_def)
next
  case False
  obtain dest self1 where rw: "rewrite_destination self packet authorized = Ok (dest, self1)"
    using up False by (auto simp: line_uplink_def split: sum.splits)
  define current where "current = (case authorized of Some d \<Rightarrow> if xp_destination packet \<noteq> None then d else last_uplink_destination self
      | None \<Rightarrow> last_uplink_destination self)"
  have self1: "self1 = self\<lparr>last_uplink_destination := current\<rparr>"
    and dest: "dest = (if current = last_uplink_destination self then None else Some current)"
    and cur_ip: "dest = Some current \<Longrightarrow> ip_destination current"
    using rw ip by (auto simp: rewrite_destination_def current_def split: if_splits option.splits)
  have spec: "uplink_spec (last_uplink_destination self) ((packet, authorized, now) # calls)
      = (if xp_payload packet = [] then [] else [(xp_payload packet, current)]) @ uplink_spec current calls" for calls
    using False by (simp add: current_def Let_def)
  show ?thesis
  proof (cases "xp_payload packet \<noteq> [] \<or> dest \<noteq> None")
    case False
    then have "self' = self\<lparr>nl_last_activity := now\<rparr>"
      using up \<open>\<not> (xp_status packet = XEnd \<or> xp_status packet = XKeepAlive)\<close> rw self1 dest
      by (auto simp: line_uplink_def split: if_splits)
    then show ?thesis
      using False dest spec by (intro exI [of _ "[]"]) (auto simp: follows_def split: if_splits)
  next
    case True
    then obtain self2 where send: "line_send hmac self1 FRAME_TYPE_DATAGRAM dest (xp_payload packet) None = (Ok (), self2)"
      and self': "last_uplink_destination self' = last_uplink_destination self2" "nl_seq_out self' = nl_seq_out self2"
        "nl_session self' = nl_session self2" "nl_written self' = nl_written self2"
      using up False rw by (auto simp: line_uplink_def split: sum.splits prod.splits)
    have str: "string_address (dst_address d)" if "dest = Some d" for d
      using that dest cur_ip ip_destination_socket(2) by (auto split: if_splits)
    obtain wire f where wire: "nl_session self2 = nl_session self1 \<and> nl_written self2 = nl_written self1 @ wire
        \<and> last_uplink_destination self2 = last_uplink_destination self1"
      "\<forall>rest. nxr_decoder hmac (nl_session self1) DIR_LINE_TO_LANDING (wire @ rest) = Ok (f, rest)"
      "accept_in (nl_seq_out self1) (nf_seq f) = Ok (nl_seq_out self2)" "nf_type f = FRAME_TYPE_DATAGRAM" "nf_destination f = dest"
      "nf_payload f = xp_payload packet" "length (xp_payload packet) \<le> 7526"
      by (rule line_send_Ok [OF send str hmac])
    have same: "nl_session self2 = nl_session self" "nl_written self2 = nl_written self @ wire" "last_uplink_destination self2 = current"
      using self1 wire(1) by simp_all
    have datagram: "FRAME_TYPE_DATAGRAM \<noteq> FRAME_TYPE_CLOSE"
      by (simp add: frame_tags)
    have step: "\<exists>st'. landing_frame (\<lambda>_ _. True) st f = Relaying st' \<and> follows self' st'
        \<and> la_sent st' = la_sent st @ (if xp_payload packet = [] then [] else [(xp_payload packet, socket_of current)])"
      if st: "follows self st" for st
    proof -
      let ?st = "st\<lparr>la_seq_in := nl_seq_out self2, la_current := socket_of current\<rparr>"
      have "accept_in (la_seq_in st) (nf_seq f) = Ok (nl_seq_out self2)"
        using wire(3) st self1 by (simp add: follows_def)
      then have "landing_frame (\<lambda>_ _. True) st f = landing_datagram (\<lambda>_ _. True) ?st (xp_payload packet)"
        using wire(4-6) st dest cur_ip ip_destination_socket(1) [of current]
        by (cases "current = last_uplink_destination self"; cases st) (simp_all add: landing_frame_def follows_def datagram)
      then show ?thesis
        using wire(7) self' same by (simp add: landing_datagram_def follows_def)
    qed
    show ?thesis
      using wire(2) self1 self' same step spec spec [of "[]"]
      by (intro exI [of _ "[(wire, f)]"]) (fastforce split: landing_outcome.split)
  qed
qed

lemma line_uplinks_follow:
  assumes "line_uplinks hmac self calls = (Ok (), self')" and "\<forall>(p, a, t) \<in> set calls. \<forall>d. a = Some d \<longrightarrow> ip_destination d"
    and hmac: "\<And>k m. length (hmac k m) = 32"
  shows "\<exists>fws. nl_written self' = nl_written self @ concat (map fst fws)
    \<and> (\<forall>(w, f) \<in> set fws. \<forall>rest. nxr_decoder hmac (nl_session self) DIR_LINE_TO_LANDING (w @ rest) = Ok (f, rest))
    \<and> (\<forall>st. follows self st \<longrightarrow> (\<exists>st'. landing_frames (\<lambda>_ _. True) st (map snd fws) = Relaying st'
        \<and> la_sent st' = la_sent st @ map (\<lambda>(p, d). (p, socket_of d)) (uplink_spec (last_uplink_destination self) calls)))"
  using assms(1,2)
proof (induction calls arbitrary: self)
  case Nil
  then show ?case
    by (intro exI [of _ "[]"]) simp
next
  case (Cons call calls)
  obtain packet authorized now where call: "call = (packet, authorized, now)"
    by (cases call)
  obtain mid where up: "line_uplink hmac self packet authorized None now = (Ok (), mid)"
    and more: "line_uplinks hmac mid calls = (Ok (), self')"
    using Cons.prems(1) call by (auto split: prod.splits sum.splits)
  have ip: "ip_destination d" if "authorized = Some d" for d
    using Cons.prems(2) call that by auto
  obtain fws where one: "nl_session mid = nl_session self" "nl_written mid = nl_written self @ concat (map fst fws)"
    "\<forall>(w, f) \<in> set fws. \<forall>rest. nxr_decoder hmac (nl_session self) DIR_LINE_TO_LANDING (w @ rest) = Ok (f, rest)"
    "\<And>st. follows self st \<Longrightarrow> \<exists>st'. landing_frames (\<lambda>_ _. True) st (map snd fws) = Relaying st' \<and> follows mid st'
      \<and> la_sent st' = la_sent st @ map (\<lambda>(p, d). (p, socket_of d)) (uplink_spec (last_uplink_destination self) [(packet, authorized, now)])"
    "uplink_spec (last_uplink_destination self) (call # calls)
      = uplink_spec (last_uplink_destination self) [(packet, authorized, now)] @ uplink_spec (last_uplink_destination mid) calls"
    using line_uplink_follows [OF up ip hmac] call by blast
  obtain gws where rest: "nl_written self' = nl_written mid @ concat (map fst gws)"
    "\<forall>(w, f) \<in> set gws. \<forall>rest. nxr_decoder hmac (nl_session mid) DIR_LINE_TO_LANDING (w @ rest) = Ok (f, rest)"
    "\<And>st. follows mid st \<Longrightarrow> \<exists>st'. landing_frames (\<lambda>_ _. True) st (map snd gws) = Relaying st'
      \<and> la_sent st' = la_sent st @ map (\<lambda>(p, d). (p, socket_of d)) (uplink_spec (last_uplink_destination mid) calls)"
    using Cons.IH [OF more] Cons.prems(2) by auto
  have "\<exists>st'. landing_frames (\<lambda>_ _. True) st (map snd (fws @ gws)) = Relaying st'
      \<and> la_sent st' = la_sent st @ map (\<lambda>(p, d). (p, socket_of d)) (uplink_spec (last_uplink_destination self) (call # calls))"
    if st: "follows self st" for st
  proof -
    obtain s where s: "landing_frames (\<lambda>_ _. True) st (map snd fws) = Relaying s" "follows mid s"
      "la_sent s = la_sent st @ map (\<lambda>(p, d). (p, socket_of d)) (uplink_spec (last_uplink_destination self) [(packet, authorized, now)])"
      using one(4) [OF st] by blast
    obtain t where "landing_frames (\<lambda>_ _. True) s (map snd gws) = Relaying t"
      "la_sent t = la_sent s @ map (\<lambda>(p, d). (p, socket_of d)) (uplink_spec (last_uplink_destination mid) calls)"
      using rest(3) [OF s(2)] by blast
    then show ?thesis
      unfolding one(5) using s by (intro exI [of _ t]) (auto simp: landing_frames_append)
  qed
  then show ?case
    using one(1-3) rest(1,2) by (intro exI [of _ "fws @ gws"]) auto
qed

text \<open>The LANDING reads exactly the open request off the carrier.\<close>

lemma read_open:
  assumes dec: "decode_udp_open hmac request key now md = Ok op" and req: "request = b # bs"
  shows "read_request_after_first b \<lparr>ti_bytes = bs @ rest, ti_ends = e\<rparr> = Ok (request, \<lparr>ti_bytes = rest, ti_ends = e\<rparr>)"
proof -
  define h where "h = take 34 request"
  define n where "n = unat (be_u16 (take 2 (drop 6 h)))"
  have d: "take 4 h = NXR_MAGIC" "h ! 4 = FLAG_UDP" "valid_address_len (h ! 5) n" "length request = n + 82"
    using dec [unfolded decode_udp_open_Ok_iff [OF h_def n_def]] by blast+
  have len: "length h = 34" "length bs = n + 81"
    using d(4) req by (simp_all add: h_def)
  have h: "h = b # take 33 bs"
    by (simp add: h_def req)
  have "udp_open_len_from_header h = Ok (n + 82)"
    using udp_open_Ok_iff [OF len(1)] d n_def by simp
  moreover have "peek_open_flags h = Some FLAG_UDP"
    using d len by (simp add: peek_open_flags_def REQUEST_HEADER_LEN_def ADDRESS_OFFSET_def FLAGS_OFFSET_def)
  moreover have "take 33 bs @ take (n + 48) (drop 33 bs) = bs" "drop (n + 48) (drop 33 bs) = []"
    using len(2) by simp_all
  ultimately show ?thesis
    using len(2) req h
    by (simp add: read_request_after_first_def read_exact_before_def REQUEST_HEADER_LEN_def ADDRESS_OFFSET_def)
qed

lemma nxr_feed:
  assumes "\<forall>(w, f) \<in> set fws. \<forall>rest. nxr_decoder hmac session direction (w @ rest) = Ok (f, rest)" and "concat segs = concat (map fst fws)"
  shows "feed_with (\<lambda>b. drain_frames hmac b session direction) segs [] = Ok (map snd fws, [])"
proof -
  have empty: "\<exists>e. nxr_decoder hmac session direction [] = Err e \<and> e = None"
    by (simp add: nxr_decoder_def)
  have "drain_with (nxr_decoder hmac session direction) (\<lambda>e. e = None) (concat (map fst fws)) = Ok (map snd fws, [])"
    using assms(1) by (intro nxr.drain_frames [OF empty]) auto
  moreover have "drain_with (nxr_decoder hmac session direction) (\<lambda>e. e = None) [] = Ok ([], [])"
    using nxr.drain_frames [OF empty, of "[]"] by simp
  ultimately have "feed_with (drain_with (nxr_decoder hmac session direction) (\<lambda>e. e = None)) segs [] = Ok (map snd fws, [])"
    using nxr.feed_drain [of hmac session direction "[]" segs] assms(2) by simp
  then show ?thesis
    unfolding drain_frames_eq feed_map_err by simp
qed

lemma line_dial_Ok:
  assumes "line_dial hmac key dest user_id timestamp nonce now = Ok line"
  obtains request where "encode_udp_open hmac dest user_id timestamp nonce key = Ok request"
    "line = line_new (derive_session hmac key (take (length request - 32) request)) dest request now"
  using assms by (auto simp: line_dial_def result_simps open_authenticated_prefix_def OPEN_TAG_LEN_def split: if_splits)

section \<open>Properties\<close>

text \<open>
  C1. The uplink of an NXR association, end to end.  The LINE dials with an open request for an
  address and hands any sequence of XUDP packets to the association, each with the destination
  routing authorised for it.  Whatever the LANDING has not seen before of this request it
  admits, with the initial destination and the session key of the LINE; and however the carrier
  cuts what the LINE wrote after it, the LANDING sends exactly the nonempty payloads of the New and Keep
  packets, in order, each to the destination authorised last, and no byte is left over.
\<close>

theorem nxr_uplink_end_to_end:
  assumes hmac: "\<forall>k m. length (hmac k m) = 32"
    and dial: "line_dial hmac key dest user_id timestamp nonce t = Ok line"
    and run: "line_uplinks hmac line calls = (Ok (), line')"
    and lens: "length user_id = 16" "length nonce = 16"
    and ip: "ip_destination dest" "\<forall>(p, a, t) \<in> set calls. \<forall>d. a = Some d \<longrightarrow> ip_destination d"
    and auth: "na_key A = key" "abs_diff timestamp now \<le> unat (maximum_time_difference A)"
      "reserve_at (na_replay A) nonce at = (Ok (), replay)"
    and wire: "nl_written line' = b # bs"
  shows "\<exists>carrier. landing_open hmac A b \<lparr>ti_bytes = bs, ti_ends = e\<rparr> now at
      = (Ok (UdpAssociation dest (nl_session line), carrier), A\<lparr>na_replay := replay\<rparr>)
    \<and> (\<forall>segs. concat segs = ti_bytes carrier \<and> (\<forall>seg \<in> set segs. seg \<noteq> [] \<and> length seg \<le> 240000) \<longrightarrow>
        (\<exists>start st. landing_start dest = Ok start
          \<and> handle_udp_association hmac (nl_session line) (\<lambda>_ _. True) start (map InboundRead segs) = Relaying st
          \<and> la_sent st = map (\<lambda>(p, d). (p, socket_of d)) (uplink_spec dest calls) \<and> la_inbound st = []))"
proof -
  have hm: "\<And>k m. length (hmac k m) = 32"
    using hmac by simp
  obtain request where enc: "encode_udp_open hmac dest user_id timestamp nonce key = Ok request"
    and line: "line = line_new (derive_session hmac key (take (length request - 32) request)) dest request t"
    using dial by (rule line_dial_Ok)
  let ?op = "\<lparr>uo_timestamp = timestamp, uo_nonce = nonce, uo_destination = dest, uo_user_id = user_id\<rparr>"
  have dec: "decode_udp_open hmac request (na_key A) now (maximum_time_difference A) = Ok ?op"
    using hm decode_udp_open_encoded [of hmac ?op key request now "maximum_time_difference A"] enc lens auth(1,2) ip_destination_socket(2) [OF ip(1)]
    by simp
  obtain fws where fws: "nl_written line' = request @ concat (map fst fws)"
    "\<forall>(w, f) \<in> set fws. \<forall>rest. nxr_decoder hmac (nl_session line) DIR_LINE_TO_LANDING (w @ rest) = Ok (f, rest)"
    "\<And>st. follows line st \<Longrightarrow> \<exists>st'. landing_frames (\<lambda>_ _. True) st (map snd fws) = Relaying st'
      \<and> la_sent st' = la_sent st @ map (\<lambda>(p, d). (p, socket_of d)) (uplink_spec dest calls)"
    using line_uplinks_follow [OF run ip(2) hm] line by (auto simp: line_new_def)
  have "request \<noteq> []"
    using dec by (auto simp: decode_udp_open_def REQUEST_HEADER_LEN_def ADDRESS_OFFSET_def)
  then obtain bs' where req: "request = b # bs'" and bs: "bs = bs' @ concat (map fst fws)"
    using wire fws(1) by (cases request) auto
  have res: "reserve_at (na_replay A) (uo_nonce ?op) at = (Ok (), replay)"
    using auth(3) by simp
  have "landing_open hmac A b \<lparr>ti_bytes = bs, ti_ends = e\<rparr> now at
      = (Ok (UdpAssociation dest (nl_session line), \<lparr>ti_bytes = concat (map fst fws), ti_ends = e\<rparr>), A\<lparr>na_replay := replay\<rparr>)"
    using read_open [OF dec req, of "concat (map fst fws)" e] admit_udp [OF dec res] auth(1)
    by (simp add: landing_open_def bs line line_new_def)
  moreover have "\<exists>start st. landing_start dest = Ok start
        \<and> handle_udp_association hmac (nl_session line) (\<lambda>_ _. True) start (map InboundRead segs) = Relaying st
        \<and> la_sent st = map (\<lambda>(p, d). (p, socket_of d)) (uplink_spec dest calls) \<and> la_inbound st = []"
    if segs: "concat segs = concat (map fst fws)" "\<forall>seg \<in> set segs. seg \<noteq> [] \<and> length seg \<le> 240000" for segs
  proof -
    let ?start = "landing_new (socket_of dest)"
    obtain s where s: "landing_frames (\<lambda>_ _. True) ?start (map snd fws) = Relaying s"
      "la_sent s = la_sent ?start @ map (\<lambda>(p, d). (p, socket_of d)) (uplink_spec dest calls)"
      using fws(3) [of ?start] by (auto simp: follows_def landing_new_def line line_new_def)
    have "handle_udp_association hmac (nl_session line) (\<lambda>_ _. True) ?start (map InboundRead segs) = Relaying (s\<lparr>la_inbound := []\<rparr>)"
      using landing_reads [OF _ _ segs(2) s(1)] nxr_feed [OF fws(2) segs(1)] by (simp add: landing_new_def)
    then show ?thesis
      using s(2) ip_destination_socket(1) [OF ip(1)] by (simp add: landing_start_def landing_new_def)
  qed
  ultimately show ?thesis
    by simp
qed

text \<open>A New packet with data, a Keep packet that goes elsewhere, and an End.\<close>

definition demo_calls :: "uplink_call list" where
  "demo_calls =
    [(\<lparr>session_id = 0, xp_status = XNew, xp_option = XUDP_DATA, xp_destination = Some demo_destination, global_id = None, xp_payload = [1, 2]\<rparr>,
      Some demo_destination, 1),
     (\<lparr>session_id = 0, xp_status = XKeep, xp_option = XUDP_DATA, xp_destination = Some demo_destination, global_id = None, xp_payload = [3]\<rparr>,
      Some \<lparr>dst_address = Ipv6 7, dst_port = 443\<rparr>, 2),
     (\<lparr>session_id = 0, xp_status = XEnd, xp_option = 0, xp_destination = None, global_id = None, xp_payload = []\<rparr>, None, 3)]"

lemma demo_dial:
  obtains line where "line_dial demo_hmac [5] demo_destination (replicate 16 7) 1000 (replicate 16 9) 0 = Ok line"
  by (simp add: line_dial_def encode_udp_open_def demo_destination_def nxr_consts Let_def open_authenticated_prefix_def)

lemma demo_run:
  assumes "line_dial demo_hmac [5] demo_destination (replicate 16 7) 1000 (replicate 16 9) 0 = Ok line"
  shows "\<exists>line' b bs. line_uplinks demo_hmac line demo_calls = (Ok (), line') \<and> nl_written line' = b # bs"
proof -
  obtain request where r: "line = line_new (derive_session demo_hmac [5] (take (length request - 32) request)) demo_destination request 0"
    "encode_udp_open demo_hmac demo_destination (replicate 16 7) 1000 (replicate 16 9) [5] = Ok request"
    using assms by (rule line_dial_Ok)
  have "request \<noteq> []"
    using r(2) by (auto simp: encode_udp_open_def nxr_header_def NXR_MAGIC_def ascii_def result_simps Let_def split: if_splits)
  then obtain b bs where "request = b # bs"
    by (cases request) auto
  then show ?thesis
    by (simp add: r(1) line_new_def demo_calls_def demo_destination_def line_uplink_def rewrite_destination_def line_send_def
        next_out_def seq_new_def encode_frame_def destination_shape_def frame_tags nxr_consts Let_def)
qed

lemma demo_spec:
  "map (\<lambda>(p, d). (p, socket_of d)) (uplink_spec demo_destination demo_calls)
    = [([1, 2], socket_of demo_destination), ([3], \<lparr>sa_ip = V6 7, sa_port = 443\<rparr>)]"
  by (simp add: demo_calls_def socket_of_def)

theorem nxr_uplink_end_to_end_witness:
  "\<exists>line b bs A carrier start st. line_dial demo_hmac [5] demo_destination (replicate 16 7) 1000 (replicate 16 9) 0 = Ok line
    \<and> nl_written (snd (line_uplinks demo_hmac line demo_calls)) = b # bs
    \<and> fst (landing_open demo_hmac A b \<lparr>ti_bytes = bs, ti_ends = False\<rparr> 1010 5) = Ok (UdpAssociation demo_destination (nl_session line), carrier)
    \<and> landing_start demo_destination = Ok start
    \<and> handle_udp_association demo_hmac (nl_session line) (\<lambda>_ _. True) start (map InboundRead (map (\<lambda>x. [x]) (ti_bytes carrier))) = Relaying st
    \<and> la_sent st = [([1, 2], socket_of demo_destination), ([3], \<lparr>sa_ip = V6 7, sa_port = 443\<rparr>)]"
proof -
  obtain line where dial: "line_dial demo_hmac [5] demo_destination (replicate 16 7) 1000 (replicate 16 9) 0 = Ok line"
    by (rule demo_dial)
  obtain line' b bs where run: "line_uplinks demo_hmac line demo_calls = (Ok (), line')" "nl_written line' = b # bs"
    using demo_run [OF dial] by blast
  obtain c where c: "cache_new 8 1 = Ok c"
    by (simp add: cache_new_def)
  obtain replay where res: "reserve_at c (replicate 16 9) 5 = (Ok (), replay)"
    using cache_new_reserve [OF c, of "replicate 16 9" 5]
    by (cases "reserve_at c (replicate 16 9) 5"; cases "fst (reserve_at c (replicate 16 9) 5)") (auto simp: handoff_reserve_at_def)
  let ?A = "\<lparr>na_key = [5], na_replay = c, maximum_time_difference = 30\<rparr>"
  have ip: "ip_destination demo_destination" "\<forall>(p, a, t) \<in> set demo_calls. \<forall>d. a = Some d \<longrightarrow> ip_destination d"
    by (simp_all add: ip_destination_def demo_destination_def demo_calls_def)
  obtain carrier where open_ok: "landing_open demo_hmac ?A b \<lparr>ti_bytes = bs, ti_ends = False\<rparr> 1010 5
      = (Ok (UdpAssociation demo_destination (nl_session line), carrier), ?A\<lparr>na_replay := replay\<rparr>)"
    and relay: "\<forall>segs. concat segs = ti_bytes carrier \<and> (\<forall>seg \<in> set segs. seg \<noteq> [] \<and> length seg \<le> 240000) \<longrightarrow>
        (\<exists>start st. landing_start demo_destination = Ok start
          \<and> handle_udp_association demo_hmac (nl_session line) (\<lambda>_ _. True) start (map InboundRead segs) = Relaying st
          \<and> la_sent st = map (\<lambda>(p, d). (p, socket_of d)) (uplink_spec demo_destination demo_calls) \<and> la_inbound st = [])"
    using nxr_uplink_end_to_end [of demo_hmac "[5]" demo_destination "replicate 16 7" 1000 "replicate 16 9" 0 line demo_calls line' ?A 1010 5
        replay b bs False] dial run ip res by (auto simp: abs_diff_def)
  obtain start st where st: "landing_start demo_destination = Ok start"
    "handle_udp_association demo_hmac (nl_session line) (\<lambda>_ _. True) start (map InboundRead (map (\<lambda>x. [x]) (ti_bytes carrier))) = Relaying st"
    "la_sent st = [([1, 2], socket_of demo_destination), ([3], \<lparr>sa_ip = V6 7, sa_port = 443\<rparr>)]"
    using relay [rule_format, of "map (\<lambda>x. [x]) (ti_bytes carrier)"] unfolding demo_spec by auto
  have "nl_written (snd (line_uplinks demo_hmac line demo_calls)) = b # bs"
    "fst (landing_open demo_hmac ?A b \<lparr>ti_bytes = bs, ti_ends = False\<rparr> 1010 5) = Ok (UdpAssociation demo_destination (nl_session line), carrier)"
    using run open_ok by simp_all
  then show ?thesis
    using dial st by blast
qed

end
