(* ===== verification/User_Map.thy ===== *)
theory User_Map
  imports Prelude "HOL-Library.List_Lexorder" "HOL-Library.Multiset"
begin

text \<open>
  The map from configured users to their policies (\<open>src/user_map.rs\<close>): a sorted table searched
  by bisection while it is small, a hash map when it is large. A user id is its sixteen bytes,
  ordered lexicographically as the derived \<open>Ord\<close> of \<open>UserId\<close> orders them.

  \<open>sort_unstable_by_key\<close> promises a sorted permutation and nothing about the order of entries
  with equal keys, so the sort is an argument \<open>sort_by\<close> of the constructor; the locale
  \<open>unstable_sort\<close> is what the standard library promises of it. \<open>binary_search_by_key\<close> is the
  loop of the standard library.
\<close>

section \<open>What the standard library does\<close>

type_synonym user_id = bytes

locale unstable_sort =
  fixes sort_by :: "(user_id \<times> 'v) list \<Rightarrow> (user_id \<times> 'v) list"
  assumes sort_perm: "mset (sort_by es) = mset es"
    and sort_sorted: "sorted (map fst (sort_by es))"

fun dedup_by_key :: "(user_id \<times> 'v) list \<Rightarrow> (user_id \<times> 'v) list" where
  "dedup_by_key (a # b # es) =
    (if fst a = fst b then dedup_by_key (a # es) else a # dedup_by_key (b # es))"
| "dedup_by_key es = es"

fun bisect :: "user_id list \<Rightarrow> user_id \<Rightarrow> nat \<Rightarrow> nat \<Rightarrow> nat" where
  "bisect keys k base remaining =
    (if remaining \<le> 1 then base
     else let half = remaining div 2; mid = base + half
          in bisect keys k (if k < keys ! mid then base else mid) (remaining - half))"

declare bisect.simps [simp del]

definition binary_search :: "user_id list \<Rightarrow> user_id \<Rightarrow> nat option" where
  "binary_search keys k =
    (if keys = [] then None
     else let i = bisect keys k 0 (length keys) in if keys ! i = k then Some i else None)"

section \<open>The map\<close>

definition SORTED_USER_LIMIT :: nat where "SORTED_USER_LIMIT = 64"

datatype 'v user_map = SortedMap "(user_id \<times> 'v) list" | HashedMap "user_id \<rightharpoonup> 'v"

definition from_entries ::
  "((user_id \<times> 'v) list \<Rightarrow> (user_id \<times> 'v) list) \<Rightarrow> (user_id \<times> 'v) list \<Rightarrow> 'v user_map"
where
  "from_entries sort_by entries =
    (let es = dedup_by_key (sort_by entries)
     in if length es \<le> SORTED_USER_LIMIT then SortedMap es
        else HashedMap (map_of (rev es)))"

fun get_user :: "'v user_map \<Rightarrow> user_id \<Rightarrow> 'v option" where
  "get_user (SortedMap es) u = map_option (\<lambda>i. snd (es ! i)) (binary_search (map fst es) u)"
| "get_user (HashedMap m) u = m u"

fun user_map_len :: "'v user_map \<Rightarrow> nat" where
  "user_map_len (SortedMap es) = length es"
| "user_map_len (HashedMap m) = card (dom m)"

definition default_user_map :: "'v user_map" where
  "default_user_map = SortedMap []"

section \<open>Bisection\<close>

lemma bisect_bounds:
  assumes "0 < remaining" and "base + remaining \<le> n"
  shows "bisect keys k base remaining < n"
  using assms
proof (induction keys k base remaining rule: bisect.induct)
  case (1 keys k base remaining)
  show ?case
    by (subst bisect.simps) (use 1 in \<open>auto simp: Let_def\<close>)
qed

lemma bisect_order:
  assumes "sorted_wrt (<) (keys :: user_id list)" and "i < length keys" and "j < length keys"
  shows "keys ! i < keys ! j \<longleftrightarrow> i < j"
  using assms by (metis linorder_neqE_nat not_less_iff_gr_or_eq sorted_wrt_nth_less)

lemma bisect_finds:
  assumes "sorted_wrt (<) keys" and "keys ! i = k" and "base \<le> i" and "i < base + remaining"
    and "base + remaining \<le> length keys"
  shows "bisect keys k base remaining = i"
  using assms
proof (induction keys k base remaining rule: bisect.induct)
  case (1 keys k base remaining)
  let ?mid = "base + remaining div 2"
  show ?case
  proof (cases "remaining \<le> 1")
    case True
    then show ?thesis using 1 by (subst bisect.simps) auto
  next
    case False
    have mid: "?mid < length keys" using False 1 by auto
    have "k < keys ! ?mid \<longleftrightarrow> i < ?mid"
      using bisect_order[OF 1(2) _ mid, of i] 1(3,5,6) by auto
    then show ?thesis
      using False 1 by (subst bisect.simps) (auto simp: Let_def)
  qed
qed

lemma binary_search_iff:
  assumes "sorted_wrt (<) keys"
  shows "binary_search keys k = Some i \<longleftrightarrow> i < length keys \<and> keys ! i = k"
proof
  assume a: "binary_search keys k = Some i"
  define j where "j = bisect keys k 0 (length keys)"
  have ne: "keys \<noteq> []" using a by (cases keys) (simp_all add: binary_search_def)
  then have "j < length keys" unfolding j_def by (intro bisect_bounds) simp_all
  moreover have "j = i \<and> keys ! j = k"
    using a ne by (simp add: binary_search_def Let_def j_def[symmetric] split: if_splits)
  ultimately show "i < length keys \<and> keys ! i = k" by auto
next
  assume i: "i < length keys \<and> keys ! i = k"
  then have "bisect keys k 0 (length keys) = i" by (intro bisect_finds[OF assms]) simp_all
  then show "binary_search keys k = Some i" using i by (cases keys) (simp_all add: binary_search_def)
qed

lemma binary_search_None:
  assumes "sorted_wrt (<) keys"
  shows "binary_search keys k = None \<longleftrightarrow> k \<notin> set keys"
proof (cases "binary_search keys k")
  case None
  have "\<not> (i < length keys \<and> keys ! i = k)" for i
    using binary_search_iff[OF assms, of k i] None by simp
  then show ?thesis using None by (auto simp: in_set_conv_nth)
next
  case (Some i)
  then have "i < length keys \<and> keys ! i = k" using binary_search_iff[OF assms, of k i] by simp
  then show ?thesis using Some by (auto simp: in_set_conv_nth)
qed

section \<open>Duplicates\<close>

lemma dedup_subset: "set (dedup_by_key es) \<subseteq> set es"
  by (induction es rule: dedup_by_key.induct) auto

lemma dedup_keys: "fst ` set (dedup_by_key es) = fst ` set es"
  by (induction es rule: dedup_by_key.induct) auto

lemma dedup_strict:
  "sorted (map fst es) \<Longrightarrow> sorted_wrt (<) (map fst (dedup_by_key es))"
proof (induction es rule: dedup_by_key.induct)
  case (1 a b es)
  have "x \<in> set (dedup_by_key (b # es)) \<Longrightarrow> fst b \<le> fst x" for x
    using 1(3) dedup_subset[of "b # es"] by auto
  moreover have "fst a \<noteq> fst b \<Longrightarrow> fst a < fst b" using 1(3) by (simp add: less_le)
  ultimately show ?case using 1 by (auto intro: less_le_trans)
qed auto

lemma map_of_rev_distinct: "distinct (map fst es) \<Longrightarrow> map_of (rev es) = map_of es"
  by (simp add: map_of_inject_set rev_map[symmetric])

section \<open>What the map holds\<close>

definition user_map_ok :: "'v user_map \<Rightarrow> bool" where
  "user_map_ok m = (case m of
     SortedMap es \<Rightarrow> sorted_wrt (<) (map fst es) \<and> length es \<le> SORTED_USER_LIMIT
   | HashedMap h \<Rightarrow> finite (dom h) \<and> SORTED_USER_LIMIT < card (dom h))"

lemma get_user_sorted:
  assumes "sorted_wrt (<) (map fst es)"
  shows "get_user (SortedMap es) u = map_of es u"
proof (cases "binary_search (map fst es) u")
  case None
  then have "u \<notin> fst ` set es" using binary_search_None[OF assms] by simp
  then show ?thesis using None by (simp add: map_of_eq_None_iff[THEN iffD2])
next
  case (Some i)
  then have i: "i < length es" "fst (es ! i) = u" using binary_search_iff[OF assms] by auto
  have "distinct (map fst es)" using assms by (simp add: strict_sorted_iff)
  moreover have "(u, snd (es ! i)) \<in> set es"
    using i(1) by (metis i(2) nth_mem prod.collapse)
  ultimately have "map_of es u = Some (snd (es ! i))" by (rule map_of_is_SomeI)
  then show ?thesis using Some by simp
qed

context unstable_sort
begin

lemma sort_set: "set (sort_by es) = set es"
  by (metis sort_perm set_mset_mset)

lemma strict: "sorted_wrt (<) (map fst (dedup_by_key (sort_by es)))"
  by (rule dedup_strict[OF sort_sorted])

lemma strict_distinct: "distinct (map fst (dedup_by_key (sort_by es)))"
  using strict by (simp add: strict_sorted_iff)

lemma lookup: "get_user (from_entries sort_by es) u = map_of (dedup_by_key (sort_by es)) u"
  using map_of_rev_distinct[OF strict_distinct[of es]] get_user_sorted[OF strict[of es]]
  by (simp add: from_entries_def Let_def)

lemma lookup_member: "get_user (from_entries sort_by es) u = Some v \<Longrightarrow> (u, v) \<in> set es"
  using dedup_subset[of "sort_by es"] by (auto simp: lookup sort_set dest: map_of_SomeD)

lemma lookup_None: "get_user (from_entries sort_by es) u = None \<longleftrightarrow> u \<notin> fst ` set es"
  using dedup_keys[of "sort_by es"] by (auto simp: lookup sort_set map_of_eq_None_iff)

lemma well_formed: "user_map_ok (from_entries sort_by es)"
proof -
  have "card (dom (map_of (dedup_by_key (sort_by es)))) = length (dedup_by_key (sort_by es))"
    using strict_distinct[of es] by (metis dom_map_of_conv_image_fst distinct_card length_map set_map)
  then show ?thesis
    using strict[of es] map_of_rev_distinct[OF strict_distinct[of es]]
    by (auto simp: from_entries_def user_map_ok_def Let_def finite_dom_map_of)
qed

lemma len: "user_map_len (from_entries sort_by es) = card (fst ` set es)"
proof -
  have "fst ` set (dedup_by_key (sort_by es)) = fst ` set es"
    using dedup_keys[of "sort_by es"] by (simp add: sort_set)
  moreover have "card (fst ` set (dedup_by_key (sort_by es))) = length (dedup_by_key (sort_by es))"
    using strict_distinct[of es] by (metis distinct_card length_map set_map)
  ultimately show ?thesis
    using map_of_rev_distinct[OF strict_distinct[of es]]
    by (simp add: from_entries_def Let_def dom_map_of_conv_image_fst)
qed

lemma unique_lookup:
  assumes "distinct (map fst es)"
  shows "get_user (from_entries sort_by es) u = map_of es u"
proof (cases "get_user (from_entries sort_by es) u")
  case None
  then show ?thesis using lookup_None[of es u] by (simp add: map_of_eq_None_iff[THEN iffD2])
next
  case (Some v)
  then show ?thesis using lookup_member[OF Some] assms by simp
qed

end

text \<open>The stable sort of the library satisfies the contract.\<close>

interpretation key_sort: unstable_sort "sort_key fst"
  by unfold_locales simp_all

text \<open>
  C1. A map built from any entries is well formed: a strictly sorted table of at most 64 users or a
  hash map of more, never both; its length is the number of distinct users. A lookup finds a
  value exactly for the configured users, and the value is one configured for that user, the
  only one when the ids are unique, whichever way the sort orders equal keys.
\<close>

theorem user_map_well_typed:
  assumes "unstable_sort sort_by"
  shows "user_map_ok (from_entries sort_by es)
    \<and> user_map_len (from_entries sort_by es) = card (fst ` set es)
    \<and> (get_user (from_entries sort_by es) u = None \<longleftrightarrow> u \<notin> fst ` set es)
    \<and> (get_user (from_entries sort_by es) u = Some v \<longrightarrow> (u, v) \<in> set es)
    \<and> (distinct (map fst es) \<longrightarrow> get_user (from_entries sort_by es) u = map_of es u)"
  by (intro conjI impI unstable_sort.well_formed[OF assms] unstable_sort.len[OF assms]
      unstable_sort.lookup_None[OF assms] unstable_sort.lookup_member[OF assms]
      unstable_sort.unique_lookup[OF assms])

theorem user_map_well_typed_witness:
  "get_user (from_entries (sort_key fst) [([2, 1], ''b''), ([1, 9], ''a'')]) [1, 9] = Some ''a''
   \<and> get_user (from_entries (sort_key fst) [([2, 1], ''b''), ([1, 9], ''a'')]) [1, 8] = None"
proof -
  have none: "get_user (from_entries (sort_key fst) es) u = None" if "u \<notin> fst ` set es" for es :: "(user_id \<times> string) list" and u
    using user_map_well_typed[OF key_sort.unstable_sort_axioms, of es u] that by blast
  have some: "get_user (from_entries (sort_key fst) es) u = map_of es u" if "distinct (map fst es)" for es :: "(user_id \<times> string) list" and u
    using user_map_well_typed[OF key_sort.unstable_sort_axioms, of es u] that by blast
  show ?thesis by (intro conjI none) (simp_all add: some)
qed

end
