(* ===== verification/User_Registry.thy ===== *)
theory User_Registry
  imports User_Map Vless_Client
begin

text \<open>
  The registry of users of the plain VLESS mode and the policy check of a decoded request
  (\<open>UserRegistry\<close> in \<open>src/protocol/vless/validate.rs\<close>), over the user map.
\<close>

record user_registry =
  reg_users :: "unit user_map"

definition new_registry ::
  "((user_id \<times> unit) list \<Rightarrow> (user_id \<times> unit) list) \<Rightarrow> user_id list \<Rightarrow> user_registry"
where
  "new_registry sort_by users = \<lparr>reg_users = from_entries sort_by (map (\<lambda>u. (u, ())) users)\<rparr>"

definition find_user :: "user_registry \<Rightarrow> user_id \<Rightarrow> unit option" where
  "find_user reg u = get_user (reg_users reg) u"

definition contains_user :: "user_registry \<Rightarrow> user_id \<Rightarrow> bool" where
  "contains_user reg u \<longleftrightarrow> find_user reg u \<noteq> None"

definition authorize_plain_tcp ::
  "user_registry \<Rightarrow> request_header \<Rightarrow> request_validation_error + destination"
where
  "authorize_plain_tcp reg request =
    (if \<not> contains_user reg (rh_user_id request) then Err UnauthorizedUser
     else if rh_addons request \<noteq> [] then Err (UnsupportedAddons (length (rh_addons request)))
     else if rh_command request \<noteq> Tcp then Err (UnsupportedCommand (rh_command request))
     else ok_or MissingDestination (rh_destination request))"

lemma contains_new_registry:
  assumes "unstable_sort sort_by"
  shows "contains_user (new_registry sort_by users) u \<longleftrightarrow> u \<in> set users"
  using unstable_sort.lookup_None[OF assms, of "map (\<lambda>u. (u, ())) users" u]
  by (simp add: contains_user_def find_user_def new_registry_def image_image)

text \<open>The check accepts exactly the plain TCP requests of registered users.\<close>

lemma authorize_plain_tcp_iff:
  assumes "unstable_sort sort_by"
  shows "authorize_plain_tcp (new_registry sort_by users) request = Ok d
    \<longleftrightarrow> rh_user_id request \<in> set users \<and> rh_addons request = [] \<and> rh_command request = Tcp
      \<and> rh_destination request = Some d"
  by (simp add: authorize_plain_tcp_def contains_new_registry[OF assms] result_simps)

text \<open>An unregistered user learns nothing else about the request from the error.\<close>

lemma authorize_plain_tcp_unknown:
  assumes "unstable_sort sort_by" and "rh_user_id request \<notin> set users"
  shows "authorize_plain_tcp (new_registry sort_by users) request = Err UnauthorizedUser"
  using assms by (simp add: authorize_plain_tcp_def contains_new_registry)

end
