(* ===== verification/Text_Parse.thy ===== *)
theory Text_Parse
  imports Net_Types
begin

text \<open>
  Text as the configuration and the inbounds carry it: a \<open>str\<close> is its bytes. The string functions
  and the number and address parsers of the standard library that the router uses
  (\<open>to_ascii_lowercase\<close>, \<open>strip_prefix\<close>, \<open>split_once\<close>, \<open>u16::from_str\<close>, \<open>IpAddr::from_str\<close>).
\<close>

type_synonym str = bytes

section \<open>Strings\<close>

definition lower_byte :: "byte \<Rightarrow> byte" where
  "lower_byte b = (if 65 \<le> b \<and> b \<le> 90 then b + 32 else b)"

definition to_ascii_lowercase :: "str \<Rightarrow> str" where
  "to_ascii_lowercase s = map lower_byte s"

definition eq_ignore_ascii_case :: "str \<Rightarrow> str \<Rightarrow> bool" where
  "eq_ignore_ascii_case s t \<longleftrightarrow> to_ascii_lowercase s = to_ascii_lowercase t"

definition strip_prefix :: "str \<Rightarrow> str \<Rightarrow> str option" where
  "strip_prefix p s = (if take (length p) s = p then Some (drop (length p) s) else None)"

fun split_once :: "byte \<Rightarrow> str \<Rightarrow> (str \<times> str) option" where
  "split_once c [] = None"
| "split_once c (b # s) = (if b = c then Some ([], s) else map_option (apfst (Cons b)) (split_once c s))"

definition trim_start_matches :: "byte \<Rightarrow> str \<Rightarrow> str" where
  "trim_start_matches c s = dropWhile ((=) c) s"

definition ends_with :: "str \<Rightarrow> str \<Rightarrow> bool" where
  "ends_with s t \<longleftrightarrow> length t \<le> length s \<and> drop (length s - length t) s = t"

lemma lower_byte_idem [simp]: "lower_byte (lower_byte b) = lower_byte b"
proof (cases "65 \<le> b \<and> b \<le> 90")
  case True
  then have "90 < b + 32"
    by (simp add: word_less_nat_alt word_le_nat_alt unat_word_ariths)
  with True show ?thesis by (simp add: lower_byte_def not_le)
qed (simp add: lower_byte_def)

lemma to_ascii_lowercase_idem [simp]: "to_ascii_lowercase (to_ascii_lowercase s) = to_ascii_lowercase s"
  by (simp add: to_ascii_lowercase_def)

lemma strip_prefix_Some_iff: "strip_prefix p s = Some r \<longleftrightarrow> s = p @ r"
  by (auto simp: strip_prefix_def) (metis append_take_drop_id)

lemma split_once_SomeD: "split_once c s = Some (a, b) \<Longrightarrow> s = a @ c # b \<and> c \<notin> set a"
  by (induction s arbitrary: a) (auto split: if_splits)

lemma split_once_append: "c \<notin> set a \<Longrightarrow> split_once c (a @ c # b) = Some (a, b)"
  by (induction a) auto

lemma split_once_None_iff: "split_once c s = None \<longleftrightarrow> c \<notin> set s"
  by (induction s) auto

lemma ends_with_iff: "ends_with s t \<longleftrightarrow> (\<exists>p. s = p @ t)"
proof
  assume "ends_with s t"
  then have "s = take (length s - length t) s @ t"
    by (metis append_take_drop_id ends_with_def)
  then show "\<exists>p. s = p @ t" ..
qed (auto simp: ends_with_def)

section \<open>Numbers\<close>

definition to_digit :: "nat \<Rightarrow> byte \<Rightarrow> nat option" where
  "to_digit radix b =
    (let d = (if 48 \<le> b \<and> b \<le> 57 then Some (unat b - 48)
              else if 97 \<le> b \<and> b \<le> 122 then Some (unat b - 87)
              else if 65 \<le> b \<and> b \<le> 90 then Some (unat b - 55)
              else None)
     in case d of None \<Rightarrow> None | Some v \<Rightarrow> if v < radix then Some v else None)"

text \<open>\<open>from_str\<close> of an unsigned integer type whose largest value is \<open>maximum\<close>.\<close>

fun parse_digits :: "nat \<Rightarrow> nat \<Rightarrow> str \<Rightarrow> nat option" where
  "parse_digits maximum acc [] = Some acc"
| "parse_digits maximum acc (b # s) =
    (case to_digit 10 b of
       None \<Rightarrow> None
     | Some d \<Rightarrow> if acc * 10 + d > maximum then None else parse_digits maximum (acc * 10 + d) s)"

definition parse_unsigned :: "nat \<Rightarrow> str \<Rightarrow> nat option" where
  "parse_unsigned maximum s =
    (let ds = (case s of [] \<Rightarrow> [] | b # r \<Rightarrow> if b = 43 then r else s)
     in if ds = [] then None else parse_digits maximum 0 ds)"

lemma parse_digits_bound: "parse_digits maximum acc s = Some n \<Longrightarrow> acc \<le> maximum \<Longrightarrow> n \<le> maximum"
  by (induction maximum acc s rule: parse_digits.induct) (auto split: option.splits if_splits)

lemma parse_unsigned_bound: "parse_unsigned maximum s = Some n \<Longrightarrow> n \<le> maximum"
  by (auto simp: parse_unsigned_def Let_def split: if_splits dest: parse_digits_bound)

section \<open>Addresses\<close>

text \<open>
  A parser returns the rest of its input, or nothing and then leaves the input where it was.
  \<open>read_number\<close> takes the longest run of digits.
\<close>

fun read_digits :: "nat \<Rightarrow> nat \<Rightarrow> nat \<Rightarrow> nat \<Rightarrow> nat \<Rightarrow> str \<Rightarrow> (nat \<times> nat \<times> str) option" where
  "read_digits radix maximum max_digits acc count [] = Some (acc, count, [])"
| "read_digits radix maximum max_digits acc count (b # s) =
    (case to_digit radix b of
       None \<Rightarrow> Some (acc, count, b # s)
     | Some d \<Rightarrow>
        if acc * radix + d > maximum \<or> count + 1 > max_digits then None
        else read_digits radix maximum max_digits (acc * radix + d) (count + 1) s)"

definition read_number :: "nat \<Rightarrow> nat \<Rightarrow> nat \<Rightarrow> bool \<Rightarrow> str \<Rightarrow> (nat \<times> str) option" where
  "read_number radix maximum max_digits allow_zero_prefix s =
    (case read_digits radix maximum max_digits 0 0 s of
       None \<Rightarrow> None
     | Some (n, count, rest) \<Rightarrow>
        if count = 0 then None
        else if \<not> allow_zero_prefix \<and> take 1 s = [48] \<and> count > 1 then None
        else Some (n, rest))"

definition read_separator :: "byte \<Rightarrow> nat \<Rightarrow> (str \<Rightarrow> ('a \<times> str) option) \<Rightarrow> str \<Rightarrow> ('a \<times> str) option" where
  "read_separator sep index inner s =
    (if index = 0 then inner s
     else case s of [] \<Rightarrow> None | b # r \<Rightarrow> if b = sep then inner r else None)"

fun read_octets :: "nat \<Rightarrow> nat \<Rightarrow> str \<Rightarrow> (nat list \<times> str) option" where
  "read_octets 0 index s = Some ([], s)"
| "read_octets (Suc k) index s =
    (case read_separator 46 index (read_number 10 255 3 False) s of
       None \<Rightarrow> None
     | Some (n, rest) \<Rightarrow> map_option (apfst (Cons n)) (read_octets k (index + 1) rest))"

definition read_ipv4_addr :: "str \<Rightarrow> (bytes \<times> str) option" where
  "read_ipv4_addr s = map_option (apfst (map of_nat)) (read_octets 4 0 s)"

text \<open>
  \<open>read_groups\<close> fills at most \<open>limit\<close> groups from group \<open>i\<close> on and says whether it ended with an
  embedded IPv4 address.
\<close>

fun read_groups :: "nat \<Rightarrow> nat \<Rightarrow> nat \<Rightarrow> str \<Rightarrow> nat list \<times> bool \<times> str" where
  "read_groups 0 i limit s = ([], False, s)"
| "read_groups (Suc k) i limit s =
    (case (if i < limit - 1 then read_separator 58 i read_ipv4_addr s else None) of
       Some (v4, rest) \<Rightarrow>
        ([of_be (take 2 v4), of_be (drop 2 v4)], True, rest)
     | None \<Rightarrow>
        (case read_separator 58 i (read_number 16 65535 4 True) s of
           None \<Rightarrow> ([], False, s)
         | Some (g, rest) \<Rightarrow>
            (let (gs, ipv4, rest') = read_groups k (i + 1) limit rest in (g # gs, ipv4, rest'))))"

definition ipv6_of_groups :: "nat list \<Rightarrow> u128" where
  "ipv6_of_groups gs = of_nat (foldl (\<lambda>acc g. acc * 65536 + g) 0 gs)"

definition read_ipv6_addr :: "str \<Rightarrow> (u128 \<times> str) option" where
  "read_ipv6_addr s =
    (let (head, head_ipv4, rest) = read_groups 8 0 8 s
     in if length head = 8 then Some (ipv6_of_groups head, rest)
        else if head_ipv4 then None
        else if take 2 rest \<noteq> [58, 58] then None
        else
          (let limit = 8 - (length head + 1);
               (tail, _, rest') = read_groups limit 0 limit (drop 2 rest)
           in Some (ipv6_of_groups (head @ replicate (8 - length head - length tail) 0 @ tail), rest')))"

definition parse_ip :: "str \<Rightarrow> ip_addr option" where
  "parse_ip s =
    (case read_ipv4_addr s of
       Some (v4, rest) \<Rightarrow> if rest = [] then Some (V4 (be_u32 v4)) else None
     | None \<Rightarrow>
        (case read_ipv6_addr s of
           Some (v6, rest) \<Rightarrow> if rest = [] then Some (V6 v6) else None
         | None \<Rightarrow> None))"


lemma read_octets_unroll: "read_octets (numeral k) index s =
   (case read_separator 46 index (read_number 10 255 3 False) s of
       None \<Rightarrow> None
     | Some (n, rest) \<Rightarrow> map_option (apfst (Cons n)) (read_octets (pred_numeral k) (index + 1) rest))"
  by (simp add: numeral_eq_Suc)

lemma read_groups_unroll: "read_groups (numeral k) i limit s =
   (case (if i < limit - 1 then read_separator 58 i read_ipv4_addr s else None) of
       Some (v4, rest) \<Rightarrow> ([of_be (take 2 v4), of_be (drop 2 v4)], True, rest)
     | None \<Rightarrow>
        (case read_separator 58 i (read_number 16 65535 4 True) s of
           None \<Rightarrow> ([], False, s)
         | Some (g, rest) \<Rightarrow>
            (let (gs, ipv4, rest') = read_groups (pred_numeral k) (i + 1) limit rest in (g # gs, ipv4, rest'))))"
  by (simp add: numeral_eq_Suc)

lemma replicate_unroll: "replicate (numeral k) x = x # replicate (pred_numeral k) x"
  by (simp add: numeral_eq_Suc)

lemmas parse_ip_eval =
  parse_ip_def read_ipv4_addr_def read_octets_unroll read_separator_def read_number_def to_digit_def
  be_u32_def of_be_def read_ipv6_addr_def read_groups_unroll ipv6_of_groups_def
  replicate_unroll

lemma parse_ip_examples:
  "parse_ip (ascii ''10.0.255.1'') = Some (V4 167837441)"
  "parse_ip (ascii ''10.0.255.01'') = None"
  "parse_ip (ascii ''10.0.256.1'') = None"
  "parse_ip (ascii ''::1'') = Some (V6 1)"
  "parse_ip (ascii ''2001:db8::'') = Some (V6 0x20010db8000000000000000000000000)"
  "parse_ip (ascii ''::ffff:10.0.255.1'') = Some (V6 281470849580801)"
  "parse_ip (ascii ''1:2:3:4:5:6:7:8'') = Some (V6 0x00010002000300040005000600070008)"
  "parse_ip (ascii ''1:2:3:4:5:6:7:8:9'') = None"
  by (simp_all add: parse_ip_eval ascii_def Let_def)

end
