(* ===== verification/Route_Rules.thy ===== *)
theory Route_Rules
  imports Text_Parse Vless_Decode
begin

text \<open>
  The rules of the router (\<open>src/server/routing.rs\<close>): the matchers on domains, addresses and
  ports, their compilation from the text of the configuration, and the evaluation of one rule.

  Regular expressions, the geo data (the trait \<open>AssetMatcher\<close>) and the multi-pattern search
  automaton are code outside this component. They are the fields of \<open>route_env\<close>: a regular
  expression is its source text, \<open>regex_valid\<close> tells which compile; the automaton returns the
  matches of \<open>find_iter\<close> as pattern number, start and end.
\<close>

unbundle bit_operations_syntax

section \<open>Interfaces of the router\<close>

datatype asset_source = GeoSite | GeoIp | ExternalFile str

record route_env =
  regex_valid :: "str \<Rightarrow> bool"
  regex_is_match :: "str \<Rightarrow> str \<Rightarrow> bool"
  matches_domain :: "asset_source \<Rightarrow> str \<Rightarrow> str \<Rightarrow> bool"
  matches_ip :: "asset_source \<Rightarrow> str \<Rightarrow> ip_addr \<Rightarrow> bool"
  automaton_built :: "str list \<Rightarrow> bool"
  find_iter :: "str list \<Rightarrow> str \<Rightarrow> (nat \<times> nat \<times> nat) list"

datatype routing_compile_error = InvalidUuid | InvalidRegex | InvalidIp | InvalidPort | UnknownPolicy

text \<open>The rule of the configuration, its absent lists read as empty.\<close>

record route_rule =
  rule_name :: "str option"
  rule_domain :: "str list option"
  rule_ip :: "str list option"
  rule_port :: "str list option"
  rule_outbound :: str

definition rule_conditions :: "str list option \<Rightarrow> str list" where
  "rule_conditions c = (case c of None \<Rightarrow> [] | Some cs \<Rightarrow> cs)"

definition has_condition :: "route_rule \<Rightarrow> bool" where
  "has_condition r \<longleftrightarrow> rule_conditions (rule_domain r) \<noteq> [] \<or> rule_conditions (rule_ip r) \<noteq> []
     \<or> rule_conditions (rule_port r) \<noteq> []"

section \<open>Domains\<close>

datatype domain_matcher =
    MatchFull str | MatchSuffix str | MatchKeyword str | MatchRegex str | MatchAsset asset_source str

definition external_matcher :: "str \<Rightarrow> (str \<times> str) option" where
  "external_matcher input =
    (if length input < 4 \<or> \<not> eq_ignore_ascii_case (take 4 input) (ascii ''ext:'') then None
     else split_once 58 (drop 4 input))"

definition compile_domain :: "route_env \<Rightarrow> str \<Rightarrow> routing_compile_error + domain_matcher" where
  "compile_domain env input =
    (let lower = to_ascii_lowercase input
     in case strip_prefix (ascii ''full:'') lower of Some v \<Rightarrow> Ok (MatchFull v)
      | None \<Rightarrow> case strip_prefix (ascii ''domain:'') lower of Some v \<Rightarrow> Ok (MatchSuffix (trim_start_matches 46 v))
      | None \<Rightarrow> case strip_prefix (ascii ''keyword:'') lower of Some v \<Rightarrow> Ok (MatchKeyword v)
      | None \<Rightarrow> case strip_prefix (ascii ''regexp:'') input of
                  Some v \<Rightarrow> if regex_valid env v then Ok (MatchRegex v) else Err InvalidRegex
      | None \<Rightarrow> case strip_prefix (ascii ''geosite:'') lower of Some label \<Rightarrow> Ok (MatchAsset GeoSite label)
      | None \<Rightarrow> case external_matcher input of
                  Some (file, label) \<Rightarrow> Ok (MatchAsset (ExternalFile file) (to_ascii_lowercase label))
                | None \<Rightarrow> Ok (MatchSuffix (trim_start_matches 46 lower)))"

fun is_indexable :: "domain_matcher \<Rightarrow> bool" where
  "is_indexable (MatchFull v) = True"
| "is_indexable (MatchSuffix v) = True"
| "is_indexable (MatchKeyword v) = (v \<noteq> [])"
| "is_indexable (MatchRegex v) = False"
| "is_indexable (MatchAsset source label) = False"

text \<open>\<open>domain.as_bytes().windows(n)\<close>; \<open>windows(0)\<close> is not reached.\<close>

definition windows :: "nat \<Rightarrow> str \<Rightarrow> str list" where
  "windows n s = map (\<lambda>i. take n (drop i s)) [0..<length s + 1 - n]"

definition keyword_matches :: "str \<Rightarrow> str \<Rightarrow> bool" where
  "keyword_matches domain needle \<longleftrightarrow> needle = [] \<or> list_ex (\<lambda>w. w = needle) (windows (length needle) domain)"

definition domain_suffix_matches :: "str \<Rightarrow> str \<Rightarrow> bool" where
  "domain_suffix_matches domain suffix \<longleftrightarrow>
    domain = suffix
    \<or> length domain > length suffix \<and> ends_with domain suffix
      \<and> domain ! (length domain - length suffix - 1) = 46"

fun domain_matcher_matches :: "route_env \<Rightarrow> domain_matcher \<Rightarrow> str \<Rightarrow> bool" where
  "domain_matcher_matches env (MatchFull v) domain = (domain = v)"
| "domain_matcher_matches env (MatchSuffix v) domain = domain_suffix_matches domain v"
| "domain_matcher_matches env (MatchKeyword v) domain = keyword_matches domain v"
| "domain_matcher_matches env (MatchRegex re) domain = regex_is_match env re domain"
| "domain_matcher_matches env (MatchAsset source label) domain = matches_domain env source label domain"

section \<open>Addresses\<close>

datatype ip_network = NetV4 u32 nat | NetV6 u128 nat

datatype ip_matcher = MatchNetwork ip_network | MatchIpAsset asset_source str

definition parse_prefix :: "str option \<Rightarrow> nat \<Rightarrow> routing_compile_error + nat" where
  "parse_prefix prefix maximum =
    and_then (case prefix of None \<Rightarrow> Ok maximum | Some v \<Rightarrow> ok_or InvalidIp (parse_unsigned 255 v)) (\<lambda>p.
      if p > maximum then Err InvalidIp else Ok p)"

definition prefix_mask_u32 :: "nat \<Rightarrow> u32" where
  "prefix_mask_u32 prefix = (if prefix = 0 then 0 else push_bit (32 - prefix) (- 1))"

definition prefix_mask_u128 :: "nat \<Rightarrow> u128" where
  "prefix_mask_u128 prefix = (if prefix = 0 then 0 else push_bit (128 - prefix) (- 1))"

definition compile_network :: "str \<Rightarrow> routing_compile_error + ip_network" where
  "compile_network input =
    (let (address, prefix) = (case split_once 47 input of None \<Rightarrow> (input, None) | Some (a, p) \<Rightarrow> (a, Some p))
     in and_then (ok_or InvalidIp (parse_ip address)) (\<lambda>address.
        case address of
          V4 a \<Rightarrow> and_then (parse_prefix prefix 32) (\<lambda>p. Ok (NetV4 (a AND prefix_mask_u32 p) p))
        | V6 a \<Rightarrow> and_then (parse_prefix prefix 128) (\<lambda>p. Ok (NetV6 (a AND prefix_mask_u128 p) p))))"

fun network_contains :: "ip_network \<Rightarrow> ip_addr \<Rightarrow> bool" where
  "network_contains (NetV4 network prefix) (V4 a) = (a AND prefix_mask_u32 prefix = network)"
| "network_contains (NetV6 network prefix) (V6 a) = (a AND prefix_mask_u128 prefix = network)"
| "network_contains (NetV4 network prefix) (V6 a) = False"
| "network_contains (NetV6 network prefix) (V4 a) = False"

definition compile_ip :: "str \<Rightarrow> routing_compile_error + ip_matcher" where
  "compile_ip input =
    (let lower = to_ascii_lowercase input
     in case strip_prefix (ascii ''geoip:'') lower of Some label \<Rightarrow> Ok (MatchIpAsset GeoIp label)
      | None \<Rightarrow> case external_matcher input of
                  Some (file, label) \<Rightarrow> Ok (MatchIpAsset (ExternalFile file) (to_ascii_lowercase label))
                | None \<Rightarrow> map_sum id MatchNetwork (compile_network lower))"

fun ip_matcher_matches :: "route_env \<Rightarrow> ip_matcher \<Rightarrow> ip_addr \<Rightarrow> bool" where
  "ip_matcher_matches env (MatchNetwork network) address = network_contains network address"
| "ip_matcher_matches env (MatchIpAsset source label) address = matches_ip env source label address"

section \<open>Ports\<close>

record port_range =
  pr_start :: nat
  pr_end :: nat

definition compile_port :: "str \<Rightarrow> routing_compile_error + port_range" where
  "compile_port input =
    (let (start, finish) = (case split_once 45 input of None \<Rightarrow> (input, input) | Some (a, b) \<Rightarrow> (a, b))
     in and_then (ok_or InvalidPort (parse_unsigned 65535 start)) (\<lambda>start.
        and_then (ok_or InvalidPort (parse_unsigned 65535 finish)) (\<lambda>finish.
          if start = 0 \<or> start > finish then Err InvalidPort
          else Ok \<lparr>pr_start = start, pr_end = finish\<rparr>)))"

definition port_range_contains :: "port_range \<Rightarrow> u16 \<Rightarrow> bool" where
  "port_range_contains r port \<longleftrightarrow> pr_start r \<le> unat port \<and> unat port \<le> pr_end r"

section \<open>Rules\<close>

record compiled_rule =
  cr_name :: str
  cr_outbound :: str
  cr_domains :: "domain_matcher list"
  cr_residual_domains :: "domain_matcher list"
  cr_ips :: "ip_matcher list"
  cr_ports :: "port_range list"

text \<open>\<open>iter().map(f).collect::<Result<Vec<_>, _>>()\<close>: the first error, or all results.\<close>

fun collect_results :: "('a \<Rightarrow> 'e + 'b) \<Rightarrow> 'a list \<Rightarrow> 'e + 'b list" where
  "collect_results f [] = Ok []"
| "collect_results f (x # xs) = and_then (f x) (\<lambda>y. and_then (collect_results f xs) (\<lambda>ys. Ok (y # ys)))"

definition compile_rule :: "route_env \<Rightarrow> route_rule \<Rightarrow> str \<Rightarrow> routing_compile_error + compiled_rule" where
  "compile_rule env rule label =
    and_then (collect_results (compile_domain env) (rule_conditions (rule_domain rule))) (\<lambda>domains.
    and_then (collect_results compile_ip (rule_conditions (rule_ip rule))) (\<lambda>ips.
    and_then (collect_results compile_port (rule_conditions (rule_port rule))) (\<lambda>ports.
      Ok \<lparr>cr_name = (case rule_name rule of None \<Rightarrow> label | Some n \<Rightarrow> n),
          cr_outbound = rule_outbound rule,
          cr_domains = domains,
          cr_residual_domains = filter (\<lambda>m. \<not> is_indexable m) domains,
          cr_ips = ips,
          cr_ports = ports\<rparr>)))"

text \<open>Decimal display of an index and the label \<open>format!("{label}[{index}]")\<close>.\<close>

fun decimal :: "nat \<Rightarrow> str" where
  "decimal n = (if n < 10 then [of_nat (48 + n)] else decimal (n div 10) @ [of_nat (48 + n mod 10)])"

declare decimal.simps [simp del]

definition index_label :: "str \<Rightarrow> nat \<Rightarrow> str" where
  "index_label label i = label @ [91] @ decimal i @ [93]"

definition compile_rules :: "route_env \<Rightarrow> route_rule list \<Rightarrow> str \<Rightarrow> routing_compile_error + compiled_rule list" where
  "compile_rules env rules label =
    collect_results (\<lambda>(i, rule). compile_rule env rule (index_label label i)) (enumerate 0 rules)"

record route_context =
  rc_user_id :: bytes
  rc_inbound_tag :: str
  rc_destination :: destination
  rc_resolved_ips :: "ip_addr list"

definition normalized_domain :: "destination \<Rightarrow> str option" where
  "normalized_domain d = (case dst_address d of
     DomainName domain \<Rightarrow> Some (if list_ex (\<lambda>b. 65 \<le> b \<and> b \<le> 90) domain then to_ascii_lowercase domain else domain)
   | Ipv4 _ \<Rightarrow> None | Ipv6 _ \<Rightarrow> None)"

definition destination_ips :: "route_context \<Rightarrow> ip_addr list" where
  "destination_ips context =
    (case dst_address (rc_destination context) of
       Ipv4 a \<Rightarrow> [V4 a] | Ipv6 a \<Rightarrow> [V6 a] | DomainName _ \<Rightarrow> []) @ rc_resolved_ips context"

definition domain_group_matches :: "route_env \<Rightarrow> compiled_rule \<Rightarrow> str option \<Rightarrow> bool" where
  "domain_group_matches env rule domain =
    (cr_domains rule = []
     \<or> (case domain of None \<Rightarrow> False
         | Some d \<Rightarrow> list_ex (\<lambda>m. domain_matcher_matches env m d) (cr_domains rule)))"

definition indexed_domain_matches :: "route_env \<Rightarrow> compiled_rule \<Rightarrow> bool \<Rightarrow> str option \<Rightarrow> bool" where
  "indexed_domain_matches env rule hit domain =
    (cr_domains rule = [] \<or> hit
     \<or> (case domain of None \<Rightarrow> False
         | Some d \<Rightarrow> list_ex (\<lambda>m. domain_matcher_matches env m d) (cr_residual_domains rule)))"

definition ip_group_matches :: "route_env \<Rightarrow> compiled_rule \<Rightarrow> route_context \<Rightarrow> bool" where
  "ip_group_matches env rule context =
    (cr_ips rule = []
     \<or> list_ex (\<lambda>address. list_ex (\<lambda>m. ip_matcher_matches env m address) (cr_ips rule)) (destination_ips context))"

definition static_groups_match :: "compiled_rule \<Rightarrow> route_context \<Rightarrow> bool" where
  "static_groups_match rule context =
    (cr_ports rule = []
     \<or> list_ex (\<lambda>r. port_range_contains r (dst_port (rc_destination context))) (cr_ports rule))"

definition rule_matches :: "route_env \<Rightarrow> compiled_rule \<Rightarrow> route_context \<Rightarrow> str option \<Rightarrow> bool" where
  "rule_matches env rule context domain =
    (domain_group_matches env rule domain \<and> ip_group_matches env rule context
     \<and> static_groups_match rule context)"

definition matches_indexed :: "route_env \<Rightarrow> compiled_rule \<Rightarrow> bool \<Rightarrow> route_context \<Rightarrow> str option \<Rightarrow> bool" where
  "matches_indexed env rule hit context domain =
    (indexed_domain_matches env rule hit domain \<and> ip_group_matches env rule context
     \<and> static_groups_match rule context)"

definition matches_besides_ip :: "route_env \<Rightarrow> compiled_rule \<Rightarrow> route_context \<Rightarrow> str option \<Rightarrow> bool" where
  "matches_besides_ip env rule context domain =
    (domain_group_matches env rule domain \<and> static_groups_match rule context)"

definition matches_besides_ip_indexed ::
  "route_env \<Rightarrow> compiled_rule \<Rightarrow> bool \<Rightarrow> route_context \<Rightarrow> str option \<Rightarrow> bool"
where
  "matches_besides_ip_indexed env rule hit context domain =
    (indexed_domain_matches env rule hit domain \<and> static_groups_match rule context)"

section \<open>What the matchers mean\<close>

lemma keyword_matches_iff: "keyword_matches domain needle \<longleftrightarrow> (\<exists>p s. domain = p @ needle @ s)"
proof (cases "needle = []")
  case False
  show ?thesis
  proof
    assume "keyword_matches domain needle"
    then obtain i where "take (length needle) (drop i domain) = needle"
      using False by (auto simp: keyword_matches_def windows_def list_ex_iff) metis
    then have "domain = take i domain @ needle @ drop (length needle) (drop i domain)"
      by (metis append_take_drop_id)
    then show "\<exists>p s. domain = p @ needle @ s" by blast
  next
    assume "\<exists>p s. domain = p @ needle @ s"
    then obtain p s where "domain = p @ needle @ s" by blast
    then have "take (length needle) (drop (length p) domain) = needle" "length p < length domain + 1 - length needle"
      by simp_all
    then show "keyword_matches domain needle"
      by (auto simp: keyword_matches_def windows_def list_ex_iff intro!: image_eqI[of _ _ "length p"])
  qed
qed (auto simp: keyword_matches_def intro: exI[of _ "[]"])

lemma domain_suffix_matches_iff:
  "domain_suffix_matches domain suffix \<longleftrightarrow> domain = suffix \<or> (\<exists>p. domain = p @ 46 # suffix)"
proof -
  have "(length domain > length suffix \<and> ends_with domain suffix
      \<and> domain ! (length domain - length suffix - 1) = 46) \<longleftrightarrow> (\<exists>p. domain = p @ 46 # suffix)"
  proof
    assume a: "length domain > length suffix \<and> ends_with domain suffix
      \<and> domain ! (length domain - length suffix - 1) = 46"
    then obtain p where p: "domain = p @ suffix" by (auto simp: ends_with_iff)
    with a have "p \<noteq> []" by auto
    then have "domain ! (length domain - length suffix - 1) = last p"
      using p by (simp add: nth_append last_conv_nth)
    with a have "p = butlast p @ [46]" using \<open>p \<noteq> []\<close> by (metis append_butlast_last_id)
    then show "\<exists>p. domain = p @ 46 # suffix" using p by (metis append.assoc append_Cons append_Nil)
  next
    assume "\<exists>p. domain = p @ 46 # suffix"
    then obtain p where p: "domain = p @ 46 # suffix" ..
    have "ends_with domain suffix" unfolding ends_with_iff using p by (metis append.assoc append_Cons append_Nil)
    then show "length domain > length suffix \<and> ends_with domain suffix
      \<and> domain ! (length domain - length suffix - 1) = 46"
      using p by (simp add: nth_append)
  qed
  then show ?thesis by (simp add: domain_suffix_matches_def)
qed

text \<open>A masked address equals a masked network exactly when the leading bits agree.\<close>

lemma masked_eq_iff:
  fixes a b :: "'a::len word"
  assumes "k \<le> LENGTH('a)"
  shows "a AND push_bit k (- 1) = b AND push_bit k (- 1) \<longleftrightarrow> drop_bit k a = drop_bit k b"
proof
  assume eq: "a AND push_bit k (- 1) = b AND push_bit k (- 1)"
  show "drop_bit k a = drop_bit k b"
  proof (rule bit_word_eqI)
    fix n assume "n < LENGTH('a)"
    have "bit (a AND push_bit k (- 1)) (k + n) = bit (b AND push_bit k (- 1)) (k + n)" using eq by simp
    then show "bit (drop_bit k a) n = bit (drop_bit k b) n"
      by (auto simp: bit_drop_bit_eq bit_and_iff bit_not_iff bit_mask_iff dest: bit_imp_le_length)
  qed
next
  assume eq: "drop_bit k a = drop_bit k b"
  show "a AND push_bit k (- 1) = b AND push_bit k (- 1)"
  proof (rule bit_word_eqI)
    fix n assume n: "n < LENGTH('a)"
    have "bit (drop_bit k a) (n - k) = bit (drop_bit k b) (n - k)" using eq by simp
    then show "bit (a AND push_bit k (- 1)) n = bit (b AND push_bit k (- 1)) n"
      by (auto simp: bit_drop_bit_eq bit_and_iff bit_not_iff bit_mask_iff)
  qed
qed

lemma prefix_mask_cover:
  fixes a b :: u32 and c d :: u128
  shows "p \<le> 32 \<Longrightarrow> a AND prefix_mask_u32 p = b AND prefix_mask_u32 p \<longleftrightarrow> drop_bit (32 - p) a = drop_bit (32 - p) b"
    and "q \<le> 128 \<Longrightarrow> c AND prefix_mask_u128 q = d AND prefix_mask_u128 q \<longleftrightarrow> drop_bit (128 - q) c = drop_bit (128 - q) d"
  using masked_eq_iff[of "32 - p" a b] masked_eq_iff[of "128 - q" c d]
  by (auto simp: prefix_mask_u32_def prefix_mask_u128_def drop_bit_word_beyond)

text \<open>The networks compilation produces: a base address and at most its width of prefix.\<close>

fun network_of :: "ip_network \<Rightarrow> ip_addr \<Rightarrow> bool" where
  "network_of (NetV4 n p) (V4 b) = (p \<le> 32 \<and> n = b AND prefix_mask_u32 p)"
| "network_of (NetV6 n p) (V6 b) = (p \<le> 128 \<and> n = b AND prefix_mask_u128 p)"
| "network_of _ _ = False"

fun same_prefix :: "ip_network \<Rightarrow> ip_addr \<Rightarrow> ip_addr \<Rightarrow> bool" where
  "same_prefix (NetV4 _ p) (V4 a) (V4 b) = (drop_bit (32 - p) a = drop_bit (32 - p) b)"
| "same_prefix (NetV6 _ p) (V6 a) (V6 b) = (drop_bit (128 - p) a = drop_bit (128 - p) b)"
| "same_prefix _ _ _ = False"

lemma parse_prefix_bound: "parse_prefix prefix maximum = Ok p \<Longrightarrow> p \<le> maximum"
  by (auto simp: parse_prefix_def result_simps split: if_splits option.splits)

lemma compile_network_Ok:
  assumes "compile_network input = Ok network"
  shows "\<exists>addr base. parse_ip addr = Some base \<and> network_of network base
    \<and> (addr = input \<or> (\<exists>prefix. input = addr @ 47 # prefix))"
proof -
  obtain addr prefix where split: "(case split_once 47 input of None \<Rightarrow> (input, None) | Some (a, p) \<Rightarrow> (a, Some p)) = (addr, prefix)"
    by fastforce
  then have addr: "addr = input \<or> (\<exists>prefix. input = addr @ 47 # prefix)"
    by (auto split: option.splits dest: split_once_SomeD)
  from assms obtain base where base: "parse_ip addr = Some base"
    and net: "(case base of
          V4 a \<Rightarrow> and_then (parse_prefix prefix 32) (\<lambda>p. Ok (NetV4 (a AND prefix_mask_u32 p) p))
        | V6 a \<Rightarrow> and_then (parse_prefix prefix 128) (\<lambda>p. Ok (NetV6 (a AND prefix_mask_u128 p) p))) = Ok network"
    by (auto simp: compile_network_def split result_simps)
  have "network_of network base"
    using net by (cases base) (auto simp: result_simps dest: parse_prefix_bound)
  with base addr show ?thesis by blast
qed

lemma network_contains_iff:
  "network_of network base \<Longrightarrow> network_contains network address \<longleftrightarrow> same_prefix network address base"
  by (cases network; cases base; cases address) (simp_all add: prefix_mask_cover)

lemma compile_port_Ok:
  "compile_port input = Ok r \<Longrightarrow> 1 \<le> pr_start r \<and> pr_start r \<le> pr_end r \<and> pr_end r \<le> 65535"
  by (auto simp: compile_port_def result_simps Let_def split: if_splits prod.splits dest: parse_unsigned_bound)

lemma normalized_domain_lower:
  "normalized_domain d = (case dst_address d of DomainName n \<Rightarrow> Some (to_ascii_lowercase n) | _ \<Rightarrow> None)"
proof -
  have "\<not> list_ex (\<lambda>b. 65 \<le> b \<and> b \<le> 90) n \<Longrightarrow> to_ascii_lowercase n = n" for n
    by (induction n) (auto simp: to_ascii_lowercase_def lower_byte_def)
  then show ?thesis by (auto simp: normalized_domain_def split: address.splits)
qed

section \<open>Compiled rules\<close>

lemma collect_results_Ok:
  "collect_results f xs = Ok ys \<Longrightarrow> length ys = length xs \<and> (\<forall>i < length xs. f (xs ! i) = Ok (ys ! i))"
proof (induction xs arbitrary: ys)
  case (Cons x xs)
  then obtain y ys' where "f x = Ok y" "collect_results f xs = Ok ys'" "ys = y # ys'"
    by (auto simp: result_simps)
  with Cons.IH show ?case by (auto simp: nth_Cons split: nat.splits)
qed simp

definition rule_ok :: "compiled_rule \<Rightarrow> bool" where
  "rule_ok r \<longleftrightarrow> cr_residual_domains r = filter (\<lambda>m. \<not> is_indexable m) (cr_domains r)"

lemma compile_rule_ok: "compile_rule env rule label = Ok r \<Longrightarrow> rule_ok r"
  by (auto simp: compile_rule_def result_simps rule_ok_def)

lemma compile_rules_ok:
  assumes "compile_rules env rules label = Ok rs" and "r \<in> set rs"
  shows "rule_ok r"
proof -
  obtain i where "i < length rs" "r = rs ! i" using assms(2) by (metis in_set_conv_nth)
  then show ?thesis
    using collect_results_Ok[OF assms(1)[unfolded compile_rules_def]]
    by (auto simp: nth_enumerate_eq dest: compile_rule_ok)
qed

lemma rule_matches_besides_ip:
  "rule_matches env rule context domain \<longleftrightarrow>
   matches_besides_ip env rule context domain \<and> ip_group_matches env rule context"
  by (auto simp: rule_matches_def matches_besides_ip_def)

lemma matches_indexed_besides_ip:
  "matches_indexed env rule hit context domain \<longleftrightarrow>
   matches_besides_ip_indexed env rule hit context domain \<and> ip_group_matches env rule context"
  by (auto simp: matches_indexed_def matches_besides_ip_indexed_def)

end
