(* ===== verification/Keyword_Search.thy ===== *)
theory Keyword_Search
  imports Route_Rules
begin

text \<open>
  The contract of the multi-pattern search the candidate index relies on, and a search that
  satisfies it.
\<close>

section \<open>The automaton\<close>

text \<open>
  \<open>find_iter\<close> as the \<open>aho-corasick\<close> crate documents it: every reported match is an occurrence,
  the reported matches do not overlap and come in order, and the search gives up on an
  occurrence only in favour of a reported match that overlaps it.
\<close>

definition occurs_at :: "str \<Rightarrow> str \<Rightarrow> nat \<Rightarrow> bool" where
  "occurs_at hay needle s \<longleftrightarrow> s + length needle \<le> length hay \<and> take (length needle) (drop s hay) = needle"

lemma keyword_occurs: "keyword_matches hay needle \<longleftrightarrow> (\<exists>s. occurs_at hay needle s)"
proof
  assume "keyword_matches hay needle"
  then obtain p r where "hay = p @ needle @ r" by (auto simp: keyword_matches_iff)
  then have "occurs_at hay needle (length p)" by (simp add: occurs_at_def)
  then show "\<exists>s. occurs_at hay needle s" ..
next
  assume "\<exists>s. occurs_at hay needle s"
  then obtain s where "take (length needle) (drop s hay) = needle" by (auto simp: occurs_at_def)
  then have "hay = take s hay @ needle @ drop (length needle) (drop s hay)" by (metis append_take_drop_id)
  then show "keyword_matches hay needle" unfolding keyword_matches_iff by blast
qed

definition separate :: "str list \<Rightarrow> str \<Rightarrow> bool" where
  "separate patterns hay \<longleftrightarrow>
    (\<forall>k \<in> set patterns. \<forall>l \<in> set patterns. \<forall>s t. occurs_at hay k s \<and> occurs_at hay l t \<and> (k, s) \<noteq> (l, t)
       \<longrightarrow> s + length k \<le> t \<or> t + length l \<le> s)"

locale standard_search =
  fixes find :: "str list \<Rightarrow> str \<Rightarrow> (nat \<times> nat \<times> nat) list"
  assumes found: "(i, s, e) \<in> set (find patterns hay) \<Longrightarrow>
      i < length patterns \<and> occurs_at hay (patterns ! i) s \<and> e = s + length (patterns ! i)"
    and disjoint: "sorted_wrt (\<lambda>(_, _, e) (_, s, _). e \<le> s) (find patterns hay)"
    and exhaustive: "[] \<notin> set patterns \<Longrightarrow> i < length patterns \<Longrightarrow> occurs_at hay (patterns ! i) s \<Longrightarrow>
      \<exists>j t e. (j, t, e) \<in> set (find patterns hay) \<and> t < s + length (patterns ! i) \<and> s < e"
begin

lemma reported_disjoint:
  assumes "(i, s, e) \<in> set (find patterns hay)" and "(j, t, d) \<in> set (find patterns hay)"
  shows "(i, s, e) = (j, t, d) \<or> e \<le> t \<or> d \<le> s"
proof -
  obtain x y where x: "x < length (find patterns hay)" "find patterns hay ! x = (i, s, e)"
    and y: "y < length (find patterns hay)" "find patterns hay ! y = (j, t, d)"
    using assms by (metis in_set_conv_nth)
  show ?thesis
    using sorted_wrt_nth_less[OF disjoint, of x y patterns hay] sorted_wrt_nth_less[OF disjoint, of y x patterns hay] x y
    by (cases x y rule: linorder_cases) auto
qed

lemma reports_all:
  assumes "separate patterns hay" and "[] \<notin> set patterns" and "distinct patterns"
  shows "fst ` set (find patterns hay) = {i. i < length patterns \<and> keyword_matches hay (patterns ! i)}"
proof (intro equalityI subsetI)
  fix i assume "i \<in> fst ` set (find patterns hay)"
  then obtain s e where "(i, s, e) \<in> set (find patterns hay)" by auto
  from found[OF this] show "i \<in> {i. i < length patterns \<and> keyword_matches hay (patterns ! i)}"
    by (auto simp: keyword_occurs)
next
  fix i assume "i \<in> {i. i < length patterns \<and> keyword_matches hay (patterns ! i)}"
  then obtain s where i: "i < length patterns" and s: "occurs_at hay (patterns ! i) s"
    by (auto simp: keyword_occurs)
  obtain j t e where jt: "(j, t, e) \<in> set (find patterns hay)" "t < s + length (patterns ! i)" "s < e"
    using exhaustive[OF assms(2) i s] by blast
  then have j: "j < length patterns" "occurs_at hay (patterns ! j) t" "e = t + length (patterns ! j)"
    using found by blast+
  have "(patterns ! i, s) = (patterns ! j, t)"
  proof (rule ccontr)
    assume "(patterns ! i, s) \<noteq> (patterns ! j, t)"
    then have "s + length (patterns ! i) \<le> t \<or> t + length (patterns ! j) \<le> s"
      using assms(1) i j s unfolding separate_def by (meson nth_mem)
    then show False using jt j by auto
  qed
  then have "i = j" using assms(3) i j by (auto simp: nth_eq_iff_index_eq)
  then show "i \<in> fst ` set (find patterns hay)" using jt(1) by force
qed

lemma overlap_unreported:
  assumes "i < length patterns" and "j < length patterns" and "i \<noteq> j" and "[] \<notin> set patterns"
    and "\<And>s t. occurs_at hay (patterns ! i) s \<Longrightarrow> occurs_at hay (patterns ! j) t \<Longrightarrow>
      t < s + length (patterns ! i) \<and> s < t + length (patterns ! j)"
  shows "i \<notin> fst ` set (find patterns hay) \<or> j \<notin> fst ` set (find patterns hay)"
proof (rule ccontr)
  assume "\<not> ?thesis"
  then obtain s e t d where r: "(i, s, e) \<in> set (find patterns hay)" "(j, t, d) \<in> set (find patterns hay)"
    by auto
  then show False using reported_disjoint[OF r] found[OF r(1)] found[OF r(2)] assms(3,5) by fastforce
qed

end

section \<open>A search that satisfies the contract\<close>

text \<open>The match that ends first, then the search from its end.\<close>

definition matches_from :: "str list \<Rightarrow> str \<Rightarrow> nat \<Rightarrow> (nat \<times> nat \<times> nat) list" where
  "matches_from patterns hay pos =
    [(i, s, e). e \<leftarrow> [0..<length hay + 1], i \<leftarrow> [0..<length patterns], s \<leftarrow> [pos..<e],
       occurs_at hay (patterns ! i) s \<and> e = s + length (patterns ! i)]"

lemma matches_from_iff:
  "(i, s, e) \<in> set (matches_from patterns hay pos) \<longleftrightarrow>
   i < length patterns \<and> patterns ! i \<noteq> [] \<and> pos \<le> s \<and> occurs_at hay (patterns ! i) s
   \<and> e = s + length (patterns ! i)"
proof -
  have "occurs_at hay (patterns ! i) s \<Longrightarrow> s + length (patterns ! i) < Suc (length hay)"
    by (simp add: occurs_at_def)
  then show ?thesis by (auto simp: matches_from_def simp del: upt_Suc)
qed

lemma sorted_block: "\<forall>x \<in> set xs. f x = (e :: nat) \<Longrightarrow> sorted (map f xs)"
  by (induction xs) auto

lemma sorted_blocks:
  assumes "sorted es" and "\<And>e x. x \<in> set (block e) \<Longrightarrow> f x = (e :: nat)"
  shows "sorted (map f (concat (map block es)))"
  using assms(1) by (induction es) (auto simp: sorted_append assms(2) intro: sorted_block)

lemma matches_from_first:
  assumes "matches_from patterns hay pos = (i, s, e) # ms" and "(j, t, d) \<in> set (matches_from patterns hay pos)"
  shows "e \<le> d"
proof -
  have "sorted (map (snd \<circ> snd) (matches_from patterns hay pos))"
    unfolding matches_from_def by (rule sorted_blocks[OF sorted_upt]) auto
  with assms show ?thesis by auto
qed

definition first_match :: "str list \<Rightarrow> str \<Rightarrow> nat \<Rightarrow> (nat \<times> nat \<times> nat) option" where
  "first_match patterns hay pos = (case matches_from patterns hay pos of [] \<Rightarrow> None | m # _ \<Rightarrow> Some m)"

lemma first_matchD:
  assumes "first_match patterns hay pos = Some (i, s, e)"
  shows "i < length patterns \<and> pos \<le> s \<and> s < e \<and> e \<le> length hay \<and> occurs_at hay (patterns ! i) s
    \<and> e = s + length (patterns ! i)"
proof -
  have "(i, s, e) \<in> set (matches_from patterns hay pos)"
    using assms by (auto simp: first_match_def split: list.splits)
  then have m: "i < length patterns \<and> patterns ! i \<noteq> [] \<and> pos \<le> s \<and> occurs_at hay (patterns ! i) s
    \<and> e = s + length (patterns ! i)"
    unfolding matches_from_iff .
  then have "0 < length (patterns ! i)" by simp
  with m show ?thesis by (simp add: occurs_at_def)
qed

lemma first_match_first:
  assumes "j < length patterns" and "patterns ! j \<noteq> []" and "pos \<le> t" and "occurs_at hay (patterns ! j) t"
  shows "\<exists>i s e. first_match patterns hay pos = Some (i, s, e) \<and> e \<le> t + length (patterns ! j)"
proof -
  have mem: "(j, t, t + length (patterns ! j)) \<in> set (matches_from patterns hay pos)"
    unfolding matches_from_iff using assms by blast
  then obtain i s e ms where m: "matches_from patterns hay pos = (i, s, e) # ms"
    by (cases "matches_from patterns hay pos") auto
  show ?thesis using matches_from_first[OF m mem] m by (simp add: first_match_def)
qed

function standard_find :: "str list \<Rightarrow> str \<Rightarrow> nat \<Rightarrow> (nat \<times> nat \<times> nat) list" where
  "standard_find patterns hay pos = (case first_match patterns hay pos of
     None \<Rightarrow> [] | Some (i, s, e) \<Rightarrow> (i, s, e) # standard_find patterns hay e)"
  by pat_completeness auto
termination
proof (relation "measure (\<lambda>(patterns, hay, pos). length hay - pos)")
  fix patterns hay pos m i y s e
  assume "first_match patterns hay pos = Some m" "(i, y) = m" "(s, e) = y"
  then have "first_match patterns hay pos = Some (i, s, e)" by simp
  then have "pos < e \<and> e \<le> length hay" using first_matchD[of patterns hay pos i s e] by linarith
  then show "((patterns, hay, e), patterns, hay, pos) \<in> measure (\<lambda>(patterns, hay, pos). length hay - pos)" by auto
qed simp

declare standard_find.simps [simp del]

lemma standard_find_None: "first_match patterns hay pos = None \<Longrightarrow> standard_find patterns hay pos = []"
  by (simp add: standard_find.simps[of patterns hay pos])

lemma standard_find_Some:
  "first_match patterns hay pos = Some (i, s, e) \<Longrightarrow>
   standard_find patterns hay pos = (i, s, e) # standard_find patterns hay e"
  by (simp add: standard_find.simps[of patterns hay pos])

lemma standard_find_found:
  "(i, s, e) \<in> set (standard_find patterns hay pos) \<Longrightarrow>
   i < length patterns \<and> pos \<le> s \<and> occurs_at hay (patterns ! i) s \<and> e = s + length (patterns ! i)"
proof (induction patterns hay pos rule: standard_find.induct)
  case (1 patterns hay pos)
  show ?case
  proof (cases "first_match patterns hay pos")
    case None
    then show ?thesis using 1(2) by (simp add: standard_find_None)
  next
    case (Some m)
    then obtain j t d where m: "first_match patterns hay pos = Some (j, t, d)" by (cases m) auto
    note first = first_matchD[OF m]
    from 1(2) consider "(i, s, e) = (j, t, d)" | "(i, s, e) \<in> set (standard_find patterns hay d)"
      by (auto simp: standard_find_Some[OF m])
    then show ?thesis
    proof cases
      case 1
      then show ?thesis using first by simp
    next
      case 2
      have "i < length patterns \<and> d \<le> s \<and> occurs_at hay (patterns ! i) s \<and> e = s + length (patterns ! i)"
        by (rule 1(1)[OF m refl refl 2])
      then show ?thesis using first by simp
    qed
  qed
qed

lemma standard_find_disjoint: "sorted_wrt (\<lambda>(_, _, e) (_, s, _). e \<le> s) (standard_find patterns hay pos)"
proof (induction patterns hay pos rule: standard_find.induct)
  case (1 patterns hay pos)
  show ?case
  proof (cases "first_match patterns hay pos")
    case None
    then show ?thesis by (simp add: standard_find_None)
  next
    case (Some m)
    then obtain j t d where m: "first_match patterns hay pos = Some (j, t, d)" by (cases m) auto
    have "sorted_wrt (\<lambda>(_, _, e) (_, s, _). e \<le> s) (standard_find patterns hay d)"
      by (rule 1[OF m refl refl])
    then show ?thesis by (auto simp: standard_find_Some[OF m] dest!: standard_find_found)
  qed
qed

lemma standard_find_exhaustive:
  assumes "i < length patterns" and "patterns ! i \<noteq> []" and "occurs_at hay (patterns ! i) s" and "pos \<le> s"
  shows "\<exists>j t e. (j, t, e) \<in> set (standard_find patterns hay pos) \<and> t < s + length (patterns ! i) \<and> s < e"
  using assms
proof (induction patterns hay pos rule: standard_find.induct)
  case (1 patterns hay pos)
  obtain j t e where m: "first_match patterns hay pos = Some (j, t, e)" and first: "e \<le> s + length (patterns ! i)"
    using first_match_first[OF 1(2,3,5,4)] by blast
  have te: "t < e" using first_matchD[OF m] by blast
  show ?case
  proof (cases "s < e")
    case True
    then have "t < s + length (patterns ! i) \<and> s < e" using first te by simp
    then show ?thesis unfolding standard_find_Some[OF m] by (metis list.set_intros(1))
  next
    case False
    then have "\<exists>j t e'. (j, t, e') \<in> set (standard_find patterns hay e) \<and> t < s + length (patterns ! i) \<and> s < e'"
      using 1(2-4) by (intro 1(1)[OF m refl refl]) auto
    then show ?thesis unfolding standard_find_Some[OF m] by (metis list.set_intros(2))
  qed
qed

interpretation naive: standard_search "\<lambda>patterns hay. standard_find patterns hay 0"
proof
  show "i < length patterns \<and> occurs_at hay (patterns ! i) s \<and> e = s + length (patterns ! i)"
    if "(i, s, e) \<in> set (standard_find patterns hay 0)" for i s e patterns hay
    using standard_find_found[OF that] by simp
  show "sorted_wrt (\<lambda>(_, _, e) (_, s, _). e \<le> s) (standard_find patterns hay 0)" for patterns hay
    by (rule standard_find_disjoint)
  show "\<exists>j t e. (j, t, e) \<in> set (standard_find patterns hay 0) \<and> t < s + length (patterns ! i) \<and> s < e"
    if "[] \<notin> set patterns" "i < length patterns" "occurs_at hay (patterns ! i) s" for i patterns hay s
    using that by (intro standard_find_exhaustive) (auto dest: nth_mem)
qed

end
