(* ===== verification/Rule_Index.thy ===== *)
theory Rule_Index
  imports Keyword_Search
begin

text \<open>
  The candidate index of a long rule list (\<open>RuleIndex\<close> in \<open>src/server/routing.rs\<close>) and the
  ordered scans over it. The hash maps of the index are maps from domain text to rule
  positions; the positions are below \<open>2 ^ 32\<close> and kept as \<open>nat\<close>. \<open>sort_unstable\<close> on positions has
  one result, the sorted list.

  The automaton (\<open>Keyword_Search\<close>) reports non-overlapping matches only. When two keywords of the rule list overlap in
  a domain the index therefore misses one of them: \<open>indexed_scan_misses_overlap\<close> shows a rule
  list on which the indexed scan and the ordered scan disagree, whatever automaton is used, and
  \<open>indexed_scan_exact\<close> that they agree whenever the keywords do not overlap.
\<close>

section \<open>Building the index\<close>

definition INDEXED_RULE_LIMIT :: nat where "INDEXED_RULE_LIMIT = 64"

record rule_index =
  ri_full :: "str \<rightharpoonup> nat list"
  ri_suffix :: "str \<rightharpoonup> nat list"
  ri_keywords :: "str list option"
  ri_keyword_rules :: "nat list list"
  ri_keyword_pattern_bytes :: nat
  ri_always :: "nat list"

text \<open>The locals of the loop in \<open>build\<close>.\<close>

record index_builder =
  ib_full :: "str \<rightharpoonup> nat list"
  ib_suffix :: "str \<rightharpoonup> nat list"
  ib_patterns :: "str list"
  ib_ids :: "str \<rightharpoonup> nat"
  ib_keyword_rules :: "nat list list"
  ib_always :: "nat list"

definition new_builder :: index_builder where
  "new_builder = \<lparr>ib_full = Map.empty, ib_suffix = Map.empty, ib_patterns = [], ib_ids = Map.empty,
     ib_keyword_rules = [], ib_always = []\<rparr>"

text \<open>\<open>map.entry(key).or_default().push(position)\<close>.\<close>

definition entry_push :: "(str \<rightharpoonup> nat list) \<Rightarrow> str \<Rightarrow> nat \<Rightarrow> (str \<rightharpoonup> nat list)" where
  "entry_push m key position = m(key \<mapsto> (case m key of None \<Rightarrow> [] | Some ps \<Rightarrow> ps) @ [position])"

definition index_keyword :: "index_builder \<Rightarrow> str \<Rightarrow> nat \<Rightarrow> index_builder option" where
  "index_keyword b v position =
    (if length (ib_patterns b) \<ge> 2 ^ 32 then None
     else
       (let (pattern, b') = (case ib_ids b v of
              Some pattern \<Rightarrow> (pattern, b)
            | None \<Rightarrow> (length (ib_patterns b),
                b\<lparr>ib_ids := (ib_ids b)(v \<mapsto> length (ib_patterns b)),
                  ib_patterns := ib_patterns b @ [v],
                  ib_keyword_rules := ib_keyword_rules b @ [[]]\<rparr>))
        in Some (b'\<lparr>ib_keyword_rules := (ib_keyword_rules b')[pattern := ib_keyword_rules b' ! pattern @ [position]]\<rparr>)))"

fun index_matcher :: "nat \<Rightarrow> index_builder \<Rightarrow> domain_matcher \<Rightarrow> index_builder option" where
  "index_matcher position b (MatchFull v) = Some (b\<lparr>ib_full := entry_push (ib_full b) v position\<rparr>)"
| "index_matcher position b (MatchSuffix v) = Some (b\<lparr>ib_suffix := entry_push (ib_suffix b) v position\<rparr>)"
| "index_matcher position b (MatchKeyword v) = (if v \<noteq> [] then index_keyword b v position else Some b)"
| "index_matcher position b (MatchRegex v) = Some b"
| "index_matcher position b (MatchAsset source label) = Some b"

fun index_matchers :: "nat \<Rightarrow> index_builder \<Rightarrow> domain_matcher list \<Rightarrow> index_builder option" where
  "index_matchers position b [] = Some b"
| "index_matchers position b (m # ms) =
    (case index_matcher position b m of None \<Rightarrow> None | Some b' \<Rightarrow> index_matchers position b' ms)"

definition index_rule :: "index_builder \<Rightarrow> nat \<Rightarrow> compiled_rule \<Rightarrow> index_builder option" where
  "index_rule b position rule =
    (let indexed = list_ex is_indexable (cr_domains rule)
     in case index_matchers position b (cr_domains rule) of
          None \<Rightarrow> None
        | Some b' \<Rightarrow> Some (if \<not> indexed \<or> cr_residual_domains rule \<noteq> []
                          then b'\<lparr>ib_always := ib_always b' @ [position]\<rparr> else b'))"

fun index_rules :: "index_builder \<Rightarrow> nat \<Rightarrow> compiled_rule list \<Rightarrow> index_builder option" where
  "index_rules b position [] = Some b"
| "index_rules b position (rule # rules) =
    (case index_rule b position rule of None \<Rightarrow> None | Some b' \<Rightarrow> index_rules b' (position + 1) rules)"

definition build_index :: "route_env \<Rightarrow> compiled_rule list \<Rightarrow> rule_index option" where
  "build_index env rules =
    (if length rules < INDEXED_RULE_LIMIT \<or> length rules \<ge> 2 ^ 32 then None
     else case index_rules new_builder 0 rules of
            None \<Rightarrow> None
          | Some b \<Rightarrow>
             if ib_patterns b \<noteq> [] \<and> \<not> automaton_built env (ib_patterns b) then None
             else Some \<lparr>ri_full = ib_full b, ri_suffix = ib_suffix b,
                    ri_keywords = (if ib_patterns b = [] then None else Some (ib_patterns b)),
                    ri_keyword_rules = ib_keyword_rules b,
                    ri_keyword_pattern_bytes = sum_list (map length (ib_patterns b)),
                    ri_always = ib_always b\<rparr>)"

section \<open>Candidates\<close>

definition positions_of :: "(str \<rightharpoonup> nat list) \<Rightarrow> str \<Rightarrow> nat list" where
  "positions_of m key = (case m key of None \<Rightarrow> [] | Some ps \<Rightarrow> ps)"

text \<open>The tails \<open>&domain[index + 1..]\<close> over \<open>match_indices('.')\<close>.\<close>

fun label_tails :: "str \<Rightarrow> str list" where
  "label_tails [] = []"
| "label_tails (b # s) = (if b = 46 then s # label_tails s else label_tails s)"

definition index_hits :: "route_env \<Rightarrow> rule_index \<Rightarrow> str option \<Rightarrow> nat list" where
  "index_hits env index domain = (case domain of None \<Rightarrow> []
   | Some d \<Rightarrow>
      positions_of (ri_full index) d @ positions_of (ri_suffix index) d
      @ concat (map (positions_of (ri_suffix index)) (label_tails d))
      @ (case ri_keywords index of None \<Rightarrow> []
         | Some patterns \<Rightarrow> concat (map (\<lambda>(pattern, _, _). ri_keyword_rules index ! pattern) (find_iter env patterns d))))"

text \<open>The iterator \<open>OrderedCandidates\<close>, run to its end.\<close>

fun merge_candidates :: "nat list \<Rightarrow> nat list \<Rightarrow> (nat \<times> bool) list" where
  "merge_candidates (a # always) (h # hits) =
    (if a < h then (a, False) # merge_candidates always (h # hits)
     else if h < a then (h, True) # merge_candidates (a # always) hits
     else (a, True) # merge_candidates always hits)"
| "merge_candidates (a # always) [] = (a, False) # merge_candidates always []"
| "merge_candidates [] (h # hits) = (h, True) # merge_candidates [] hits"
| "merge_candidates [] [] = []"

definition ordered_candidates :: "route_env \<Rightarrow> rule_index \<Rightarrow> str option \<Rightarrow> (nat \<times> bool) list" where
  "ordered_candidates env index domain =
    merge_candidates (ri_always index) (remdups_adj (sort (index_hits env index domain)))"

section \<open>The scans\<close>

definition select_from_rules ::
  "route_env \<Rightarrow> compiled_rule list \<Rightarrow> rule_index option \<Rightarrow> route_context \<Rightarrow> str option \<Rightarrow> compiled_rule option"
where
  "select_from_rules env rules index context domain = (case index of
     None \<Rightarrow> find (\<lambda>rule. rule_matches env rule context domain) rules
   | Some index \<Rightarrow>
      map_option (\<lambda>(position, hit). rules ! position)
        (find (\<lambda>(position, hit). matches_indexed env (rules ! position) hit context domain)
          (ordered_candidates env index domain)))"

datatype route_scope = ScopeGlobal | ScopePolicy | ScopeDefault

text \<open>
  \<open>collect_besides_ip\<close>: the first rule without address conditions whose other conditions hold,
  and the rules before it that only miss their address conditions, appended to \<open>pending\<close>.
\<close>

fun collect_scan ::
  "('c \<Rightarrow> bool) \<Rightarrow> ('c \<Rightarrow> compiled_rule) \<Rightarrow> route_scope \<Rightarrow> 'c list \<Rightarrow> (compiled_rule \<times> route_scope) list
   \<Rightarrow> compiled_rule option \<times> (compiled_rule \<times> route_scope) list"
where
  "collect_scan holds rule_at scope [] pending = (None, pending)"
| "collect_scan holds rule_at scope (c # cs) pending =
    (if \<not> holds c then collect_scan holds rule_at scope cs pending
     else if cr_ips (rule_at c) = [] then (Some (rule_at c), pending)
     else collect_scan holds rule_at scope cs (pending @ [(rule_at c, scope)]))"

definition collect_besides_ip ::
  "route_env \<Rightarrow> compiled_rule list \<Rightarrow> rule_index option \<Rightarrow> route_context \<Rightarrow> str option \<Rightarrow> route_scope
   \<Rightarrow> (compiled_rule \<times> route_scope) list \<Rightarrow> compiled_rule option \<times> (compiled_rule \<times> route_scope) list"
where
  "collect_besides_ip env rules index context domain scope pending = (case index of
     None \<Rightarrow> collect_scan (\<lambda>rule. matches_besides_ip env rule context domain) id scope rules pending
   | Some index \<Rightarrow>
      collect_scan (\<lambda>(position, hit). matches_besides_ip_indexed env (rules ! position) hit context domain)
        (\<lambda>(position, hit). rules ! position) scope (ordered_candidates env index domain) pending)"

section \<open>What the index holds\<close>

text \<open>
  The builder after the pairs of position and matcher in \<open>S\<close>: each map lists exactly the
  positions of its matchers, and the keyword ids number the distinct patterns.
\<close>

definition listed :: "(str \<rightharpoonup> nat list) \<Rightarrow> (str \<Rightarrow> domain_matcher) \<Rightarrow> (nat \<times> domain_matcher) set \<Rightarrow> bool" where
  "listed m f S \<longleftrightarrow> (\<forall>v. set (positions_of m v) = {p. (p, f v) \<in> S})"

definition numbered :: "(str \<rightharpoonup> nat) \<Rightarrow> str list \<Rightarrow> bool" where
  "numbered ids patterns \<longleftrightarrow> (\<forall>v i. ids v = Some i \<longleftrightarrow> i < length patterns \<and> patterns ! i = v)"

definition keyword_lists :: "str list \<Rightarrow> nat list list \<Rightarrow> (nat \<times> domain_matcher) set \<Rightarrow> bool" where
  "keyword_lists patterns rules S \<longleftrightarrow> length rules = length patterns
    \<and> (\<forall>i < length patterns. set (rules ! i) = {p. (p, MatchKeyword (patterns ! i)) \<in> S})
    \<and> set patterns = {v. v \<noteq> [] \<and> (\<exists>p. (p, MatchKeyword v) \<in> S)}"

definition builder_ok :: "index_builder \<Rightarrow> (nat \<times> domain_matcher) set \<Rightarrow> bool" where
  "builder_ok b S \<longleftrightarrow> listed (ib_full b) MatchFull S \<and> listed (ib_suffix b) MatchSuffix S
    \<and> numbered (ib_ids b) (ib_patterns b) \<and> keyword_lists (ib_patterns b) (ib_keyword_rules b) S"

lemma new_builder_ok: "builder_ok new_builder {}"
  by (simp add: builder_ok_def new_builder_def positions_of_def listed_def numbered_def keyword_lists_def)

lemma positions_entry_push:
  "set (positions_of (entry_push m k p) v) = (if v = k then insert p (set (positions_of m k)) else set (positions_of m v))"
  by (auto simp: positions_of_def entry_push_def split: option.splits)

lemma lists_push: "listed m f S \<Longrightarrow> inj f \<Longrightarrow> listed (entry_push m v p) f (insert (p, f v) S)"
  by (auto simp: listed_def positions_entry_push inj_eq)

lemma lists_other: "listed m f S \<Longrightarrow> (\<And>v. q \<noteq> f v) \<Longrightarrow> listed m f (insert (p, q) S)"
  by (auto simp: listed_def)

lemma matcher_inj: "inj MatchFull" "inj MatchSuffix"
  by (auto simp: inj_def)

lemma keyword_lists_other:
  assumes "keyword_lists patterns rules S" and "\<And>v. v \<noteq> [] \<Longrightarrow> q \<noteq> MatchKeyword v"
  shows "keyword_lists patterns rules (insert (p, q) S)"
proof -
  have "i < length patterns \<Longrightarrow> patterns ! i \<noteq> []" for i
    using assms(1) nth_mem[of i patterns] unfolding keyword_lists_def by auto
  then have "i < length patterns \<Longrightarrow> q \<noteq> MatchKeyword (patterns ! i)" for i using assms(2) by blast
  then have "{r. (r, MatchKeyword (patterns ! i)) \<in> insert (p, q) S} = {r. (r, MatchKeyword (patterns ! i)) \<in> S}"
    if "i < length patterns" for i using that by blast
  moreover have "{v. v \<noteq> [] \<and> (\<exists>r. (r, MatchKeyword v) \<in> insert (p, q) S)} = {v. v \<noteq> [] \<and> (\<exists>r. (r, MatchKeyword v) \<in> S)}"
    using assms(2) by blast
  ultimately show ?thesis using assms(1) by (simp add: keyword_lists_def)
qed

lemma numbered_distinct:
  assumes "numbered ids patterns" shows "distinct patterns"
proof -
  have "i = j" if "i < length patterns" "j < length patterns" "patterns ! i = patterns ! j" for i j
  proof -
    have "ids (patterns ! i) = Some i" "ids (patterns ! j) = Some j"
      using that(1,2) by (simp_all add: assms[unfolded numbered_def, rule_format])
    then show ?thesis using that(3) by (metis option.inject)
  qed
  then show ?thesis by (auto simp: distinct_conv_nth)
qed

lemma keyword_lists_known:
  assumes k: "keyword_lists patterns rules S" and "distinct patterns" and "i < length patterns"
    and "patterns ! i = v" and "v \<noteq> []"
  shows "keyword_lists patterns (rules[i := rules ! i @ [p]]) (insert (p, MatchKeyword v) S)"
  unfolding keyword_lists_def
proof (intro conjI allI impI)
  show "length (rules[i := rules ! i @ [p]]) = length patterns" using k by (simp add: keyword_lists_def)
  show "set (rules[i := rules ! i @ [p]] ! j) = {q. (q, MatchKeyword (patterns ! j)) \<in> insert (p, MatchKeyword v) S}"
    if j: "j < length patterns" for j
  proof (cases "j = i")
    case True
    then show ?thesis using k assms(3,4) by (auto simp: keyword_lists_def)
  next
    case False
    then have "patterns ! j \<noteq> v" using assms(2-4) j by (auto simp: nth_eq_iff_index_eq)
    then show ?thesis using k False j by (auto simp: keyword_lists_def)
  qed
  have "v \<in> set patterns" using assms(3,4) by (metis nth_mem)
  then show "set patterns = {u. u \<noteq> [] \<and> (\<exists>q. (q, MatchKeyword u) \<in> insert (p, MatchKeyword v) S)}"
    using k unfolding keyword_lists_def by blast
qed

lemma keyword_lists_fresh:
  assumes k: "keyword_lists patterns rules S" and "v \<notin> set patterns" and "v \<noteq> []"
  shows "keyword_lists (patterns @ [v]) (rules @ [[p]]) (insert (p, MatchKeyword v) S)"
  unfolding keyword_lists_def
proof (intro conjI allI impI)
  have none: "(q, MatchKeyword v) \<notin> S" for q using assms unfolding keyword_lists_def by blast
  show "length (rules @ [[p]]) = length (patterns @ [v])" using k by (simp add: keyword_lists_def)
  show "set ((rules @ [[p]]) ! j) = {q. (q, MatchKeyword ((patterns @ [v]) ! j)) \<in> insert (p, MatchKeyword v) S}"
    if j: "j < length (patterns @ [v])" for j
  proof (cases "j < length patterns")
    case True
    then have "patterns ! j \<noteq> v" using assms(2) by (metis nth_mem)
    then show ?thesis using k True by (auto simp: keyword_lists_def nth_append)
  next
    case False
    then have "j = length patterns" using j by simp
    then show ?thesis using k none by (simp add: keyword_lists_def nth_append)
  qed
  show "set (patterns @ [v]) = {u. u \<noteq> [] \<and> (\<exists>q. (q, MatchKeyword u) \<in> insert (p, MatchKeyword v) S)}"
    using k assms(3) unfolding keyword_lists_def by auto
qed

lemma numbered_fresh: "numbered ids patterns \<Longrightarrow> ids v = None \<Longrightarrow> numbered (ids(v \<mapsto> length patterns)) (patterns @ [v])"
  unfolding numbered_def by (auto simp: nth_append) (metis option.distinct(1))

lemma index_keyword_ok:
  assumes b: "builder_ok b S" and "v \<noteq> []" and "index_keyword b v p = Some b'"
  shows "builder_ok b' (insert (p, MatchKeyword v) S)"
proof -
  have k: "keyword_lists (ib_patterns b) (ib_keyword_rules b) S" and n: "numbered (ib_ids b) (ib_patterns b)"
    using b by (simp_all add: builder_ok_def)
  have maps: "listed (ib_full b) MatchFull (insert (p, MatchKeyword v) S)"
    "listed (ib_suffix b) MatchSuffix (insert (p, MatchKeyword v) S)"
    using b by (auto simp: builder_ok_def intro: lists_other)
  show ?thesis
  proof (cases "ib_ids b v")
    case None
    have len: "length (ib_keyword_rules b) = length (ib_patterns b)" using k by (simp add: keyword_lists_def)
    have b': "b' = b\<lparr>ib_ids := (ib_ids b)(v \<mapsto> length (ib_patterns b)), ib_patterns := ib_patterns b @ [v],
        ib_keyword_rules := ib_keyword_rules b @ [[p]]\<rparr>"
      using assms(3) None len
        nth_append_length[of "ib_keyword_rules b" "[]" "[]"]
      by (auto simp: index_keyword_def Let_def list_update_append simp del: nth_append_length split: if_splits)
    have "v \<notin> set (ib_patterns b)" using n None unfolding numbered_def by (metis in_set_conv_nth option.distinct(1))
    then show ?thesis
      using maps keyword_lists_fresh[OF k _ assms(2)] numbered_fresh[OF n None] by (simp add: b' builder_ok_def)
  next
    case (Some i)
    have b': "b' = b\<lparr>ib_keyword_rules := (ib_keyword_rules b)[i := ib_keyword_rules b ! i @ [p]]\<rparr>"
      using assms(3) Some by (auto simp: index_keyword_def Let_def split: if_splits)
    have "i < length (ib_patterns b)" "ib_patterns b ! i = v" using n Some by (auto simp: numbered_def)
    then show ?thesis
      using maps keyword_lists_known[OF k numbered_distinct[OF n] _ _ assms(2)] n by (simp add: b' builder_ok_def)
  qed
qed

lemma index_matcher_ok:
  assumes "builder_ok b S" and "index_matcher p b m = Some b'"
  shows "builder_ok b' (insert (p, m) S)"
proof (cases "\<exists>v. m = MatchKeyword v \<and> v \<noteq> []")
  case True
  then show ?thesis using assms index_keyword_ok by auto
next
  case False
  have b: "listed (ib_full b) MatchFull S" "listed (ib_suffix b) MatchSuffix S"
    "numbered (ib_ids b) (ib_patterns b)" "keyword_lists (ib_patterns b) (ib_keyword_rules b) S"
    using assms(1) by (simp_all add: builder_ok_def)
  have kw: "keyword_lists (ib_patterns b) (ib_keyword_rules b) (insert (p, m) S)"
    using False b(4) by (intro keyword_lists_other) auto
  have full: "listed (ib_full b) MatchFull (insert (p, m) S)" if "\<And>v. m \<noteq> MatchFull v"
    using lists_other[OF b(1)] that by blast
  have suffix: "listed (ib_suffix b) MatchSuffix (insert (p, m) S)" if "\<And>v. m \<noteq> MatchSuffix v"
    using lists_other[OF b(2)] that by blast
  show ?thesis
  proof (cases m)
    case (MatchFull v)
    then show ?thesis
      using assms(2) b(3) kw suffix lists_push[OF b(1) matcher_inj(1)] by (auto simp: builder_ok_def)
  next
    case (MatchSuffix v)
    then show ?thesis
      using assms(2) b(3) kw full lists_push[OF b(2) matcher_inj(2)] by (auto simp: builder_ok_def)
  qed (use assms(2) b(3) kw full suffix False in \<open>simp_all add: builder_ok_def\<close>)
qed

lemma index_matchers_ok:
  "builder_ok b S \<Longrightarrow> index_matchers p b ms = Some b' \<Longrightarrow> builder_ok b' (Pair p ` set ms \<union> S)"
proof (induction ms arbitrary: b S)
  case (Cons m ms)
  then obtain c where c: "index_matcher p b m = Some c" "index_matchers p c ms = Some b'"
    by (auto split: option.splits)
  show ?case using Cons.IH[OF index_matcher_ok[OF Cons.prems(1) c(1)] c(2)] by simp
qed simp

lemma index_matcher_always: "index_matcher p b m = Some b' \<Longrightarrow> ib_always b' = ib_always b"
  by (cases m) (auto simp: index_keyword_def Let_def split: if_splits option.splits)

lemma index_matchers_always: "index_matchers p b ms = Some b' \<Longrightarrow> ib_always b' = ib_always b"
  by (induction ms arbitrary: b) (auto dest: index_matcher_always split: option.splits)

text \<open>A rule that is evaluated on every request.\<close>

definition needs_always :: "compiled_rule \<Rightarrow> bool" where
  "needs_always rule \<longleftrightarrow> \<not> list_ex is_indexable (cr_domains rule) \<or> cr_residual_domains rule \<noteq> []"

definition indexed_pairs :: "nat \<Rightarrow> compiled_rule list \<Rightarrow> (nat \<times> domain_matcher) set" where
  "indexed_pairs from rules = {(from + i, m) | i m. i < length rules \<and> m \<in> set (cr_domains (rules ! i))}"

lemma indexed_pairs_Cons:
  "indexed_pairs from (rule # rules) = Pair from ` set (cr_domains rule) \<union> indexed_pairs (Suc from) rules"
proof -
  have "(p, m) \<in> indexed_pairs from (rule # rules) \<longleftrightarrow>
      (p, m) \<in> Pair from ` set (cr_domains rule) \<union> indexed_pairs (Suc from) rules" for p m
    by (auto simp: indexed_pairs_def less_Suc_eq_0_disj)
  then show ?thesis by auto
qed

lemma index_rules_ok:
  "builder_ok b S \<Longrightarrow> index_rules b from rules = Some b' \<Longrightarrow>
   builder_ok b' (indexed_pairs from rules \<union> S)
   \<and> ib_always b' = ib_always b @ map ((+) from) (filter (\<lambda>i. needs_always (rules ! i)) [0..<length rules])"
proof (induction rules arbitrary: b S "from")
  case Nil
  then show ?case by (simp add: indexed_pairs_def)
next
  case (Cons rule rules)
  then obtain c d where c: "index_matchers from b (cr_domains rule) = Some c"
    and d: "d = (if needs_always rule then c\<lparr>ib_always := ib_always c @ [from]\<rparr> else c)"
    and rest: "index_rules d (Suc from) rules = Some b'"
    by (auto simp: index_rule_def needs_always_def Let_def split: option.splits)
  have "builder_ok d (Pair from ` set (cr_domains rule) \<union> S)"
    using index_matchers_ok[OF Cons.prems(1) c] d by (simp add: builder_ok_def)
  note IH = Cons.IH[OF this rest]
  have "ib_always d = ib_always b @ (if needs_always rule then [from] else [])"
    using d index_matchers_always[OF c] by simp
  moreover have "[0..<length (rule # rules)] = 0 # map Suc [0..<length rules]"
    by (simp add: map_Suc_upt upt_conv_Cons del: upt_Suc)
  ultimately show ?case
    using IH by (auto simp: indexed_pairs_Cons filter_map comp_def Un_assoc Un_left_commute del: upt_Suc)
qed

lemma label_tails_iff: "t \<in> set (label_tails d) \<longleftrightarrow> (\<exists>q. d = q @ 46 # t)"
proof (induction d)
  case (Cons b d)
  have "(\<exists>q. b # d = q @ 46 # t) \<longleftrightarrow> b = 46 \<and> d = t \<or> (\<exists>q. d = q @ 46 # t)"
    by (auto simp: Cons_eq_append_conv)
  then show ?case using Cons by auto
qed simp

text \<open>The positions with an indexed matcher that holds of the domain.\<close>

definition indexed_matches :: "route_env \<Rightarrow> compiled_rule list \<Rightarrow> str option \<Rightarrow> nat \<Rightarrow> bool" where
  "indexed_matches env rules domain p \<longleftrightarrow> p < length rules
    \<and> (\<exists>m d. domain = Some d \<and> m \<in> set (cr_domains (rules ! p)) \<and> is_indexable m \<and> domain_matcher_matches env m d)"

definition rule_keywords :: "compiled_rule list \<Rightarrow> str list" where
  "rule_keywords rules = [k. rule \<leftarrow> rules, MatchKeyword k \<leftarrow> cr_domains rule, k \<noteq> []]"

lemma rule_keywords_iff:
  "v \<in> set (rule_keywords rules) \<longleftrightarrow> v \<noteq> [] \<and> (\<exists>p. (p, MatchKeyword v) \<in> indexed_pairs 0 rules)"
proof -
  have "v \<in> set (rule_keywords rules) \<longleftrightarrow> v \<noteq> [] \<and> (\<exists>rule \<in> set rules. MatchKeyword v \<in> set (cr_domains rule))"
    by (force simp: rule_keywords_def split: domain_matcher.splits)
  also have "\<dots> \<longleftrightarrow> v \<noteq> [] \<and> (\<exists>p. (p, MatchKeyword v) \<in> indexed_pairs 0 rules)"
    by (auto simp: indexed_pairs_def) (metis in_set_conv_nth nth_mem)+
  finally show ?thesis .
qed

lemma build_index_SomeE:
  assumes "build_index env rules = Some index"
  obtains b where "builder_ok b (indexed_pairs 0 rules)"
    and "ri_full index = ib_full b" and "ri_suffix index = ib_suffix b"
    and "ri_keywords index = (if ib_patterns b = [] then None else Some (ib_patterns b))"
    and "ri_keyword_rules index = ib_keyword_rules b"
    and "ri_always index = filter (\<lambda>i. needs_always (rules ! i)) [0..<length rules]"
proof -
  obtain b where b: "index_rules new_builder 0 rules = Some b"
    and index: "index = \<lparr>ri_full = ib_full b, ri_suffix = ib_suffix b,
        ri_keywords = (if ib_patterns b = [] then None else Some (ib_patterns b)),
        ri_keyword_rules = ib_keyword_rules b,
        ri_keyword_pattern_bytes = sum_list (map length (ib_patterns b)), ri_always = ib_always b\<rparr>"
    using assms by (auto simp: build_index_def split: if_splits option.splits)
  have "builder_ok b (indexed_pairs 0 rules)" "ib_always b = filter (\<lambda>i. needs_always (rules ! i)) [0..<length rules]"
    using index_rules_ok[OF new_builder_ok b] by (auto simp: new_builder_def map_idI)
  with index show ?thesis by (intro that[of b]) simp_all
qed

lemma keyword_hits:
  assumes "builder_ok b (indexed_pairs 0 rules)" and "\<And>x. x \<in> set ms \<Longrightarrow> fst x < length (ib_patterns b)"
  shows "set (concat (map (\<lambda>(pattern, _, _). ib_keyword_rules b ! pattern) ms))
    = {p. \<exists>i \<in> fst ` set ms. (p, MatchKeyword (ib_patterns b ! i)) \<in> indexed_pairs 0 rules}"
proof -
  have "set (ib_keyword_rules b ! i) = {p. (p, MatchKeyword (ib_patterns b ! i)) \<in> indexed_pairs 0 rules}"
    if "i < length (ib_patterns b)" for i
    using assms(1) that by (simp add: builder_ok_def keyword_lists_def)
  then have "set (ib_keyword_rules b ! fst x) = {p. (p, MatchKeyword (ib_patterns b ! fst x)) \<in> indexed_pairs 0 rules}"
    if "x \<in> set ms" for x using assms(2) that by blast
  moreover have "set (concat (map (\<lambda>(pattern, _, _). ib_keyword_rules b ! pattern) ms))
    = (\<Union>x \<in> set ms. set (ib_keyword_rules b ! fst x))"
    by (auto simp: case_prod_beta)
  ultimately show ?thesis by simp blast
qed

lemma index_hits_set:
  assumes b: "builder_ok b (indexed_pairs 0 rules)"
    and "ri_full index = ib_full b" and "ri_suffix index = ib_suffix b"
    and kw: "ri_keywords index = (if ib_patterns b = [] then None else Some (ib_patterns b))"
    and "ri_keyword_rules index = ib_keyword_rules b"
    and ids: "\<And>x. x \<in> set (find_iter env (ib_patterns b) d) \<Longrightarrow> fst x < length (ib_patterns b)"
  shows "set (index_hits env index (Some d)) =
     {p. (p, MatchFull d) \<in> indexed_pairs 0 rules}
     \<union> {p. \<exists>v. (p, MatchSuffix v) \<in> indexed_pairs 0 rules \<and> domain_suffix_matches d v}
     \<union> {p. \<exists>i \<in> fst ` set (find_iter env (ib_patterns b) d). (p, MatchKeyword (ib_patterns b ! i)) \<in> indexed_pairs 0 rules}"
proof -
  have full: "set (positions_of (ri_full index) d) = {p. (p, MatchFull d) \<in> indexed_pairs 0 rules}"
    and suffix: "\<And>v. set (positions_of (ri_suffix index) v) = {p. (p, MatchSuffix v) \<in> indexed_pairs 0 rules}"
    using b assms(2,3) by (simp_all add: builder_ok_def listed_def)
  have tails: "set (positions_of (ri_suffix index) d) \<union> set (concat (map (positions_of (ri_suffix index)) (label_tails d)))
      = {p. \<exists>v. (p, MatchSuffix v) \<in> indexed_pairs 0 rules \<and> domain_suffix_matches d v}"
    by (auto simp: suffix domain_suffix_matches_iff label_tails_iff)
  have keys: "set (case ri_keywords index of None \<Rightarrow> []
      | Some patterns \<Rightarrow> concat (map (\<lambda>(pattern, _, _). ri_keyword_rules index ! pattern) (find_iter env patterns d)))
      = {p. \<exists>i \<in> fst ` set (find_iter env (ib_patterns b) d). (p, MatchKeyword (ib_patterns b ! i)) \<in> indexed_pairs 0 rules}"
  proof (cases "ib_patterns b = []")
    case True
    then have "set (find_iter env (ib_patterns b) d) = {}" using ids by fastforce
    then show ?thesis using True kw by simp
  next
    case False
    then show ?thesis using kw assms(5) keyword_hits[OF b ids] by simp
  qed
  have "set (index_hits env index (Some d)) =
     set (positions_of (ri_full index) d)
     \<union> (set (positions_of (ri_suffix index) d) \<union> set (concat (map (positions_of (ri_suffix index)) (label_tails d))))
     \<union> set (case ri_keywords index of None \<Rightarrow> []
      | Some patterns \<Rightarrow> concat (map (\<lambda>(pattern, _, _). ri_keyword_rules index ! pattern) (find_iter env patterns d)))"
    by (simp add: index_hits_def Un_assoc)
  then show ?thesis unfolding full tails keys .
qed

lemma indexed_pairs_0: "(p, m) \<in> indexed_pairs 0 rules \<longleftrightarrow> p < length rules \<and> m \<in> set (cr_domains (rules ! p))"
  by (auto simp: indexed_pairs_def)

lemma index_hits_None: "index_hits env index None = []"
  by (simp add: index_hits_def)

lemma index_hits_sound:
  assumes "build_index env rules = Some index" and "standard_search (find_iter env)"
    and "p \<in> set (index_hits env index domain)"
  shows "indexed_matches env rules domain p"
proof (cases domain)
  case None
  then show ?thesis using assms(3) by (simp add: index_hits_None)
next
  case (Some d)
  obtain b where b: "builder_ok b (indexed_pairs 0 rules)" "ri_full index = ib_full b" "ri_suffix index = ib_suffix b"
    "ri_keywords index = (if ib_patterns b = [] then None else Some (ib_patterns b))"
    "ri_keyword_rules index = ib_keyword_rules b"
    using assms(1) by (rule build_index_SomeE)
  have found: "i < length (ib_patterns b) \<and> keyword_matches d (ib_patterns b ! i)"
    if i: "i \<in> fst ` set (find_iter env (ib_patterns b) d)" for i
  proof -
    obtain s e where "(i, s, e) \<in> set (find_iter env (ib_patterns b) d)" using i by auto
    from standard_search.found[OF assms(2) this] show ?thesis by (auto simp: keyword_occurs)
  qed
  have nonempty: "ib_patterns b ! i \<noteq> []" if "i < length (ib_patterns b)" for i
    using b(1) nth_mem[OF that] unfolding builder_ok_def keyword_lists_def by blast
  have hits: "set (index_hits env index (Some d)) =
     {p. (p, MatchFull d) \<in> indexed_pairs 0 rules}
     \<union> {p. \<exists>v. (p, MatchSuffix v) \<in> indexed_pairs 0 rules \<and> domain_suffix_matches d v}
     \<union> {p. \<exists>i \<in> fst ` set (find_iter env (ib_patterns b) d). (p, MatchKeyword (ib_patterns b ! i)) \<in> indexed_pairs 0 rules}"
    by (rule index_hits_set[OF b]) (use found in \<open>blast intro: imageI\<close>)
  have "p \<in> set (index_hits env index (Some d))" using assms(3) Some by simp
  then consider "(p, MatchFull d) \<in> indexed_pairs 0 rules"
    | v where "(p, MatchSuffix v) \<in> indexed_pairs 0 rules" "domain_suffix_matches d v"
    | i where "i \<in> fst ` set (find_iter env (ib_patterns b) d)" "(p, MatchKeyword (ib_patterns b ! i)) \<in> indexed_pairs 0 rules"
    unfolding hits by blast
  then have "\<exists>m. (p, m) \<in> indexed_pairs 0 rules \<and> is_indexable m \<and> domain_matcher_matches env m d"
  proof cases
    case 1
    then show ?thesis by (intro exI[of _ "MatchFull d"]) simp
  next
    case (2 v)
    then show ?thesis by (intro exI[of _ "MatchSuffix v"]) simp
  next
    case (3 i)
    then show ?thesis using found nonempty by (intro exI[of _ "MatchKeyword (ib_patterns b ! i)"]) simp
  qed
  then show ?thesis using Some by (auto simp: indexed_matches_def indexed_pairs_0)
qed

lemma index_hits_complete:
  assumes "build_index env rules = Some index" and "standard_search (find_iter env)"
    and sep: "\<And>d. domain = Some d \<Longrightarrow> separate (rule_keywords rules) d"
    and "indexed_matches env rules domain p"
  shows "p \<in> set (index_hits env index domain)"
proof -
  obtain d m where d: "domain = Some d" and m: "(p, m) \<in> indexed_pairs 0 rules" "is_indexable m" "domain_matcher_matches env m d"
    using assms(4) by (auto simp: indexed_matches_def indexed_pairs_0)
  obtain b where b: "builder_ok b (indexed_pairs 0 rules)" "ri_full index = ib_full b" "ri_suffix index = ib_suffix b"
    "ri_keywords index = (if ib_patterns b = [] then None else Some (ib_patterns b))"
    "ri_keyword_rules index = ib_keyword_rules b"
    using assms(1) by (rule build_index_SomeE)
  have pats: "set (ib_patterns b) = set (rule_keywords rules)"
    using b(1) unfolding builder_ok_def keyword_lists_def by (auto simp: rule_keywords_iff)
  have "separate (ib_patterns b) d" "[] \<notin> set (ib_patterns b)" "distinct (ib_patterns b)"
    using sep[OF d] pats numbered_distinct[of "ib_ids b" "ib_patterns b"] b(1)
    by (simp_all add: separate_def rule_keywords_iff builder_ok_def)
  from standard_search.reports_all[OF assms(2) this]
  have reports: "fst ` set (find_iter env (ib_patterns b) d) = {i. i < length (ib_patterns b) \<and> keyword_matches d (ib_patterns b ! i)}" .
  have hits: "set (index_hits env index (Some d)) =
     {p. (p, MatchFull d) \<in> indexed_pairs 0 rules}
     \<union> {p. \<exists>v. (p, MatchSuffix v) \<in> indexed_pairs 0 rules \<and> domain_suffix_matches d v}
     \<union> {p. \<exists>i \<in> fst ` set (find_iter env (ib_patterns b) d). (p, MatchKeyword (ib_patterns b ! i)) \<in> indexed_pairs 0 rules}"
    by (rule index_hits_set[OF b]) (use reports in \<open>blast intro: imageI\<close>)
  show ?thesis
  proof (cases m)
    case (MatchKeyword v)
    then have v: "keyword_matches d v" "v \<noteq> []" using m by simp_all
    then have "v \<in> set (ib_patterns b)" using m(1) MatchKeyword pats by (auto simp: rule_keywords_iff)
    then obtain i where "i < length (ib_patterns b)" "ib_patterns b ! i = v" by (metis in_set_conv_nth)
    then have "i \<in> fst ` set (find_iter env (ib_patterns b) d)" "(p, MatchKeyword (ib_patterns b ! i)) \<in> indexed_pairs 0 rules"
      using reports v m(1) MatchKeyword by simp_all
    then show ?thesis unfolding d hits by blast
  next
    case (MatchFull v)
    then have "(p, MatchFull d) \<in> indexed_pairs 0 rules" using m by simp
    then show ?thesis unfolding d hits by blast
  next
    case (MatchSuffix v)
    then have "(p, MatchSuffix v) \<in> indexed_pairs 0 rules" "domain_suffix_matches d v" using m by simp_all
    then show ?thesis unfolding d hits by blast
  qed (use m(2) in simp_all)
qed

section \<open>The scan over candidates is the ordered scan\<close>

lemma merge_candidates_fst: "fst ` set (merge_candidates as hs) = set as \<union> set hs"
  by (induction as hs rule: merge_candidates.induct) auto

lemma hit_Cons:
  assumes "\<forall>(p, hit) \<in> set cs. hit \<longleftrightarrow> p \<in> set hs" and "h \<notin> fst ` set cs"
  shows "\<forall>(p, hit) \<in> set ((h, True) # cs). hit \<longleftrightarrow> p \<in> set (h # hs)"
proof (clarify)
  fix p hit
  assume "(p, hit) \<in> set ((h, True) # cs)"
  then consider "p = h \<and> hit" | "(p, hit) \<in> set cs \<and> p \<noteq> h"
    using assms(2) by (metis Pair_inject fst_conv image_eqI set_ConsD)
  then show "hit \<longleftrightarrow> p \<in> set (h # hs)" using assms(1) by cases auto
qed

lemma merge_candidates_hit:
  assumes "sorted_wrt (<) as" and "sorted_wrt (<) hs"
  shows "\<forall>(p, hit) \<in> set (merge_candidates as hs). hit \<longleftrightarrow> p \<in> set hs"
  using assms
proof (induction as hs rule: merge_candidates.induct)
  case (1 a as h hs)
  have sorted: "sorted_wrt (<) as" "sorted_wrt (<) hs" "\<forall>x \<in> set as. a < x" "\<forall>x \<in> set hs. h < x"
    using 1(4,5) by simp_all
  consider "a < h" | "h < a" | "a = h" by linarith
  then show ?case
  proof cases
    case less: 1
    then have "a \<notin> set (h # hs)" using sorted(4) by auto
    then show ?thesis using 1(1)[OF less sorted(1) 1(5)] less by simp
  next
    case less: 2
    then have "h \<notin> fst ` set (merge_candidates (a # as) hs)"
      unfolding merge_candidates_fst using sorted(3,4) by auto
    then show ?thesis using hit_Cons[OF 1(2)[OF _ less 1(4) sorted(2)]] less by simp
  next
    case 3
    then have "h \<notin> fst ` set (merge_candidates as hs)"
      unfolding merge_candidates_fst using sorted(3,4) by auto
    then show ?thesis using hit_Cons[OF 1(3)[OF _ _ sorted(1,2)]] 3 by simp
  qed
next
  case (3 h hs)
  then have "h \<notin> fst ` set (merge_candidates [] hs)" unfolding merge_candidates_fst by auto
  then show ?case using hit_Cons[OF 3(1)] 3(2,3) by simp
qed auto

lemma merge_candidates_sorted:
  assumes "sorted_wrt (<) as" and "sorted_wrt (<) hs"
  shows "sorted_wrt (<) (map fst (merge_candidates as hs))"
  using assms
proof (induction as hs rule: merge_candidates.induct)
  case (1 a as h hs)
  have sorted: "sorted_wrt (<) as" "sorted_wrt (<) hs" "\<forall>x \<in> set as. a < x" "\<forall>x \<in> set hs. h < x"
    using 1(4,5) by simp_all
  consider "a < h" | "h < a" | "a = h" by linarith
  then show ?case
  proof cases
    case less: 1
    then have "\<forall>p \<in> fst ` set (merge_candidates as (h # hs)). a < p"
      unfolding merge_candidates_fst using sorted(3,4) by auto
    then show ?thesis using 1(1)[OF less sorted(1) 1(5)] less by simp
  next
    case less: 2
    then have "\<forall>p \<in> fst ` set (merge_candidates (a # as) hs). h < p"
      unfolding merge_candidates_fst using sorted(3,4) by auto
    then show ?thesis using 1(2)[OF _ less 1(4) sorted(2)] less by simp
  next
    case 3
    then have "\<forall>p \<in> fst ` set (merge_candidates as hs). a < p"
      unfolding merge_candidates_fst using sorted(3,4) by auto
    then show ?thesis using 1(3)[OF _ _ sorted(1,2)] 3 by simp
  qed
next
  case (2 a as)
  then have "\<forall>p \<in> fst ` set (merge_candidates as []). a < p" unfolding merge_candidates_fst by auto
  then show ?case using 2 by simp
next
  case (3 h hs)
  then have "\<forall>p \<in> fst ` set (merge_candidates [] hs). h < p" unfolding merge_candidates_fst by auto
  then show ?case using 3 by simp
qed simp

lemma sorted_remdups_adj_strict: "sorted_wrt (<) (remdups_adj (sort (xs :: nat list)))"
proof -
  have "distinct (remdups_adj ys)" if "sorted ys" for ys :: "nat list"
    using that by (induction ys rule: remdups_adj.induct) (auto simp: remdups_adj_set less_le)
  then show ?thesis by (simp add: strict_sorted_iff)
qed

lemma strict_list_filter:
  assumes "sorted_wrt (<) (xs :: nat list)" and "\<And>x. x \<in> set xs \<Longrightarrow> x < n"
  shows "xs = filter (\<lambda>p. p \<in> set xs) [0..<n]"
proof (rule sorted_distinct_set_unique)
  show "sorted xs" "distinct xs" using assms(1) by (simp_all add: strict_sorted_iff)
  show "set xs = set (filter (\<lambda>p. p \<in> set xs) [0..<n])" using assms(2) by auto
qed (simp_all add: sorted_wrt_filter)

text \<open>
  The rules a scan over candidates keeps, when each candidate is judged as its rule is and no
  other rule matches.
\<close>

lemma candidate_rules:
  assumes strict: "sorted_wrt (<) (map fst cs)" and bound: "\<And>c. c \<in> set cs \<Longrightarrow> fst c < length rules"
    and judged: "\<And>p hit. (p, hit) \<in> set cs \<Longrightarrow> keep p hit \<longleftrightarrow> P (rules ! p)"
    and skipped: "\<And>p. p < length rules \<Longrightarrow> p \<notin> fst ` set cs \<Longrightarrow> \<not> P (rules ! p)"
  shows "map (\<lambda>(p, hit). rules ! p) (filter (\<lambda>(p, hit). keep p hit) cs) = filter P rules"
proof -
  have "filter (\<lambda>(p, hit). keep p hit) cs = filter (\<lambda>c. P (rules ! fst c)) cs"
    by (rule filter_cong) (auto simp: judged)
  then have "map (\<lambda>(p, hit). rules ! p) (filter (\<lambda>(p, hit). keep p hit) cs)
      = map ((!) rules) (filter (\<lambda>p. P (rules ! p)) (map fst cs))"
    by (simp add: filter_map comp_def case_prod_beta)
  also have "map fst cs = filter (\<lambda>p. p \<in> set (map fst cs)) [0..<length rules]"
    by (rule strict_list_filter[OF strict]) (use bound in auto)
  also have "filter (\<lambda>p. P (rules ! p)) (filter (\<lambda>p. p \<in> set (map fst cs)) [0..<length rules])
      = filter (\<lambda>p. P (rules ! p)) [0..<length rules]"
    unfolding filter_filter by (rule filter_cong) (use skipped in auto)
  also have "map ((!) rules) (filter (\<lambda>p. P (rules ! p)) [0..<length rules]) = filter P (map ((!) rules) [0..<length rules])"
    by (simp add: filter_map comp_def)
  finally show ?thesis by (simp add: map_nth)
qed

lemma find_filter: "find P xs = (case filter P xs of [] \<Rightarrow> None | x # _ \<Rightarrow> Some x)"
  by (induction xs) auto

lemma collect_scan_filter:
  "collect_scan holds rule_at scope cs pending
   = collect_scan (\<lambda>_. True) id scope (map rule_at (filter holds cs)) pending"
  by (induction cs arbitrary: pending) auto

lemma ordered_candidates_sorted:
  assumes "build_index env rules = Some index"
  shows "sorted_wrt (<) (map fst (ordered_candidates env index domain))"
  unfolding ordered_candidates_def
proof (rule merge_candidates_sorted)
  show "sorted_wrt (<) (ri_always index)"
    using assms by (rule build_index_SomeE) (simp add: sorted_wrt_filter)
qed (rule sorted_remdups_adj_strict)

lemma ordered_candidates_iff:
  assumes "build_index env rules = Some index"
  shows "p \<in> fst ` set (ordered_candidates env index domain) \<longleftrightarrow>
      p < length rules \<and> needs_always (rules ! p) \<or> p \<in> set (index_hits env index domain)"
    and "(p, hit) \<in> set (ordered_candidates env index domain) \<Longrightarrow> hit \<longleftrightarrow> p \<in> set (index_hits env index domain)"
proof -
  have always: "ri_always index = filter (\<lambda>i. needs_always (rules ! i)) [0..<length rules]"
    using assms by (rule build_index_SomeE)
  show "p \<in> fst ` set (ordered_candidates env index domain) \<longleftrightarrow>
      p < length rules \<and> needs_always (rules ! p) \<or> p \<in> set (index_hits env index domain)"
    unfolding ordered_candidates_def merge_candidates_fst by (auto simp: always)
  show "hit \<longleftrightarrow> p \<in> set (index_hits env index domain)" if "(p, hit) \<in> set (ordered_candidates env index domain)"
    using merge_candidates_hit[of "ri_always index" "remdups_adj (sort (index_hits env index domain))"] that
    by (auto simp: ordered_candidates_def always sorted_wrt_filter sorted_remdups_adj_strict)
qed

lemma domain_group_split:
  assumes "rule_ok rule"
  shows "domain_group_matches env rule domain \<longleftrightarrow>
    indexed_domain_matches env rule (\<exists>m d. domain = Some d \<and> m \<in> set (cr_domains rule) \<and> is_indexable m
      \<and> domain_matcher_matches env m d) domain"
  using assms by (auto simp: domain_group_matches_def indexed_domain_matches_def rule_ok_def list_ex_iff split: option.splits)

text \<open>Both facts below hold for every condition \<open>Q\<close> besides the domain group.\<close>

lemma candidates_keep:
  assumes build: "build_index env rules = Some index" and search: "standard_search (find_iter env)"
    and rules: "\<And>r. r \<in> set rules \<Longrightarrow> rule_ok r"
    and sep: "\<And>d. domain = Some d \<Longrightarrow> separate (rule_keywords rules) d"
  shows "map (\<lambda>(p, hit). rules ! p)
      (filter (\<lambda>(p, hit). indexed_domain_matches env (rules ! p) hit domain \<and> Q (rules ! p)) (ordered_candidates env index domain))
    = filter (\<lambda>r. domain_group_matches env r domain \<and> Q r) rules"
proof (rule candidate_rules)
  have hits: "p \<in> set (index_hits env index domain) \<longleftrightarrow> indexed_matches env rules domain p" for p
    using index_hits_sound[OF build search] index_hits_complete[OF build search sep] by blast
  have group: "domain_group_matches env (rules ! p) domain
      \<longleftrightarrow> indexed_domain_matches env (rules ! p) (indexed_matches env rules domain p) domain" if "p < length rules" for p
    using domain_group_split[OF rules[OF nth_mem[OF that]]] that by (simp add: indexed_matches_def)
  show "fst c < length rules" if "c \<in> set (ordered_candidates env index domain)" for c
    using ordered_candidates_iff(1)[OF build, of "fst c" domain] that by (auto simp: hits indexed_matches_def)
  then show "(indexed_domain_matches env (rules ! p) hit domain \<and> Q (rules ! p))
      \<longleftrightarrow> (domain_group_matches env (rules ! p) domain \<and> Q (rules ! p))"
    if "(p, hit) \<in> set (ordered_candidates env index domain)" for p hit
    using ordered_candidates_iff(2)[OF build that] that group[of p] hits[of p] by fastforce
  show "\<not> (domain_group_matches env (rules ! p) domain \<and> Q (rules ! p))"
    if "p < length rules" "p \<notin> fst ` set (ordered_candidates env index domain)" for p
  proof -
    have "\<not> needs_always (rules ! p)" "\<not> indexed_matches env rules domain p"
      using ordered_candidates_iff(1)[OF build, of p domain] that hits by auto
    then have "\<not> indexed_domain_matches env (rules ! p) (indexed_matches env rules domain p) domain"
      by (auto simp: needs_always_def indexed_domain_matches_def list_ex_iff split: option.splits)
    then show ?thesis using group[OF that(1)] by blast
  qed
qed (rule ordered_candidates_sorted[OF build])

lemma candidates_sound:
  assumes build: "build_index env rules = Some index" and search: "standard_search (find_iter env)"
    and rules: "\<And>r. r \<in> set rules \<Longrightarrow> rule_ok r"
    and mem: "(p, hit) \<in> set (ordered_candidates env index domain)"
    and "indexed_domain_matches env (rules ! p) hit domain"
  shows "p < length rules \<and> domain_group_matches env (rules ! p) domain"
proof -
  have hit: "hit \<Longrightarrow> indexed_matches env rules domain p"
    using ordered_candidates_iff(2)[OF build mem] index_hits_sound[OF build search] by blast
  have p: "p < length rules"
  proof -
    have "p \<in> fst ` set (ordered_candidates env index domain)" using mem by force
    then show ?thesis
      unfolding ordered_candidates_iff(1)[OF build] using index_hits_sound[OF build search, of p domain]
      by (auto simp: indexed_matches_def)
  qed
  then have ok: "rule_ok (rules ! p)" by (rule rules[OF nth_mem])
  show ?thesis
    using p hit assms(5) unfolding domain_group_split[OF ok]
    by (auto simp: indexed_domain_matches_def indexed_matches_def)
qed

text \<open>Even when keywords overlap, a rule the indexed scan selects is one whose conditions hold.\<close>

lemma indexed_scan_sound:
  assumes "standard_search (find_iter env)" and "\<And>r. r \<in> set rules \<Longrightarrow> rule_ok r"
    and "select_from_rules env rules (build_index env rules) context domain = Some rule"
  shows "rule \<in> set rules \<and> rule_matches env rule context domain"
proof (cases "build_index env rules")
  case None
  then show ?thesis using assms(3) by (auto simp: select_from_rules_def find_Some_iff)
next
  case (Some index)
  then obtain p hit where "find (\<lambda>(p, hit). matches_indexed env (rules ! p) hit context domain)
      (ordered_candidates env index domain) = Some (p, hit)" and rule: "rule = rules ! p"
    using assms(3) by (auto simp: select_from_rules_def)
  then have "(p, hit) \<in> set (ordered_candidates env index domain)" "matches_indexed env (rules ! p) hit context domain"
    by (auto simp: find_Some_iff in_set_conv_nth)
  then show ?thesis
    using candidates_sound[OF Some assms(1,2)] rule
    by (auto simp: matches_indexed_def rule_matches_def)
qed

lemma indexed_scans_agree:
  assumes "standard_search (find_iter env)" and "compile_rules env config label = Ok rules"
    and "\<And>d. domain = Some d \<Longrightarrow> separate (rule_keywords rules) d"
  shows "select_from_rules env rules (build_index env rules) context domain
      = find (\<lambda>rule. rule_matches env rule context domain) rules"
    and "collect_besides_ip env rules (build_index env rules) context domain scope pending
      = collect_besides_ip env rules None context domain scope pending"
proof -
  show "select_from_rules env rules (build_index env rules) context domain
      = find (\<lambda>rule. rule_matches env rule context domain) rules"
  proof (cases "build_index env rules")
    case None
    then show ?thesis by (simp add: select_from_rules_def)
  next
    case (Some index)
    have "map (\<lambda>(p, hit). rules ! p)
        (filter (\<lambda>(p, hit). matches_indexed env (rules ! p) hit context domain) (ordered_candidates env index domain))
      = filter (\<lambda>r. rule_matches env r context domain) rules"
      using candidates_keep[OF Some assms(1) compile_rules_ok[OF assms(2)] assms(3),
          where Q = "\<lambda>r. ip_group_matches env r context \<and> static_groups_match r context"]
      by (simp add: matches_indexed_def rule_matches_def)
    then show ?thesis unfolding select_from_rules_def Some by (auto simp: find_filter split: list.splits)
  qed
  show "collect_besides_ip env rules (build_index env rules) context domain scope pending
      = collect_besides_ip env rules None context domain scope pending"
  proof (cases "build_index env rules")
    case (Some index)
    have "map (\<lambda>(p, hit). rules ! p)
        (filter (\<lambda>(p, hit). matches_besides_ip_indexed env (rules ! p) hit context domain) (ordered_candidates env index domain))
      = filter (\<lambda>r. matches_besides_ip env r context domain) rules"
      using candidates_keep[OF Some assms(1) compile_rules_ok[OF assms(2)] assms(3),
          where Q = "\<lambda>r. static_groups_match r context"]
      by (simp add: matches_besides_ip_indexed_def matches_besides_ip_def)
    then show ?thesis
      unfolding Some collect_besides_ip_def option.case
        collect_scan_filter[of "\<lambda>(p, hit). matches_besides_ip_indexed env (rules ! p) hit context domain"]
        collect_scan_filter[of "\<lambda>rule. matches_besides_ip env rule context domain"]
      by simp
  qed simp
qed

text \<open>
  C1. On every rule list the scan over the candidate index selects the rule, and collects the
  pending rules, that the ordered scan over all rules does, whenever the keywords of the list do
  not overlap in the domain.
\<close>

theorem indexed_scan_exact:
  assumes "standard_search (find_iter env)" and "compile_rules env config label = Ok rules"
    and "\<And>d. domain = Some d \<Longrightarrow> separate (rule_keywords rules) d"
  shows "select_from_rules env rules (build_index env rules) context domain
      = find (\<lambda>rule. rule_matches env rule context domain) rules
    \<and> collect_besides_ip env rules (build_index env rules) context domain scope pending
      = collect_besides_ip env rules None context domain scope pending"
  using indexed_scans_agree[OF assms] by blast

section \<open>Overlapping keywords\<close>

lemma index_matcher_Some:
  "length (ib_patterns b) < 2 ^ 32 \<Longrightarrow>
   \<exists>b'. index_matcher p b m = Some b' \<and> length (ib_patterns b') \<le> Suc (length (ib_patterns b))"
  by (cases m) (auto simp: index_keyword_def Let_def split: option.splits)

lemma index_matchers_Some:
  "length (ib_patterns b) + length ms < 2 ^ 32 \<Longrightarrow>
   \<exists>b'. index_matchers p b ms = Some b' \<and> length (ib_patterns b') \<le> length (ib_patterns b) + length ms"
proof (induction ms arbitrary: b)
  case (Cons m ms)
  then obtain c where c: "index_matcher p b m = Some c" "length (ib_patterns c) \<le> Suc (length (ib_patterns b))"
    using index_matcher_Some[of b p m] by auto
  obtain b' where "index_matchers p c ms = Some b'" "length (ib_patterns b') \<le> length (ib_patterns c) + length ms"
    using Cons.IH[of c] Cons.prems c(2) by auto
  then show ?case using c by auto
qed simp

lemma index_rules_Some:
  "length (ib_patterns b) + sum_list (map (length \<circ> cr_domains) rules) < 2 ^ 32 \<Longrightarrow>
   \<exists>b'. index_rules b p rules = Some b'"
proof (induction rules arbitrary: b p)
  case (Cons rule rules)
  then obtain c where c: "index_matchers p b (cr_domains rule) = Some c"
    "length (ib_patterns c) \<le> length (ib_patterns b) + length (cr_domains rule)"
    using index_matchers_Some[of b "cr_domains rule" p] by auto
  then obtain d where d: "index_rule b p rule = Some d" "ib_patterns d = ib_patterns c"
    by (auto simp: index_rule_def Let_def)
  then have "\<exists>b'. index_rules d (p + 1) rules = Some b'" using Cons.prems c(2) by (intro Cons.IH) simp
  then show ?case using d by simp
qed simp

lemma build_index_Some:
  assumes "INDEXED_RULE_LIMIT \<le> length rules" and "length rules < 2 ^ 32"
    and "sum_list (map (length \<circ> cr_domains) rules) < 2 ^ 32" and "\<And>ps. automaton_built env ps"
  shows "\<exists>index. build_index env rules = Some index"
proof -
  obtain b where "index_rules new_builder 0 rules = Some b"
    using index_rules_Some[of new_builder rules 0] assms(3) by (auto simp: new_builder_def)
  then show ?thesis using assms(1,2,4) by (auto simp: build_index_def)
qed

text \<open>
  Two keywords, one a prefix of the other, guarding two ports, and enough other rules for the
  index to be built.
\<close>

definition keyword_rule :: "str \<Rightarrow> str \<Rightarrow> route_rule" where
  "keyword_rule k port = \<lparr>rule_name = Some k, rule_domain = Some [ascii ''keyword:'' @ k], rule_ip = None,
     rule_port = Some [port], rule_outbound = ascii ''block''\<rparr>"

definition filler_rule :: route_rule where
  "filler_rule = \<lparr>rule_name = Some [], rule_domain = Some [ascii ''full:x''], rule_ip = None, rule_port = None,
     rule_outbound = ascii ''direct''\<rparr>"

definition overlap_config :: "route_rule list" where
  "overlap_config = [keyword_rule (ascii ''ads'') (ascii ''80''), keyword_rule (ascii ''adserver'') (ascii ''443'')]
     @ replicate 62 filler_rule"

definition keyword_compiled :: "str \<Rightarrow> nat \<Rightarrow> compiled_rule" where
  "keyword_compiled k port = \<lparr>cr_name = k, cr_outbound = ascii ''block'', cr_domains = [MatchKeyword k],
     cr_residual_domains = [], cr_ips = [], cr_ports = [\<lparr>pr_start = port, pr_end = port\<rparr>]\<rparr>"

definition filler_compiled :: compiled_rule where
  "filler_compiled = \<lparr>cr_name = [], cr_outbound = ascii ''direct'', cr_domains = [MatchFull (ascii ''x'')],
     cr_residual_domains = [], cr_ips = [], cr_ports = []\<rparr>"

definition overlap_rules :: "compiled_rule list" where
  "overlap_rules = [keyword_compiled (ascii ''ads'') 80, keyword_compiled (ascii ''adserver'') 443]
     @ replicate 62 filler_compiled"

definition overlap_context :: "u16 \<Rightarrow> route_context" where
  "overlap_context port = \<lparr>rc_user_id = [], rc_inbound_tag = [],
     rc_destination = \<lparr>dst_address = DomainName (ascii ''adserver''), dst_port = port\<rparr>, rc_resolved_ips = []\<rparr>"

lemma compile_rules_named:
  assumes "\<And>i rule. rule \<in> set rules \<Longrightarrow> compile_rule env rule (index_label label i) = Ok (f rule)"
  shows "compile_rules env rules label = Ok (map f rules)"
proof -
  have "collect_results (\<lambda>(i, rule). compile_rule env rule (index_label label i)) (enumerate n rules) = Ok (map f rules)" for n
    using assms by (induction rules arbitrary: n) auto
  then show ?thesis by (simp add: compile_rules_def)
qed

lemmas compile_eval =
  compile_rule_def compile_domain_def compile_port_def rule_conditions_def strip_prefix_def to_ascii_lowercase_def
  lower_byte_def parse_unsigned_def to_digit_def ascii_def Let_def

lemma compile_overlap_rule:
  "compile_rule env (keyword_rule (ascii ''ads'') (ascii ''80'')) label = Ok (keyword_compiled (ascii ''ads'') 80)"
  "compile_rule env (keyword_rule (ascii ''adserver'') (ascii ''443'')) label = Ok (keyword_compiled (ascii ''adserver'') 443)"
  "compile_rule env filler_rule label = Ok filler_compiled"
  by (simp_all add: keyword_rule_def keyword_compiled_def filler_rule_def filler_compiled_def compile_eval)

lemma compile_overlap_config: "compile_rules env overlap_config label = Ok overlap_rules"
proof -
  let ?f = "\<lambda>rule. if rule = keyword_rule (ascii ''ads'') (ascii ''80'') then keyword_compiled (ascii ''ads'') 80
    else if rule = filler_rule then filler_compiled else keyword_compiled (ascii ''adserver'') 443"
  have distinct_rules: "keyword_rule (ascii ''adserver'') (ascii ''443'') \<noteq> keyword_rule (ascii ''ads'') (ascii ''80'')"
    "filler_rule \<noteq> keyword_rule (ascii ''ads'') (ascii ''80'')"
    "keyword_rule (ascii ''adserver'') (ascii ''443'') \<noteq> filler_rule"
    by (simp_all add: keyword_rule_def filler_rule_def ascii_def)
  have "compile_rules env overlap_config label = Ok (map ?f overlap_config)"
    by (rule compile_rules_named) (auto simp: overlap_config_def compile_overlap_rule distinct_rules)
  also have "map ?f overlap_config = overlap_rules"
    by (simp add: overlap_config_def overlap_rules_def distinct_rules map_replicate_const[symmetric])
  finally show ?thesis .
qed

lemma overlap_rules_nth:
  "length overlap_rules = 64"
  "overlap_rules ! 0 = keyword_compiled (ascii ''ads'') 80"
  "overlap_rules ! Suc 0 = keyword_compiled (ascii ''adserver'') 443"
  "2 \<le> p \<Longrightarrow> p < 64 \<Longrightarrow> overlap_rules ! p = filler_compiled"
  by (simp_all add: overlap_rules_def nth_append)

lemma overlap_occurs:
  "occurs_at (ascii ''adserver'') (ascii ''ads'') s \<Longrightarrow> s = 0"
  "occurs_at (ascii ''adserver'') (ascii ''adserver'') s \<Longrightarrow> s = 0"
proof -
  assume o: "occurs_at (ascii ''adserver'') (ascii ''ads'') s"
  then have "s \<in> {0, 1, 2, 3, 4, 5}" by (auto simp: occurs_at_def ascii_def)
  with o show "s = 0" by (auto simp: occurs_at_def ascii_def)
next
  assume "occurs_at (ascii ''adserver'') (ascii ''adserver'') s"
  then show "s = 0" by (simp add: occurs_at_def)
qed

lemma overlap_pairs:
  "(p, MatchKeyword k) \<in> indexed_pairs 0 overlap_rules \<longleftrightarrow>
     p = 0 \<and> k = ascii ''ads'' \<or> p = 1 \<and> k = ascii ''adserver''"
  "(p, MatchFull v) \<in> indexed_pairs 0 overlap_rules \<Longrightarrow> v = ascii ''x''"
  "(p, MatchSuffix v) \<notin> indexed_pairs 0 overlap_rules"
proof -
  have cases: "p = 0 \<or> p = 1 \<or> 2 \<le> p" for p :: nat by auto
  show "(p, MatchKeyword k) \<in> indexed_pairs 0 overlap_rules \<longleftrightarrow>
     p = 0 \<and> k = ascii ''ads'' \<or> p = 1 \<and> k = ascii ''adserver''"
    using cases[of p] by (auto simp: indexed_pairs_0 overlap_rules_nth keyword_compiled_def filler_compiled_def)
  show "v = ascii ''x''" if "(p, MatchFull v) \<in> indexed_pairs 0 overlap_rules"
    using cases[of p] that by (auto simp: indexed_pairs_0 overlap_rules_nth keyword_compiled_def filler_compiled_def)
  show "(p, MatchSuffix v) \<notin> indexed_pairs 0 overlap_rules"
    using cases[of p] by (auto simp: indexed_pairs_0 overlap_rules_nth keyword_compiled_def filler_compiled_def)
qed

lemma overlap_hit_missed:
  assumes search: "standard_search (find_iter env)" and build: "build_index env overlap_rules = Some index"
  shows "\<exists>p \<in> {0, 1}. p \<notin> set (index_hits env index (Some (ascii ''adserver'')))"
proof -
  obtain b where b: "builder_ok b (indexed_pairs 0 overlap_rules)" "ri_full index = ib_full b" "ri_suffix index = ib_suffix b"
    "ri_keywords index = (if ib_patterns b = [] then None else Some (ib_patterns b))"
    "ri_keyword_rules index = ib_keyword_rules b"
    using build by (rule build_index_SomeE)
  let ?d = "ascii ''adserver''" and ?found = "fst ` set (find_iter env (ib_patterns b) (ascii ''adserver''))"
  have found: "i < length (ib_patterns b)" if f: "i \<in> ?found" for i
  proof -
    obtain s e where "(i, s, e) \<in> set (find_iter env (ib_patterns b) ?d)" using f by auto
    from standard_search.found[OF search this] show ?thesis by blast
  qed
  have "set (ib_patterns b) = {v. v \<noteq> [] \<and> (\<exists>p. (p, MatchKeyword v) \<in> indexed_pairs 0 overlap_rules)}"
    using b(1) unfolding builder_ok_def keyword_lists_def by blast
  also have "\<dots> = {ascii ''ads'', ascii ''adserver''}" unfolding overlap_pairs(1) by (auto simp: ascii_def)
  finally have pats: "set (ib_patterns b) = {ascii ''ads'', ascii ''adserver''}" .
  then obtain i j where i: "i < length (ib_patterns b)" "ib_patterns b ! i = ascii ''ads''"
    and j: "j < length (ib_patterns b)" "ib_patterns b ! j = ?d"
    by (metis in_set_conv_nth insertCI)
  have "i \<noteq> j" using i j by (auto simp: ascii_def)
  have "[] \<notin> set (ib_patterns b)" using pats by (simp add: ascii_def)
  then have miss: "i \<notin> ?found \<or> j \<notin> ?found"
  proof (intro standard_search.overlap_unreported[OF search i(1) j(1) \<open>i \<noteq> j\<close>])
    fix s t
    assume "occurs_at ?d (ib_patterns b ! i) s" "occurs_at ?d (ib_patterns b ! j) t"
    then have "s = 0" "t = 0" using overlap_occurs i(2) j(2) by auto
    then show "t < s + length (ib_patterns b ! i) \<and> s < t + length (ib_patterns b ! j)"
      by (simp add: i(2) j(2) ascii_def)
  qed
  have unique: "k = i" if "k < length (ib_patterns b)" "ib_patterns b ! k = ib_patterns b ! i" "i < length (ib_patterns b)" for k i
    using numbered_distinct[of "ib_ids b" "ib_patterns b"] b(1) that by (simp add: builder_ok_def nth_eq_iff_index_eq)
  have set: "set (index_hits env index (Some ?d)) =
     {p. (p, MatchFull ?d) \<in> indexed_pairs 0 overlap_rules}
     \<union> {p. \<exists>v. (p, MatchSuffix v) \<in> indexed_pairs 0 overlap_rules \<and> domain_suffix_matches ?d v}
     \<union> {p. \<exists>i \<in> ?found. (p, MatchKeyword (ib_patterns b ! i)) \<in> indexed_pairs 0 overlap_rules}"
    by (rule index_hits_set[OF b]) (use found in \<open>blast intro: imageI\<close>)
  have "?d \<noteq> ascii ''x''" by (simp add: ascii_def)
  then have "(p, MatchFull ?d) \<notin> indexed_pairs 0 overlap_rules" for p using overlap_pairs(2)[of p ?d] by blast
  then have hits: "p \<in> set (index_hits env index (Some ?d)) \<longleftrightarrow>
      (\<exists>k \<in> ?found. p = 0 \<and> ib_patterns b ! k = ascii ''ads'' \<or> p = 1 \<and> ib_patterns b ! k = ?d)" for p
    unfolding set by (simp add: overlap_pairs(1,3))
  show ?thesis
    using miss
  proof
    assume "i \<notin> ?found"
    then have "ib_patterns b ! k \<noteq> ascii ''ads''" if "k \<in> ?found" for k
      using unique[of k i] found[OF that] i that by metis
    then have "0 \<notin> set (index_hits env index (Some ?d))" unfolding hits by simp
    then show ?thesis by simp
  next
    assume "j \<notin> ?found"
    then have "ib_patterns b ! k \<noteq> ?d" if "k \<in> ?found" for k
      using unique[of k j] found[OF that] j that by metis
    then have "1 \<notin> set (index_hits env index (Some ?d))" unfolding hits by simp
    then show ?thesis by simp
  qed
qed

text \<open>
  C1. The indexed scan does not always agree with the ordered scan: on a list of 64 rules with the
  keywords \<open>ads\<close> (port 80) and \<open>adserver\<close> (port 443), for the domain \<open>adserver\<close> and one of the two
  ports, the ordered scan selects a rule and the indexed scan selects none, whichever automaton
  with the documented behaviour is used: only one of two overlapping keywords is reported.
\<close>

theorem indexed_scan_misses_overlap:
  assumes "standard_search (find_iter env)" and "\<And>patterns. automaton_built env patterns"
  shows "\<exists>index port. compile_rules env overlap_config label = Ok overlap_rules
    \<and> build_index env overlap_rules = Some index
    \<and> select_from_rules env overlap_rules (Some index) (overlap_context port)
        (normalized_domain (rc_destination (overlap_context port))) = None
    \<and> select_from_rules env overlap_rules None (overlap_context port)
        (normalized_domain (rc_destination (overlap_context port))) \<noteq> None"
proof -
  obtain index where build: "build_index env overlap_rules = Some index"
    using build_index_Some[of overlap_rules env] assms(2)
    by (auto simp: overlap_rules_nth INDEXED_RULE_LIMIT_def)
       (auto simp: overlap_rules_def keyword_compiled_def filler_compiled_def sum_list_replicate)
  let ?d = "ascii ''adserver''"
  have domain: "normalized_domain (rc_destination (overlap_context port)) = Some ?d" for port
    by (simp add: normalized_domain_lower overlap_context_def to_ascii_lowercase_def lower_byte_def ascii_def)
  obtain p where p: "p \<in> {0, 1}" "p \<notin> set (index_hits env index (Some ?d))"
    using overlap_hit_missed[OF assms(1) build] by blast
  define port :: u16 where "port = (if p = 0 then 80 else 443)"
  have ok: "rule_ok r" if "r \<in> set overlap_rules" for r
    using that compile_rules_ok[OF compile_overlap_config] by blast
  have judged: "rule_matches env (overlap_rules ! q) (overlap_context port) (Some ?d) \<longleftrightarrow> q = p"
    if "q < length overlap_rules" for q
  proof -
    consider "q = 0" | "q = 1" | "2 \<le> q" by linarith
    then show ?thesis
      using that p(1)
      by cases (auto simp: overlap_rules_nth rule_matches_def domain_group_matches_def static_groups_match_def ip_group_matches_def
          keyword_compiled_def filler_compiled_def overlap_context_def port_def port_range_contains_def keyword_matches_def windows_def ascii_def)
  qed
  have "\<not> matches_indexed env (overlap_rules ! q) hit (overlap_context port) (Some ?d)"
    if mem: "(q, hit) \<in> set (ordered_candidates env index (Some ?d))" for q hit
  proof
    assume m: "matches_indexed env (overlap_rules ! q) hit (overlap_context port) (Some ?d)"
    then have "q < length overlap_rules \<and> rule_matches env (overlap_rules ! q) (overlap_context port) (Some ?d)"
      using candidates_sound[OF build assms(1) ok mem] by (auto simp: matches_indexed_def rule_matches_def)
    then have "q = p" using judged by blast
    moreover have "\<not> needs_always (overlap_rules ! p)"
      using p(1) by (auto simp: needs_always_def overlap_rules_nth keyword_compiled_def ascii_def)
    ultimately show False
      using ordered_candidates_iff(1)[OF build, of p "Some ?d"] mem p(2) by force
  qed
  then have "select_from_rules env overlap_rules (Some index) (overlap_context port) (Some ?d) = None"
    by (auto simp: select_from_rules_def find_None_iff)
  moreover have "p < length overlap_rules" using p(1) by (auto simp: overlap_rules_nth)
  then have "select_from_rules env overlap_rules None (overlap_context port) (Some ?d) \<noteq> None"
    using judged[of p] nth_mem[of p overlap_rules] by (simp add: select_from_rules_def find_None_iff) (metis nth_mem)
  ultimately show ?thesis using build compile_overlap_config domain by metis
qed

section \<open>An instance\<close>

definition plain_env :: route_env where
  "plain_env = \<lparr>regex_valid = (\<lambda>_. True), regex_is_match = (\<lambda>_ _. False), matches_domain = (\<lambda>_ _ _. False),
     matches_ip = (\<lambda>_ _ _. False), automaton_built = (\<lambda>_. True),
     find_iter = (\<lambda>patterns hay. standard_find patterns hay 0)\<rparr>"

lemma plain_env_search: "standard_search (find_iter plain_env)"
  using naive.standard_search_axioms by (simp add: plain_env_def)

theorem indexed_scan_exact_witness:
  "select_from_rules plain_env overlap_rules (build_index plain_env overlap_rules) (overlap_context 80) (Some (ascii ''x''))
    = find (\<lambda>rule. rule_matches plain_env rule (overlap_context 80) (Some (ascii ''x''))) overlap_rules
   \<and> collect_besides_ip plain_env overlap_rules (build_index plain_env overlap_rules) (overlap_context 80)
        (Some (ascii ''x'')) ScopeGlobal []
    = collect_besides_ip plain_env overlap_rules None (overlap_context 80) (Some (ascii ''x'')) ScopeGlobal []"
proof (rule indexed_scan_exact[OF plain_env_search compile_overlap_config[of _ "[]"]])
  fix d assume "Some (ascii ''x'') = Some d"
  moreover have "set (rule_keywords overlap_rules) \<subseteq> {ascii ''ads'', ascii ''adserver''}"
    by (auto simp: rule_keywords_iff overlap_pairs)
  then have "3 \<le> length k" if "k \<in> set (rule_keywords overlap_rules)" for k
    using that by (auto simp: ascii_def)
  ultimately show "separate (rule_keywords overlap_rules) d"
    by (fastforce simp: separate_def occurs_at_def ascii_def)
qed

theorem indexed_scan_misses_overlap_witness:
  "\<exists>index port. compile_rules plain_env overlap_config [] = Ok overlap_rules
    \<and> build_index plain_env overlap_rules = Some index
    \<and> select_from_rules plain_env overlap_rules (Some index) (overlap_context port)
        (normalized_domain (rc_destination (overlap_context port))) = None
    \<and> select_from_rules plain_env overlap_rules None (overlap_context port)
        (normalized_domain (rc_destination (overlap_context port))) \<noteq> None"
  by (rule indexed_scan_misses_overlap[OF plain_env_search]) (simp add: plain_env_def)

end
