(* ===== verification/Routing.thy ===== *)
theory Routing
  imports Rule_Index User_Map
begin

text \<open>
  The routing table (\<open>RoutingTable\<close> in \<open>src/server/routing.rs\<close>): compilation from the
  configuration, the selection of an outbound, and the selection with name resolution.

  A name lookup is the argument \<open>dns\<close>, its answer to this request; the UUID parser of the
  \<open>uuid\<close> crate is the argument \<open>parse_uuid\<close>, the sort of the user map is \<open>sort_by\<close>.
\<close>

section \<open>Configuration\<close>

datatype domain_strategy = AsIs | ResolveIfNoMatch | ResolveOnDemand

record route_policy =
  rp_default :: str
  rp_rules :: "route_rule list option"

record routing_config =
  rcfg_default :: str
  rcfg_strategy :: "domain_strategy option"
  rcfg_rules :: "route_rule list option"
  rcfg_policies :: "(str \<times> route_policy) list option"

record user_config =
  uc_id :: str
  uc_short_ids :: "str list"
  uc_label :: "str option"
  uc_policy :: "str option"

definition or_default :: "'a list option \<Rightarrow> 'a list" where
  "or_default xs = (case xs of None \<Rightarrow> [] | Some ys \<Rightarrow> ys)"

definition config_strategy :: "routing_config \<Rightarrow> domain_strategy" where
  "config_strategy config = (case rcfg_strategy config of None \<Rightarrow> ResolveIfNoMatch | Some s \<Rightarrow> s)"

definition config_rules :: "routing_config \<Rightarrow> route_rule list" where
  "config_rules config = or_default (rcfg_rules config)"

definition config_policies :: "routing_config \<Rightarrow> (str \<times> route_policy) list" where
  "config_policies config = or_default (rcfg_policies config)"

definition has_policy :: "routing_config \<Rightarrow> str \<Rightarrow> bool" where
  "has_policy config name \<longleftrightarrow> name \<in> fst ` set (config_policies config)"

section \<open>The compiled table\<close>

record route_decision =
  rd_outbound :: str
  rd_rule_name :: str
  rd_scope :: route_scope

definition rule_decision :: "compiled_rule \<Rightarrow> route_scope \<Rightarrow> route_decision" where
  "rule_decision rule scope = \<lparr>rd_outbound = cr_outbound rule, rd_rule_name = cr_name rule, rd_scope = scope\<rparr>"

record compiled_user_policy =
  cp_name :: str
  cp_default_outbound :: str
  cp_rules :: "compiled_rule list"
  cp_index :: "rule_index option"
  cp_has_ip_rules :: bool

definition has_ip_rules :: "compiled_rule list \<Rightarrow> bool" where
  "has_ip_rules rules \<longleftrightarrow> list_ex (\<lambda>rule. cr_ips rule \<noteq> []) rules"

definition compile_policy ::
  "route_env \<Rightarrow> str \<Rightarrow> str \<Rightarrow> route_rule list \<Rightarrow> routing_compile_error + compiled_user_policy"
where
  "compile_policy env name default_outbound rule_list =
    and_then (compile_rules env rule_list name) (\<lambda>rules.
      Ok \<lparr>cp_name = name, cp_default_outbound = default_outbound, cp_rules = rules,
          cp_index = build_index env rules, cp_has_ip_rules = has_ip_rules rules\<rparr>)"

definition default_decision :: "compiled_user_policy \<Rightarrow> route_decision" where
  "default_decision policy =
    \<lparr>rd_outbound = cp_default_outbound policy, rd_rule_name = cp_name policy, rd_scope = ScopeDefault\<rparr>"

record routing_table =
  rt_global_rules :: "compiled_rule list"
  rt_global_index :: "rule_index option"
  rt_users :: "compiled_user_policy user_map"
  rt_global_has_ip_rules :: bool

definition compile_named ::
  "route_env \<Rightarrow> (str \<times> route_policy) list \<Rightarrow> routing_compile_error + (str \<times> compiled_user_policy) list"
where
  "compile_named env policies =
    collect_results (\<lambda>(name, policy).
      and_then (compile_policy env (ascii ''routing.policies.'' @ name) (rp_default policy) (or_default (rp_rules policy)))
        (\<lambda>compiled. Ok (name, compiled))) policies"

definition compile_user ::
  "(str \<Rightarrow> bytes option) \<Rightarrow> compiled_user_policy \<Rightarrow> (str \<times> compiled_user_policy) list \<Rightarrow> user_config
   \<Rightarrow> routing_compile_error + (user_id \<times> compiled_user_policy)"
where
  "compile_user parse_uuid fallback named client =
    and_then (case uc_policy client of
        Some name \<Rightarrow> ok_or UnknownPolicy (map_of named name)
      | None \<Rightarrow> Ok fallback) (\<lambda>policy.
    and_then (ok_or InvalidUuid (parse_uuid (uc_id client))) (\<lambda>uuid. Ok (uuid, policy)))"

definition compile_table ::
  "route_env \<Rightarrow> (str \<Rightarrow> bytes option)
   \<Rightarrow> ((user_id \<times> compiled_user_policy) list \<Rightarrow> (user_id \<times> compiled_user_policy) list)
   \<Rightarrow> routing_config \<Rightarrow> user_config list \<Rightarrow> routing_compile_error + routing_table"
where
  "compile_table env parse_uuid sort_by config clients =
    and_then (compile_rules env (config_rules config) (ascii ''routing.rules'')) (\<lambda>global_rules.
    and_then (compile_policy env (ascii ''routing'') (rcfg_default config) (config_rules config)) (\<lambda>fallback.
    and_then (compile_named env (config_policies config)) (\<lambda>named.
    and_then (collect_results (compile_user parse_uuid fallback named) clients) (\<lambda>users.
      Ok \<lparr>rt_global_rules = global_rules, rt_global_index = build_index env global_rules,
          rt_users = from_entries sort_by users, rt_global_has_ip_rules = has_ip_rules global_rules\<rparr>))))"

section \<open>Selection\<close>

datatype route_resolution_error =
  UnknownUser | DnsTimeout | DnsLimit | DnsError | NoAddresses | TooManyAddresses | DnsAllocation

definition select_for_user ::
  "route_env \<Rightarrow> routing_table \<Rightarrow> route_context \<Rightarrow> str option \<Rightarrow> compiled_user_policy \<Rightarrow> route_decision"
where
  "select_for_user env table context domain user =
    (case select_from_rules env (rt_global_rules table) (rt_global_index table) context domain of
       Some rule \<Rightarrow> rule_decision rule ScopeGlobal
     | None \<Rightarrow>
        (case select_from_rules env (cp_rules user) (cp_index user) context domain of
           Some rule \<Rightarrow> rule_decision rule ScopePolicy
         | None \<Rightarrow> default_decision user))"

definition select_route :: "route_env \<Rightarrow> routing_table \<Rightarrow> route_context \<Rightarrow> route_resolution_error + route_decision" where
  "select_route env table context =
    and_then (ok_or UnknownUser (get_user (rt_users table) (rc_user_id context))) (\<lambda>user.
      Ok (select_for_user env table context (normalized_domain (rc_destination context)) user))"

definition select_besides_ip ::
  "route_env \<Rightarrow> routing_table \<Rightarrow> route_context \<Rightarrow> str option \<Rightarrow> compiled_user_policy
   \<Rightarrow> (compiled_rule \<times> route_scope) list
   \<Rightarrow> (compiled_rule \<times> route_scope) option \<times> (compiled_rule \<times> route_scope) list"
where
  "select_besides_ip env table context domain user pending =
    (case collect_besides_ip env (rt_global_rules table) (rt_global_index table) context domain ScopeGlobal pending of
       (Some rule, pending') \<Rightarrow> (Some (rule, ScopeGlobal), pending')
     | (None, pending') \<Rightarrow>
        (case collect_besides_ip env (cp_rules user) (cp_index user) context domain ScopePolicy pending' of
           (Some rule, pending'') \<Rightarrow> (Some (rule, ScopePolicy), pending'')
         | (None, pending'') \<Rightarrow> (None, pending'')))"

section \<open>Name resolution\<close>

definition MAX_RESOLVED_IPS :: nat where "MAX_RESOLVED_IPS = 64"

text \<open>
  How a lookup ends: no resolver slot was free, it did not answer in time, its task or the lookup
  failed, the result buffer could not be reserved, or it returned addresses.
\<close>

datatype dns_answer =
  NoResolverSlot | LookupTimedOut | LookupFailed | NoMemory | LookupAddresses "socket_addr list"

fun collect_ips :: "ip_addr list \<Rightarrow> socket_addr list \<Rightarrow> route_resolution_error + ip_addr list" where
  "collect_ips resolved [] = (if resolved = [] then Err NoAddresses else Ok resolved)"
| "collect_ips resolved (address # rest) =
    (if sa_ip address \<in> set resolved then collect_ips resolved rest
     else if length resolved = MAX_RESOLVED_IPS then Err TooManyAddresses
     else collect_ips (resolved @ [sa_ip address]) rest)"

definition resolve_domain_with :: "dns_answer \<Rightarrow> route_resolution_error + ip_addr list" where
  "resolve_domain_with answer = (case answer of
     NoResolverSlot \<Rightarrow> Err DnsLimit
   | LookupTimedOut \<Rightarrow> Err DnsTimeout
   | LookupFailed \<Rightarrow> Err DnsError
   | NoMemory \<Rightarrow> Err DnsAllocation
   | LookupAddresses addresses \<Rightarrow> collect_ips [] addresses)"

definition resolve_domain ::
  "(str \<Rightarrow> u16 \<Rightarrow> dns_answer) \<Rightarrow> destination \<Rightarrow> route_resolution_error + ip_addr list"
where
  "resolve_domain dns destination = (case dst_address destination of
     DomainName domain \<Rightarrow>
      (case parse_ip domain of
         Some ip \<Rightarrow> Ok [ip]
       | None \<Rightarrow> resolve_domain_with (dns domain (dst_port destination)))
   | _ \<Rightarrow> Ok [])"

record resolved_route =
  rr_decision :: route_decision
  rr_resolved_ips :: "ip_addr list"

fun first_pending ::
  "route_env \<Rightarrow> route_context \<Rightarrow> (compiled_rule \<times> route_scope) list \<Rightarrow> (compiled_rule \<times> route_scope) option"
where
  "first_pending env context [] = None"
| "first_pending env context ((rule, scope) # pending) =
    (if ip_group_matches env rule context then Some (rule, scope) else first_pending env context pending)"

definition is_domain :: "destination \<Rightarrow> bool" where
  "is_domain destination = (case dst_address destination of DomainName _ \<Rightarrow> True | _ \<Rightarrow> False)"

definition select_with_dns ::
  "route_env \<Rightarrow> routing_table \<Rightarrow> (str \<Rightarrow> u16 \<Rightarrow> dns_answer) \<Rightarrow> user_id \<Rightarrow> str \<Rightarrow> destination \<Rightarrow> domain_strategy
   \<Rightarrow> route_resolution_error + resolved_route"
where
  "select_with_dns env table dns user_id inbound_tag destination strategy =
    and_then (ok_or UnknownUser (get_user (rt_users table) user_id)) (\<lambda>user.
      let needs_ip = rt_global_has_ip_rules table \<or> cp_has_ip_rules user;
          context = (\<lambda>ips. \<lparr>rc_user_id = user_id, rc_inbound_tag = inbound_tag,
            rc_destination = destination, rc_resolved_ips = ips\<rparr>);
          domain = normalized_domain destination
      in if \<not> is_domain destination \<or> strategy = AsIs \<or> \<not> needs_ip then
           Ok \<lparr>rr_decision = select_for_user env table (context []) domain user, rr_resolved_ips = []\<rparr>
         else if strategy = ResolveIfNoMatch then
           (case select_besides_ip env table (context []) domain user [] of
              (Some (rule, scope), _) \<Rightarrow> Ok \<lparr>rr_decision = rule_decision rule scope, rr_resolved_ips = []\<rparr>
            | (None, pending) \<Rightarrow>
               and_then (resolve_domain dns destination) (\<lambda>ips.
                 Ok \<lparr>rr_decision = (case first_pending env (context ips) pending of
                         Some (rule, scope) \<Rightarrow> rule_decision rule scope
                       | None \<Rightarrow> default_decision user),
                     rr_resolved_ips = ips\<rparr>))
         else
           and_then (resolve_domain dns destination) (\<lambda>ips.
             Ok \<lparr>rr_decision = select_for_user env table (context ips) domain user, rr_resolved_ips = ips\<rparr>))"

section \<open>Scans as lists of kept rules\<close>

text \<open>The rules a scan visits whose conditions other than the address group hold, in order.\<close>

definition kept_rules ::
  "route_env \<Rightarrow> compiled_rule list \<Rightarrow> rule_index option \<Rightarrow> route_context \<Rightarrow> str option \<Rightarrow> compiled_rule list"
where
  "kept_rules env rules index context domain = (case index of
     None \<Rightarrow> filter (\<lambda>rule. matches_besides_ip env rule context domain) rules
   | Some index \<Rightarrow>
      map (\<lambda>(p, hit). rules ! p)
        (filter (\<lambda>(p, hit). matches_besides_ip_indexed env (rules ! p) hit context domain)
          (ordered_candidates env index domain)))"

lemma find_kept: "find P (map f (filter Q xs)) = map_option f (find (\<lambda>x. Q x \<and> P (f x)) xs)"
  by (induction xs) auto

lemma select_from_rules_kept:
  "select_from_rules env rules index context domain
   = find (\<lambda>rule. ip_group_matches env rule context) (kept_rules env rules index context domain)"
proof (cases index)
  case None
  then show ?thesis
    using find_kept[of "\<lambda>rule. ip_group_matches env rule context" id "\<lambda>rule. matches_besides_ip env rule context domain" rules]
    by (simp add: select_from_rules_def kept_rules_def rule_matches_besides_ip option.map_id)
next
  case (Some i)
  have "find (\<lambda>(p, hit). matches_indexed env (rules ! p) hit context domain) cs
      = find (\<lambda>c. (case c of (p, hit) \<Rightarrow> matches_besides_ip_indexed env (rules ! p) hit context domain)
          \<and> ip_group_matches env (case c of (p, hit) \<Rightarrow> rules ! p) context) cs" for cs
    by (rule find_cong) (auto simp: matches_indexed_besides_ip)
  then show ?thesis using Some by (simp add: select_from_rules_def kept_rules_def find_kept)
qed

lemma collect_besides_ip_kept:
  "collect_besides_ip env rules index context domain scope pending
   = collect_scan (\<lambda>_. True) id scope (kept_rules env rules index context domain) pending"
  by (cases index) (simp_all add: collect_besides_ip_def kept_rules_def
      collect_scan_filter[of "\<lambda>rule. matches_besides_ip env rule context domain"]
      collect_scan_filter[of "\<lambda>(p, hit). matches_besides_ip_indexed env (rules ! p) hit context domain" for rules])

lemma collect_scan_kept:
  "collect_scan (\<lambda>_. True) id scope rules pending
   = (case find (\<lambda>rule. cr_ips rule = []) rules of
        Some rule \<Rightarrow> (Some rule, pending @ map (\<lambda>r. (r, scope)) (takeWhile (\<lambda>r. cr_ips r \<noteq> []) rules))
      | None \<Rightarrow> (None, pending @ map (\<lambda>r. (r, scope)) rules))"
  by (induction rules arbitrary: pending) (auto split: option.splits)

lemma kept_rules_ips:
  "rc_destination context = rc_destination context' \<Longrightarrow>
   kept_rules env rules index context domain = kept_rules env rules index context' domain"
  by (cases index) (simp_all add: kept_rules_def matches_besides_ip_def matches_besides_ip_indexed_def static_groups_match_def)

lemma unresolved_ip_group:
  "is_domain (rc_destination context) \<Longrightarrow> rc_resolved_ips context = [] \<Longrightarrow>
   ip_group_matches env rule context \<longleftrightarrow> cr_ips rule = []"
  by (auto simp: ip_group_matches_def destination_ips_def is_domain_def split: address.splits)

lemma first_pending_map:
  "first_pending env context (map (\<lambda>r. (r, scope)) rules @ rest)
   = (case find (\<lambda>r. ip_group_matches env r context) rules of
        Some rule \<Rightarrow> Some (rule, scope) | None \<Rightarrow> first_pending env context rest)"
  by (induction rules) auto

section \<open>Resolution after no match\<close>

text \<open>
  C1. With the strategy that resolves names only when no rule matched, the pass that sets rules
  aside decides as the two full passes would: it selects what the rules select for the name
  alone, without a lookup, when that is not the default; otherwise, and only then, it resolves
  the name and selects what all rules select with the addresses. This holds whatever the
  candidate index reports.
\<close>

theorem resolve_if_no_match_two_pass:
  assumes "get_user (rt_users table) user_id = Some user" and "is_domain destination"
    and "rt_global_has_ip_rules table \<or> cp_has_ip_rules user"
    and "context = (\<lambda>ips. \<lparr>rc_user_id = user_id, rc_inbound_tag = inbound_tag,
      rc_destination = destination, rc_resolved_ips = ips\<rparr>)"
  shows "select_with_dns env table dns user_id inbound_tag destination ResolveIfNoMatch =
    (let unresolved = select_for_user env table (context []) (normalized_domain destination) user
     in if rd_scope unresolved \<noteq> ScopeDefault then Ok \<lparr>rr_decision = unresolved, rr_resolved_ips = []\<rparr>
        else and_then (resolve_domain dns destination) (\<lambda>ips.
          Ok \<lparr>rr_decision = select_for_user env table (context ips) (normalized_domain destination) user,
              rr_resolved_ips = ips\<rparr>))"
proof -
  define domain where "domain = normalized_domain destination"
  define globals where "globals = kept_rules env (rt_global_rules table) (rt_global_index table) (context []) domain"
  define policies where "policies = kept_rules env (cp_rules user) (cp_index user) (context []) domain"
  have kept: "kept_rules env (rt_global_rules table) (rt_global_index table) (context ips) domain = globals"
    "kept_rules env (cp_rules user) (cp_index user) (context ips) domain = policies" for ips
    unfolding globals_def policies_def by (rule kept_rules_ips, simp add: assms(4))+
  have select: "select_for_user env table (context ips) domain user =
      (case find (\<lambda>r. ip_group_matches env r (context ips)) globals of
         Some rule \<Rightarrow> rule_decision rule ScopeGlobal
       | None \<Rightarrow> (case find (\<lambda>r. ip_group_matches env r (context ips)) policies of
           Some rule \<Rightarrow> rule_decision rule ScopePolicy | None \<Rightarrow> default_decision user))" for ips
    unfolding select_for_user_def select_from_rules_kept kept ..
  have group: "(\<lambda>r. ip_group_matches env r (context [])) = (\<lambda>r. cr_ips r = [])"
    by (rule ext, rule unresolved_ip_group) (simp_all add: assms(2,4))
  have scopes: "rd_scope (rule_decision rule scope) = scope" "rd_scope (default_decision user) = ScopeDefault" for rule scope
    by (simp_all add: rule_decision_def default_decision_def)
  have collect: "select_besides_ip env table (context []) domain user [] =
      (case find (\<lambda>r. cr_ips r = []) globals of
         Some rule \<Rightarrow> (Some (rule, ScopeGlobal), map (\<lambda>r. (r, ScopeGlobal)) (takeWhile (\<lambda>r. cr_ips r \<noteq> []) globals))
       | None \<Rightarrow> (case find (\<lambda>r. cr_ips r = []) policies of
           Some rule \<Rightarrow> (Some (rule, ScopePolicy), map (\<lambda>r. (r, ScopeGlobal)) globals
             @ map (\<lambda>r. (r, ScopePolicy)) (takeWhile (\<lambda>r. cr_ips r \<noteq> []) policies))
         | None \<Rightarrow> (None, map (\<lambda>r. (r, ScopeGlobal)) globals @ map (\<lambda>r. (r, ScopePolicy)) policies)))"
    by (simp add: select_besides_ip_def collect_besides_ip_kept kept collect_scan_kept split: option.split)
  have pending: "(case first_pending env c (map (\<lambda>r. (r, ScopeGlobal)) globals @ map (\<lambda>r. (r, ScopePolicy)) policies) of
        Some (rule, scope) \<Rightarrow> rule_decision rule scope | None \<Rightarrow> default_decision user) =
      (case find (\<lambda>r. ip_group_matches env r c) globals of
         Some rule \<Rightarrow> rule_decision rule ScopeGlobal
       | None \<Rightarrow> (case find (\<lambda>r. ip_group_matches env r c) policies of
           Some rule \<Rightarrow> rule_decision rule ScopePolicy | None \<Rightarrow> default_decision user))" for c
    using first_pending_map[of env c ScopePolicy policies "[]"]
    by (simp add: first_pending_map split: option.split)
  have unfold: "select_with_dns env table dns user_id inbound_tag destination ResolveIfNoMatch =
      (case select_besides_ip env table (context []) domain user [] of
         (Some (rule, scope), _) \<Rightarrow> Ok \<lparr>rr_decision = rule_decision rule scope, rr_resolved_ips = []\<rparr>
       | (None, pending) \<Rightarrow> and_then (resolve_domain dns destination) (\<lambda>ips.
           Ok \<lparr>rr_decision = (case first_pending env (context ips) pending of
                 Some (rule, scope) \<Rightarrow> rule_decision rule scope | None \<Rightarrow> default_decision user),
               rr_resolved_ips = ips\<rparr>))"
    unfolding select_with_dns_def Let_def domain_def assms(4) using assms(1-3) by auto
  show ?thesis
    unfolding unfold collect domain_def[symmetric] Let_def select group
    by (simp add: scopes pending split: option.split)
qed

section \<open>What a lookup contributes\<close>

lemma collect_ips_Ok:
  assumes "collect_ips resolved addresses = Ok ips" and "distinct resolved" and "length resolved \<le> MAX_RESOLVED_IPS"
  shows "distinct ips \<and> ips \<noteq> [] \<and> length ips \<le> MAX_RESOLVED_IPS \<and> set ips = set resolved \<union> sa_ip ` set addresses"
  using assms by (induction resolved addresses rule: collect_ips.induct) (auto split: if_splits)

lemma resolve_domain_Ok:
  assumes "resolve_domain dns destination = Ok ips" and "is_domain destination"
  shows "distinct ips \<and> ips \<noteq> [] \<and> length ips \<le> MAX_RESOLVED_IPS"
  using assms collect_ips_Ok[of "[]"]
  by (auto simp: resolve_domain_def resolve_domain_with_def is_domain_def MAX_RESOLVED_IPS_def
      split: address.splits option.splits dns_answer.splits)

section \<open>First match\<close>

definition first_match_decision ::
  "route_env \<Rightarrow> compiled_rule list \<Rightarrow> compiled_user_policy \<Rightarrow> route_context \<Rightarrow> str option \<Rightarrow> route_decision"
where
  "first_match_decision env globals user context domain =
    (case find (\<lambda>rule. rule_matches env rule context domain) globals of
       Some rule \<Rightarrow> rule_decision rule ScopeGlobal
     | None \<Rightarrow> (case find (\<lambda>rule. rule_matches env rule context domain) (cp_rules user) of
         Some rule \<Rightarrow> rule_decision rule ScopePolicy | None \<Rightarrow> default_decision user))"

definition policy_compiled :: "route_env \<Rightarrow> compiled_user_policy \<Rightarrow> bool" where
  "policy_compiled env policy \<longleftrightarrow> cp_index policy = build_index env (cp_rules policy)
     \<and> (\<exists>rules label. compile_rules env rules label = Ok (cp_rules policy))"

lemma compile_policy_compiled: "compile_policy env name out rules = Ok policy \<Longrightarrow> policy_compiled env policy"
  unfolding compile_policy_def policy_compiled_def by (auto simp: result_simps) blast

lemma collect_results_member:
  assumes "collect_results f xs = Ok ys" and "y \<in> set ys"
  shows "\<exists>x \<in> set xs. f x = Ok y"
proof -
  obtain i where "i < length ys" "y = ys ! i" using assms(2) by (metis in_set_conv_nth)
  then show ?thesis using collect_results_Ok[OF assms(1)] by (metis nth_mem)
qed

text \<open>What the configuration prescribes for a client: the policy it names, else the global rules and default.\<close>

definition configured_policy ::
  "route_env \<Rightarrow> routing_config \<Rightarrow> user_config \<Rightarrow> routing_compile_error + compiled_user_policy"
where
  "configured_policy env config client = (case uc_policy client of
     None \<Rightarrow> compile_policy env (ascii ''routing'') (rcfg_default config) (config_rules config)
   | Some name \<Rightarrow> (case map_of (config_policies config) name of
       None \<Rightarrow> Err UnknownPolicy
     | Some policy \<Rightarrow>
        compile_policy env (ascii ''routing.policies.'' @ name) (rp_default policy) (or_default (rp_rules policy))))"

lemma compile_named_lookup:
  assumes "compile_named env policies = Ok named" and "map_of named name = Some p"
  shows "\<exists>policy. map_of policies name = Some policy
    \<and> compile_policy env (ascii ''routing.policies.'' @ name) (rp_default policy) (or_default (rp_rules policy)) = Ok p"
  using assms
proof (induction policies arbitrary: named)
  case (Cons x policies)
  then show ?case
    by (cases x) (fastforce simp: compile_named_def result_simps split: if_splits)
qed (simp add: compile_named_def)

lemma configured_policy_compiled: "configured_policy env config client = Ok user \<Longrightarrow> policy_compiled env user"
  by (auto simp: configured_policy_def compile_policy_compiled split: option.splits)

lemma configured_policy_exists:
  "configured_policy env config client = Ok user \<Longrightarrow> uc_policy client = Some name \<Longrightarrow> has_policy config name"
  by (force simp: configured_policy_def has_policy_def split: option.splits dest: map_of_SomeD)

lemma compile_user_configured:
  assumes "compile_policy env (ascii ''routing'') (rcfg_default config) (config_rules config) = Ok fallback"
    and "compile_named env (config_policies config) = Ok named"
    and "compile_user parse_uuid fallback named client = Ok (u, user)"
  shows "parse_uuid (uc_id client) = Some u \<and> configured_policy env config client = Ok user"
proof (cases "uc_policy client")
  case None
  then show ?thesis
    using assms(1,3) by (auto simp: compile_user_def configured_policy_def result_simps)
next
  case (Some name)
  then have "parse_uuid (uc_id client) = Some u" "map_of named name = Some user"
    using assms(3) by (auto simp: compile_user_def result_simps)
  then show ?thesis
    using compile_named_lookup[OF assms(2), of name user] Some by (auto simp: configured_policy_def)
qed

lemma compile_table_user:
  assumes "compile_table env parse_uuid sort_by config clients = Ok table" and "unstable_sort sort_by"
    and "client \<in> set clients" and "parse_uuid (uc_id client) = Some u"
    and "distinct (map (\<lambda>client. parse_uuid (uc_id client)) clients)"
  shows "\<exists>user. get_user (rt_users table) u = Some user \<and> configured_policy env config client = Ok user"
proof -
  obtain globals fallback named users where
    fallback: "compile_policy env (ascii ''routing'') (rcfg_default config) (config_rules config) = Ok fallback"
    and named: "compile_named env (config_policies config) = Ok named"
    and users: "collect_results (compile_user parse_uuid fallback named) clients = Ok users"
    and table: "rt_users table = from_entries sort_by users"
    using assms(1) by (auto simp: compile_table_def result_simps)
  note configured = compile_user_configured[OF fallback named]
  obtain i where i: "i < length clients" "client = clients ! i" using assms(3) by (metis in_set_conv_nth)
  obtain v p where entry: "users ! i = (v, p)" by fastforce
  have own: "compile_user parse_uuid fallback named client = Ok (v, p)" "(v, p) \<in> set users"
    using collect_results_Ok[OF users] i entry by (auto simp: in_set_conv_nth)
  then have "u \<in> fst ` set users" using configured[OF own(1)] assms(4) by force
  then obtain user where get: "get_user (rt_users table) u = Some user"
    using unstable_sort.lookup_None[OF assms(2), of users u] table by auto
  then obtain client' where client': "client' \<in> set clients" "compile_user parse_uuid fallback named client' = Ok (u, user)"
    using unstable_sort.lookup_member[OF assms(2), of users u user] collect_results_member[OF users] table by auto
  then have "client' = client"
    using configured[OF client'(2)] assms(3-5) by (simp add: distinct_map inj_on_def)
  then show ?thesis using get configured[OF client'(2)] by blast
qed

lemma compile_table_globals:
  assumes "compile_table env parse_uuid sort_by config clients = Ok table"
  shows "compile_rules env (config_rules config) (ascii ''routing.rules'') = Ok (rt_global_rules table)
    \<and> rt_global_index table = build_index env (rt_global_rules table)"
  using assms by (auto simp: compile_table_def result_simps)

lemma compile_rule_label:
  assumes "compile_rule env rule label = Ok r" and "compile_rule env rule label' = Ok r'"
  shows "rule_matches env r context domain = rule_matches env r' context domain"
proof -
  have "r' = r\<lparr>cr_name := cr_name r'\<rparr>" using assms by (auto simp: compile_rule_def result_simps)
  moreover have "rule_matches env (r\<lparr>cr_name := n\<rparr>) context domain = rule_matches env r context domain" for n
    by (cases domain) (simp_all add: rule_matches_def domain_group_matches_def ip_group_matches_def static_groups_match_def)
  ultimately show ?thesis by metis
qed

lemma compile_rules_nth:
  assumes "compile_rules env rules label = Ok rs"
  shows "length rs = length rules"
    and "i < length rules \<Longrightarrow> compile_rule env (rules ! i) (index_label label i) = Ok (rs ! i)"
proof -
  note c = collect_results_Ok[OF assms[unfolded compile_rules_def]]
  show "length rs = length rules" using conjunct1[OF c] by simp
  show "compile_rule env (rules ! i) (index_label label i) = Ok (rs ! i)" if "i < length rules"
    using conjunct2[OF c, rule_format, of i] that by (simp add: nth_enumerate_eq)
qed

lemma compile_rules_label:
  assumes "compile_rules env rules label = Ok rs" and "compile_rules env rules label' = Ok rs'"
    and "find (\<lambda>r. rule_matches env r context domain) rs = None"
  shows "find (\<lambda>r. rule_matches env r context domain) rs' = None"
proof -
  have "\<not> rule_matches env r context domain" if r: "r \<in> set rs'" for r
  proof -
    obtain i where i: "i < length rs'" "r = rs' ! i" using r by (metis in_set_conv_nth)
    then have len: "i < length rules" "i < length rs"
      by (simp_all add: compile_rules_nth(1)[OF assms(1)] compile_rules_nth(1)[OF assms(2)])
    have "rs ! i \<in> set rs" using len(2) by (rule nth_mem)
    then have "\<not> rule_matches env (rs ! i) context domain" using assms(3) by (simp add: find_None_iff)
    then show ?thesis
      using compile_rule_label[OF compile_rules_nth(2)[OF assms(1) len(1)] compile_rules_nth(2)[OF assms(2) len(1)]] i(2)
      by simp
  qed
  then show ?thesis by (simp add: find_None_iff)
qed

text \<open>
  C1. A compiled table routes by the configuration, for every client whose id no other client has:
  its user is known, and, when the keywords of the global rules and those of its own rules do not
  overlap in the domain, the selected outbound is that of the first configured global rule whose
  conditions all hold, else of the first such rule of the policy the client names, else the
  default of that policy. The global rules are evaluated first for every client, and one that
  names no policy gets the global default and is never decided by a policy rule.
\<close>

theorem select_route_first_match:
  assumes "standard_search (find_iter env)" and "unstable_sort sort_by"
    and "compile_table env parse_uuid sort_by config clients = Ok table"
    and "client \<in> set clients" and "parse_uuid (uc_id client) = Some (rc_user_id context)"
    and "distinct (map (\<lambda>client. parse_uuid (uc_id client)) clients)"
  shows "\<exists>globals user. compile_rules env (config_rules config) (ascii ''routing.rules'') = Ok globals
    \<and> configured_policy env config client = Ok user
    \<and> ((\<forall>d. normalized_domain (rc_destination context) = Some d \<longrightarrow>
          separate (rule_keywords globals) d \<and> separate (rule_keywords (cp_rules user)) d) \<longrightarrow>
        select_route env table context
          = Ok (first_match_decision env globals user context (normalized_domain (rc_destination context))))
    \<and> (uc_policy client = None \<longrightarrow>
        rd_scope (first_match_decision env globals user context (normalized_domain (rc_destination context))) \<noteq> ScopePolicy)"
proof -
  let ?d = "normalized_domain (rc_destination context)"
  let ?globals = "rt_global_rules table"
  note globals = compile_table_globals[OF assms(3)]
  obtain user where get: "get_user (rt_users table) (rc_user_id context) = Some user"
    and configured: "configured_policy env config client = Ok user"
    using compile_table_user[OF assms(3,2,4,5,6)] by blast
  obtain rules label where rules: "compile_rules env rules label = Ok (cp_rules user)"
    and index: "cp_index user = build_index env (cp_rules user)"
    using configured_policy_compiled[OF configured] by (auto simp: policy_compiled_def)
  have "select_route env table context = Ok (first_match_decision env ?globals user context ?d)"
    if sep: "\<forall>d. ?d = Some d \<longrightarrow> separate (rule_keywords ?globals) d \<and> separate (rule_keywords (cp_rules user)) d"
  proof -
    have "select_from_rules env ?globals (rt_global_index table) context ?d
        = find (\<lambda>rule. rule_matches env rule context ?d) ?globals"
      "select_from_rules env (cp_rules user) (cp_index user) context ?d
        = find (\<lambda>rule. rule_matches env rule context ?d) (cp_rules user)"
      using indexed_scans_agree(1)[OF assms(1) conjunct1[OF globals]] indexed_scans_agree(1)[OF assms(1) rules] sep globals index
      by simp_all
    then have "select_for_user env table context ?d user = first_match_decision env ?globals user context ?d"
      unfolding select_for_user_def first_match_decision_def by (simp only:)
    then show ?thesis using get by (simp add: select_route_def)
  qed
  moreover have "rd_scope (first_match_decision env ?globals user context ?d) \<noteq> ScopePolicy"
    if "uc_policy client = None"
  proof -
    have "compile_rules env (config_rules config) (ascii ''routing'') = Ok (cp_rules user)"
      using configured that by (auto simp: configured_policy_def compile_policy_def result_simps)
    from compile_rules_label[OF conjunct1[OF globals] this, of "context" ?d] show ?thesis
      by (auto simp: first_match_decision_def rule_decision_def default_decision_def split: option.splits)
  qed
  ultimately show ?thesis using configured globals by (intro exI[of _ ?globals] exI[of _ user] conjI impI) simp_all
qed

section \<open>Instances\<close>

definition lan_rule :: compiled_rule where
  "lan_rule = \<lparr>cr_name = ascii ''lan'', cr_outbound = ascii ''block'', cr_domains = [], cr_residual_domains = [],
     cr_ips = [MatchNetwork (NetV4 0x0A000000 8)], cr_ports = []\<rparr>"

definition lan_policy :: compiled_user_policy where
  "lan_policy = \<lparr>cp_name = ascii ''routing'', cp_default_outbound = ascii ''direct'', cp_rules = [], cp_index = None,
     cp_has_ip_rules = False\<rparr>"

definition lan_table :: routing_table where
  "lan_table = \<lparr>rt_global_rules = [lan_rule], rt_global_index = None, rt_users = SortedMap [([1], lan_policy)],
     rt_global_has_ip_rules = True\<rparr>"

lemma lan_user: "get_user (rt_users lan_table) [1] = Some lan_policy"
  by (simp add: lan_table_def binary_search_def bisect.simps)

theorem resolve_if_no_match_two_pass_witness:
  "select_with_dns plain_env lan_table (\<lambda>_ _. LookupAddresses [\<lparr>sa_ip = V4 0x0A010203, sa_port = 443\<rparr>]) [1] []
     \<lparr>dst_address = DomainName (ascii ''nas''), dst_port = 443\<rparr> ResolveIfNoMatch
   = Ok \<lparr>rr_decision = \<lparr>rd_outbound = ascii ''block'', rd_rule_name = ascii ''lan'', rd_scope = ScopeGlobal\<rparr>,
         rr_resolved_ips = [V4 0x0A010203]\<rparr>"
proof -
  have nip: "parse_ip (ascii ''nas'') = None" by (simp add: parse_ip_eval ascii_def)
  show ?thesis
    by (subst resolve_if_no_match_two_pass[OF lan_user _ _ refl])
       (simp_all add: is_domain_def lan_table_def select_for_user_def select_from_rules_def lan_rule_def lan_policy_def
         rule_matches_def domain_group_matches_def ip_group_matches_def static_groups_match_def destination_ips_def
         default_decision_def rule_decision_def resolve_domain_def resolve_domain_with_def nip MAX_RESOLVED_IPS_def
         prefix_mask_u32_def mask_eq_exp_minus_1)
qed

text \<open>A client that names the policy \<open>kids\<close>, whose rule decides where no global rule matches.\<close>

definition kids_policy :: route_policy where
  "kids_policy = \<lparr>rp_default = ascii ''direct'', rp_rules = Some [keyword_rule (ascii ''ads'') (ascii ''80'')]\<rparr>"

definition kids_config :: routing_config where
  "kids_config = \<lparr>rcfg_default = ascii ''direct'', rcfg_strategy = None,
     rcfg_rules = Some [keyword_rule (ascii ''adserver'') (ascii ''443'')],
     rcfg_policies = Some [(ascii ''kids'', kids_policy)]\<rparr>"

definition kids_client :: user_config where
  "kids_client = \<lparr>uc_id = [], uc_short_ids = [], uc_label = None, uc_policy = Some (ascii ''kids'')\<rparr>"

definition kids_compiled :: compiled_user_policy where
  "kids_compiled = \<lparr>cp_name = ascii ''routing.policies.'' @ ascii ''kids'', cp_default_outbound = ascii ''direct'',
     cp_rules = [keyword_compiled (ascii ''ads'') 80], cp_index = None, cp_has_ip_rules = False\<rparr>"

definition kids_table :: routing_table where
  "kids_table = \<lparr>rt_global_rules = [keyword_compiled (ascii ''adserver'') 443], rt_global_index = None,
     rt_users = from_entries (sort_key fst) [([1], kids_compiled)], rt_global_has_ip_rules = False\<rparr>"

lemma compile_kids_rules:
  "compile_rules plain_env (config_rules kids_config) label = Ok [keyword_compiled (ascii ''adserver'') 443]"
  "compile_rules plain_env (or_default (rp_rules kids_policy)) label = Ok [keyword_compiled (ascii ''ads'') 80]"
  by (simp_all add: compile_rules_def config_rules_def or_default_def kids_config_def kids_policy_def compile_overlap_rule)

lemma kids_rules_plain:
  "has_ip_rules [keyword_compiled k port] = False" "build_index plain_env [keyword_compiled k port] = None"
  by (simp_all add: has_ip_rules_def keyword_compiled_def build_index_def INDEXED_RULE_LIMIT_def)

lemma compile_kids_policy:
  "compile_policy plain_env (ascii ''routing.policies.'' @ ascii ''kids'') (rp_default kids_policy)
     (or_default (rp_rules kids_policy)) = Ok kids_compiled"
  by (simp add: compile_policy_def compile_kids_rules kids_rules_plain kids_compiled_def) (simp add: kids_policy_def)

lemma config_policies_kids: "config_policies kids_config = [(ascii ''kids'', kids_policy)]"
  by (simp add: config_policies_def or_default_def kids_config_def)

lemma compile_kids_table:
  "compile_table plain_env (\<lambda>_. Some [1]) (sort_key fst) kids_config [kids_client] = Ok kids_table"
proof -
  have "compile_named plain_env (config_policies kids_config) = Ok [(ascii ''kids'', kids_compiled)]"
    by (simp add: compile_named_def config_policies_kids compile_kids_policy)
  then show ?thesis
    by (simp add: compile_table_def compile_kids_rules kids_rules_plain compile_policy_def compile_user_def kids_client_def
        kids_table_def)
qed

theorem select_route_first_match_witness:
  "select_route plain_env kids_table (overlap_context 80\<lparr>rc_user_id := [1]\<rparr>)
   = Ok \<lparr>rd_outbound = ascii ''block'', rd_rule_name = ascii ''ads'', rd_scope = ScopePolicy\<rparr>"
proof -
  let ?c = "overlap_context 80\<lparr>rc_user_id := [1]\<rparr>"
  let ?globals = "[keyword_compiled (ascii ''adserver'') 443]"
  have domain: "normalized_domain (rc_destination ?c) = Some (ascii ''adserver'')"
    by (simp add: normalized_domain_lower overlap_context_def to_ascii_lowercase_def lower_byte_def ascii_def)
  have sep: "separate [ascii ''ads''] (ascii ''adserver'')" "separate [ascii ''adserver''] (ascii ''adserver'')"
    using overlap_occurs by (auto simp: separate_def)
  have keys: "rule_keywords ?globals = [ascii ''adserver'']" "rule_keywords (cp_rules kids_compiled) = [ascii ''ads'']"
    by (simp_all add: rule_keywords_def keyword_compiled_def kids_compiled_def ascii_def)
  have configured: "configured_policy plain_env kids_config kids_client = Ok kids_compiled"
    by (simp add: configured_policy_def kids_client_def config_policies_kids compile_kids_policy)
  have "select_route plain_env kids_table ?c
      = Ok (first_match_decision plain_env ?globals kids_compiled ?c (Some (ascii ''adserver'')))"
    using select_route_first_match[OF plain_env_search key_sort.unstable_sort_axioms compile_kids_table, of kids_client ?c]
    unfolding domain compile_kids_rules configured by (auto simp: keys sep)
  also have "first_match_decision plain_env ?globals kids_compiled ?c (Some (ascii ''adserver''))
      = \<lparr>rd_outbound = ascii ''block'', rd_rule_name = ascii ''ads'', rd_scope = ScopePolicy\<rparr>"
    by (simp add: first_match_decision_def kids_compiled_def keyword_compiled_def rule_matches_def domain_group_matches_def
        ip_group_matches_def static_groups_match_def port_range_contains_def overlap_context_def rule_decision_def
        keyword_matches_def windows_def ascii_def)
  finally show ?thesis .
qed

end
