(* ===== verification/Spec2Isabelle.thy ===== *)
theory Spec2Isabelle
  imports Session_Vision Direct_Handoff Session_Transfer Udp_Window Udp_Wire Udp_Frag Udp_Pmtu
    Nonce_Cache Udp_Open Stream_Decoder Vless_Addons Vless_Decode Vless_Client Vless_Read
    Vision_Uplink Nxr_Association User_Registry Routing
begin

text \<open>
  Verification of the session, datagram, codec and routing layers of rust-reality, a proxy server
  and client for VLESS over REALITY.

  \<^bold>\<open>The program.\<close>  A client tunnels local connections to a server (the LINE) inside a TLS 1.3
  session.  In the tunnel runs VLESS: a request header, then a byte stream wrapped in the Vision
  padding protocol, or XUDP datagram frames.  The LINE authorises the request, asks the router
  which outbound serves the destination, and either connects itself or passes the traffic on to a
  second node (the LANDING) over the NXR protocol or over the native UDP channel of the handoff
  protocol.  When both peers speak TLS inside the tunnel, the two directions of a Vision session
  agree to splice the raw sockets together (Direct).

  \<^bold>\<open>Conventions.\<close>  \<open>Prelude\<close> holds the machine types, results and big-endian integers.  A struct is
  a record, an enum a datatype with the constructors of the source, \<open>Result<T, E>\<close> a sum with
  \<open>Err\<close> on the left, \<open>?\<close> is \<open>and_then\<close>, text is its bytes.  Stateful operations take and return
  their state.  Socket operations are arguments or scripts of what the socket does (how much is
  read or written, when it fails), so that theorems quantify over every behaviour of the network.
  Cryptographic primitives (AEAD, HKDF, HMAC-SHA256, X25519), randomness, regular expressions, geo
  data, the multi-pattern search, DNS and the sort of the standard library are parameters; what
  is assumed of them is stated as a hypothesis or a locale and shown satisfiable by an instance.

  \<^bold>\<open>Sessions\<close> (\<open>crates/rr-session\<close>, \<open>src/server/direct.rs\<close>).
  \<^item> \<open>Session_Vision\<close>: the lifecycle of a direction (\<open>vision.rs\<close>: permits, plan, transition) and the
    bounded rendezvous (\<open>rendezvous.rs\<close>).
  \<^item> \<open>Direct_Handoff\<close>: deposit, decide, take and settle of \<open>DirectHandoff\<close>, and the two direction
    tasks as a step relation over their interleavings.  The directions never disagree about
    pairing; at most one drives the paired relay, and exactly one once both have deposited; a
    deciding direction is never refused, and none waits for its peer: six actions of its own
    take it from the raw boundary to its relay.
  \<^item> \<open>Session_Transfer\<close>: write progress and the race of connection attempts (\<open>transfer.rs\<close>,
    \<open>client_race.rs\<close>).

  \<^bold>\<open>VLESS and Vision\<close> (\<open>src/protocol/vless\<close>, \<open>src/server/vision\<close>, \<open>src/user_map.rs\<close>).
  \<^item> \<open>Stream_Decoder\<close>: the contract of decoders over a growing buffer, interpreted by the codecs.
  \<^item> \<open>Vless_Addons\<close>, \<open>Vless_Decode\<close>, \<open>Vless_Client\<close>, \<open>Vless_Read\<close>: the addons parser, the owning and
    borrowing request decoders, the encoders of the client and the readers with authorisation.
    The decoders accept exactly the encodings, agree with each other, a request survives any
    cut of the records that carry it, and only requests of the authenticated user with the
    Vision flow are accepted, TCP or XUDP.
  \<^item> \<open>User_Map\<close>, \<open>User_Registry\<close>: the map of users by bisection or hashing, and the registry over it.
  \<^item> \<open>Vision_Padding\<close>, \<open>Vision_Decode\<close>, \<open>Vision_Encode\<close>, \<open>Vision_Framing\<close>: padding draws (the residue
    of the first acceptable keystream word, hence unbiased), the resumable decoder (refined to a reference that reads byte by byte), the frame planner and its writer.
  \<^item> \<open>Nested_Tls\<close>, \<open>Nested_Detect\<close>: the reader of nested TLS records and the detector that decides on
    splicing, independent of how the records were cut.
  \<^item> \<open>Vision_Relay\<close>, \<open>Vision_Uplink\<close>: the framed loops of both directions; what one end sends the
    other delivers, once and in order, whatever the sockets do.

  \<^bold>\<open>Datagrams\<close> (\<open>src/protocol/handoff/udp\<close>, \<open>src/protocol/nxr\<close>, \<open>src/protocol/nxr_udp\<close>, \<open>src/server/nxr\<close>,
  \<open>src/server/xudp.rs\<close>).
  \<^item> \<open>Replay_Filter\<close>, \<open>Udp_Window\<close>: the contract of a replay filter and the ring bitmap that keeps it.
  \<^item> \<open>Udp_Wire\<close>, \<open>Udp_Frag\<close>, \<open>Udp_Pmtu\<close>: packets and channels, fragmentation with bounded reassembly
    (what is delivered is put together from received fragments only), path MTU probing.
  \<^item> \<open>Nonce_Cache\<close>, \<open>Admission\<close>, \<open>Udp_Open\<close>: the replay caches, the argument that a timestamp window and
    a nonce reservation admit nothing twice (proved once, used by both openings), and the OPEN.
  \<^item> \<open>Frame_Stream\<close>, \<open>Vless_Xudp\<close>, \<open>Nxr_Frames\<close>: frames drained off a byte stream, and the two framings.
    Complete XUDP metadata with a destination cut short is shown to stall the drain loop.
  \<^item> \<open>Nxr_Open\<close>, \<open>Xudp_Globals\<close>, \<open>Nxr_Association\<close>: the NXR openings and their admission, the GlobalID map,
    and both ends of an NXR UDP association, composed: what the LINE is given, the LANDING sends to
    the destinations the router authorised.

  \<^bold>\<open>Routing\<close> (\<open>src/server/routing.rs\<close>, \<open>src/config/node/routing.rs\<close>).
  \<^item> \<open>Text_Parse\<close>: strings, numbers and IP addresses as the standard library parses them.
  \<^item> \<open>Route_Rules\<close>: matchers and rules, compiled from the text of the configuration.
  \<^item> \<open>Keyword_Search\<close>, \<open>Rule_Index\<close>: the contract of the search automaton and the candidate index.  The
    indexed scan equals the ordered scan when the keywords do not overlap in the domain; when they
    do, it can miss a rule, and a rule list on which it does is exhibited.
  \<^item> \<open>Routing\<close>: the table and the selection: first match over the configured global rules, then those
    of the policy the client names, then its default; the one-pass treatment of name resolution decides as two full passes would.

  \<^bold>\<open>Bounds and fuel.\<close>  Loops of the code are structural recursion on the data they consume or
  \<open>function\<close>s with a measure.  Loops that wait on the network recurse on the script of the socket.
  The loops whose end is not evident from their shape (\<open>decode_loop\<close>, \<open>content_loop\<close>, \<open>below_loop\<close>,
  \<open>downlink_loop\<close>, \<open>evict_groups\<close>) are partial functions with the value \<open>None\<close> when they do not return;
  the theorems state when they return: a padding draw, and what is framed with it, as soon as the
  keystream gives an acceptable word or reseeding fails; the eviction unless the reassembler has no
  room for a single group, when it is shown not to.  There is no fuel.
  Buffer lengths and counters that the code keeps in \<open>usize\<close> or \<open>u64\<close> and never lets overflow are
  \<open>nat\<close>; saturating counters are \<open>sat_add\<close>; counters, sequence numbers, timestamps and bitmaps are
  words of their width.

  \<^bold>\<open>Not modelled.\<close>  The TLS 1.3 handshake and record protection and the REALITY authentication, which
  wrap third-party cryptography; the TCP handoff of live TLS state; outbound dialling, DNS
  transport, the fallback to the cover site, splice and io_uring copy loops, which are system calls
  and timers; the local SOCKS5 and HTTP inbounds and the tasks of the client; configuration
  parsing, which is done by serde; runtime sizing from the host; logging, the command line and the
  developer tools.  Atomics and locks are modelled at the granularity of one operation.
\<close>

end
